theory Spec2Isabelle
  imports Main "HOL-Library.Word" "HOL-Library.Multiset"
begin

unbundle bit_operations_syntax

chapter \<open>pakserve: archive codec, scanner, resolver and delivery\<close>

text \<open>
  A Go \<^verbatim>\<open>string\<close> and a Go \<^verbatim>\<open>[]byte\<close> are both sequences of bytes. They are
  modelled by \<^typ>\<open>string\<close>, whose elements (\<^typ>\<open>char\<close>) are exactly the 256 byte
  values; \<open>of_char\<close> reads a byte as a number and \<open>char_of\<close> is the conversion
  \<^verbatim>\<open>byte(n)\<close>.
\<close>

section \<open>Library functions the program calls\<close>

subsection \<open>strings.ToLower, strings.ReplaceAll, strings.HasPrefix, strings.HasSuffix\<close>

definition isASCII :: "string \<Rightarrow> bool" where
  "isASCII s = list_all (\<lambda>c. (of_char c :: nat) < 128) s"

definition isUpper :: "char \<Rightarrow> bool" where
  "isUpper c = (of_char (CHR ''A'') \<le> (of_char c :: nat) \<and> (of_char c :: nat) \<le> of_char (CHR ''Z''))"

definition lowerByte :: "char \<Rightarrow> char" where
  "lowerByte c = (if isUpper c then char_of ((of_char c :: nat) + 32) else c)"

text \<open>
  \<^verbatim>\<open>strings.ToLower\<close>: a string of ASCII bytes is returned unchanged when it has no upper
  case letter and otherwise converted byte by byte (\<^verbatim>\<open>c += 'a' - 'A'\<close>). A string with a
  byte at or above \<^verbatim>\<open>utf8.RuneSelf\<close> goes through \<^verbatim>\<open>strings.Map(unicode.ToLower, s)\<close>,
  which depends on the Unicode case tables; that path is the parameter \<open>lowerU\<close>.
\<close>

definition ToLower :: "(string \<Rightarrow> string) \<Rightarrow> string \<Rightarrow> string" where
  "ToLower lowerU s =
     (if isASCII s then (if \<not> list_ex isUpper s then s else map lowerByte s)
      else lowerU s)"

text \<open>\<^verbatim>\<open>strings.ReplaceAll(n, `\`, `/`)\<close>: both patterns are one byte long.\<close>

definition replaceBackslash :: "string \<Rightarrow> string" where
  "replaceBackslash n = map (\<lambda>c. if c = CHR 0x5C then CHR ''/'' else c) n"

fun HasPrefix :: "string \<Rightarrow> string \<Rightarrow> bool" where
  "HasPrefix s [] = True"
| "HasPrefix [] (p # ps) = False"
| "HasPrefix (c # cs) (p # ps) = (c = p \<and> HasPrefix cs ps)"

definition HasSuffix :: "string \<Rightarrow> string \<Rightarrow> bool" where
  "HasSuffix s suffix = HasPrefix (rev s) (rev suffix)"

subsection \<open>path.Clean\<close>

text \<open>
  The output buffer of \<^verbatim>\<open>path.Clean\<close> (\<^verbatim>\<open>lazybuf\<close>) is modelled by the bytes written
  so far: \<open>out\<close> is the first \<^verbatim>\<open>out.w\<close> bytes, \<^verbatim>\<open>append\<close> adds a byte at the end and
  lowering \<^verbatim>\<open>out.w\<close> truncates.

  \<^verbatim>\<open>out.w--; for out.w > dotdot && out.index(out.w) != '/' { out.w-- }\<close> is
  \<open>backtrackW out dotdot (length out - 1)\<close>.
\<close>

fun backtrackW :: "string \<Rightarrow> nat \<Rightarrow> nat \<Rightarrow> nat" where
  "backtrackW buf dotdot 0 = 0"
| "backtrackW buf dotdot (Suc w) =
     (if Suc w > dotdot \<and> buf ! Suc w \<noteq> CHR ''/'' then backtrackW buf dotdot w else Suc w)"

definition backtrack :: "nat \<Rightarrow> string \<Rightarrow> string" where
  "backtrack dotdot out = take (backtrackW out dotdot (length out - 1)) out"

text \<open>
  The main loop of \<^verbatim>\<open>path.Clean\<close>. The first argument of \<open>cleanLoop\<close> after \<open>rooted\<close> is
  the unread rest of the path, \<^verbatim>\<open>path[r:]\<close>.
\<close>

function cleanLoop :: "bool \<Rightarrow> string \<Rightarrow> string \<Rightarrow> nat \<Rightarrow> string" where
  "cleanLoop rooted [] out dotdot = out"
| "cleanLoop rooted (c # cs) out dotdot =
     (if c = CHR ''/'' then cleanLoop rooted cs out dotdot
      else if c = CHR ''.'' \<and> (cs = [] \<or> hd cs = CHR ''/'') then cleanLoop rooted cs out dotdot
      else if c = CHR ''.'' \<and> hd cs = CHR ''.'' \<and> (tl cs = [] \<or> hd (tl cs) = CHR ''/'') then
        (if length out > dotdot then cleanLoop rooted (tl cs) (backtrack dotdot out) dotdot
         else if \<not> rooted then
           (let out1 = (if length out > 0 then out @ ''/'' else out);
                out2 = out1 @ ''..''
            in cleanLoop rooted (tl cs) out2 (length out2))
         else cleanLoop rooted (tl cs) out dotdot)
      else
        (let out1 = (if rooted \<and> length out \<noteq> 1 \<or> \<not> rooted \<and> length out \<noteq> 0
                     then out @ ''/'' else out)
         in cleanLoop rooted (dropWhile (\<lambda>x. x \<noteq> CHR ''/'') cs)
              (out1 @ c # takeWhile (\<lambda>x. x \<noteq> CHR ''/'') cs) dotdot))"
  by pat_completeness auto
termination
  by (relation "measure (\<lambda>(rooted, p, out, dotdot). length p)")
     (auto intro: le_imp_less_Suc length_dropWhile_le)

text \<open>
  \<open>cleanBuf p\<close> is the output buffer at the end of the loop, for a path that is not empty;
  \<^verbatim>\<open>Clean\<close> returns it, or \<^verbatim>\<open>.\<close> when it is empty.
\<close>

definition cleanBuf :: "string \<Rightarrow> string" where
  "cleanBuf p =
     (let rooted = (hd p = CHR ''/'')
      in if rooted then cleanLoop True (tl p) ''/'' 1 else cleanLoop False p [] 0)"

definition Clean :: "string \<Rightarrow> string" where
  "Clean p =
     (if p = [] then ''.''
      else let out = cleanBuf p in if out = [] then ''.'' else out)"

section \<open>Archive entry names\<close>

text \<open>\<^verbatim>\<open>normalizeName\<close>; \<^verbatim>\<open>n[1:]\<close> is \<open>drop 1\<close>, the cleaned rooted path is never empty.\<close>

definition normalizeName :: "(string \<Rightarrow> string) \<Rightarrow> string \<Rightarrow> string" where
  "normalizeName lowerU n =
     (let n1 = replaceBackslash n;
          n2 = Clean (''/'' @ n1)
      in ToLower lowerU (drop 1 n2))"

text \<open>
  The shape of a cleaned rooted path: \<open>rootedOut segs\<close> is \<^verbatim>\<open>/\<close> for no segment and
  otherwise each segment preceded by a slash; a segment is good when it is not empty, holds
  no slash and is neither \<^verbatim>\<open>.\<close> nor \<^verbatim>\<open>..\<close>.
\<close>

definition goodSeg :: "string \<Rightarrow> bool" where
  "goodSeg s = (s \<noteq> [] \<and> CHR ''/'' \<notin> set s \<and> s \<noteq> ''.'' \<and> s \<noteq> ''..'')"

definition rootedOut :: "string list \<Rightarrow> string" where
  "rootedOut segs = (if segs = [] then ''/'' else concat (map (\<lambda>s. CHR ''/'' # s) segs))"

text \<open>Segments each preceded by a slash; the same with the leading slash removed is the usual join.\<close>

definition slashJoin :: "string list \<Rightarrow> string" where
  "slashJoin segs = concat (map (\<lambda>s. CHR ''/'' # s) segs)"

text \<open>How the loop of \<^verbatim>\<open>path.Clean\<close> adds one path element to its output buffer.\<close>

definition appendSeg :: "bool \<Rightarrow> string \<Rightarrow> string \<Rightarrow> string" where
  "appendSeg rooted out s =
     (if rooted \<and> length out \<noteq> 1 \<or> \<not> rooted \<and> length out \<noteq> 0 then out @ ''/'' else out) @ s"

text \<open>
  What the results on names and paths need of \<^verbatim>\<open>strings.ToLower\<close> on a string with a byte
  outside ASCII, where it is \<^verbatim>\<open>strings.Map(unicode.ToLower, s)\<close>: the string is read rune
  by rune (an invalid byte as the rune \<^verbatim>\<open>U+FFFD\<close>) and the lower case of every rune is written.
  A slash is a rune of its own and its own lower case, so the parts between slashes are
  converted separately; no other rune has a slash, a backslash or a dot as its lower case, and
  every rune is written as at least one byte, so a part acquires no slash and no backslash and
  becomes neither empty nor \<^verbatim>\<open>.\<close> nor \<^verbatim>\<open>..\<close> unless it was; and the lower case of a lower case
  rune is that rune, so converting twice is converting once. On a string of ASCII bytes all
  of this follows from the definition.
\<close>

definition lowerRunewise :: "(string \<Rightarrow> string) \<Rightarrow> bool" where
  "lowerRunewise lowerU =
     ((\<forall>a b. ToLower lowerU (a @ CHR ''/'' # b) = ToLower lowerU a @ CHR ''/'' # ToLower lowerU b) \<and>
      (\<forall>s. CHR ''/'' \<notin> set s \<longrightarrow> CHR ''/'' \<notin> set (ToLower lowerU s)) \<and>
      (\<forall>s. CHR 0x5C \<notin> set s \<longrightarrow> CHR 0x5C \<notin> set (ToLower lowerU s)) \<and>
      (\<forall>s. ToLower lowerU s = [] \<longrightarrow> s = []) \<and>
      (\<forall>s. ToLower lowerU s = ''.'' \<longrightarrow> s = ''.'') \<and>
      (\<forall>s. ToLower lowerU s = ''..'' \<longrightarrow> s = ''..'') \<and>
      (\<forall>s. ToLower lowerU (ToLower lowerU s) = ToLower lowerU s))"

section \<open>The server: data model\<close>

text \<open>
  \<^verbatim>\<open>PakFileEntry\<close>, \<^verbatim>\<open>SearchPath\<close> and \<^verbatim>\<open>CompiledSearchPath\<close>. The entry map of a
  \<^verbatim>\<open>SearchPath\<close> is \<^verbatim>\<open>nil\<close> for a plain directory: \<open>files = None\<close>. Offsets are never
  negative and are kept as natural numbers.
\<close>

record PakFileEntry =
  offset :: nat
  esize :: "32 word"
  filecrc :: "32 word"
  filelen :: "32 word"
  mtime :: "32 word"
  emethod :: "16 word"

record SearchPath =
  spath :: string
  files :: "(string \<rightharpoonup> PakFileEntry) option"

text \<open>
  A compiled regular expression is modelled by what \<^verbatim>\<open>FindStringIndex\<close> returns for it: the
  start and end offset of the leftmost match, or nothing. \<^verbatim>\<open>MatchString\<close> asks whether there
  is a match at all.
\<close>

type_synonym regexp = "string \<Rightarrow> (nat \<times> nat) option"

definition MatchString :: "regexp \<Rightarrow> string \<Rightarrow> bool" where
  "MatchString re s = (re s \<noteq> None)"

text \<open>The regular expression \<^verbatim>\<open>^lit\<close> for a literal \<open>lit\<close> without metacharacters.\<close>

definition anchoredLiteral :: "string \<Rightarrow> regexp" where
  "anchoredLiteral lit = (\<lambda>s. if HasPrefix s lit then Some (0, length lit) else None)"

record CompiledSearchPath =
  rmatch :: regexp
  search :: "SearchPath list"

text \<open>
  What the handler reads of a request, then the four header values that \<^verbatim>\<open>http.ServeContent\<close>
  reads when the handler passes the request on (empty when the header is absent), and the
  process-wide state the handler runs in: the parsed
  configuration, the published routing table, the files it can open, the platform's path
  separator, and the library functions whose results depend on data outside the repository
  (the Unicode tables behind the \<^verbatim>\<open>strings\<close> functions, the inflater, directory listings,
  the ZIP reader, \<^verbatim>\<open>sort.Slice\<close> on more than 12 elements, \<^verbatim>\<open>regexp.MustCompile\<close>, which
  gives nothing where the library panics, and the answers of \<^verbatim>\<open>http.ServeContent\<close> to a
  conditional request and to a range request other than one satisfiable range).
\<close>

record Request =
  urlPath :: string
  referer :: string
  reqMethod :: string
  acceptEncoding :: "string list"
  protoAtLeast11 :: bool
  hdrRange :: string
  hdrIfRange :: string
  hdrIfMatch :: string
  hdrIfNoneMatch :: string

text \<open>
  What the scanner reads of an entry of a ZIP archive opened by \<^verbatim>\<open>zip.OpenReader\<close>: the
  name, the method, the result of \<^verbatim>\<open>DataOffset\<close> (nothing on an error), whether the mode
  marks a directory, the 32-bit sizes, the checksum and the modification time as
  \<^verbatim>\<open>uint32(f.Modified.Unix())\<close>.
\<close>

record zipFile =
  zName :: string
  zMethod :: "16 word"
  zDataOffset :: "nat option"
  zIsDir :: bool
  zCompressedSize :: "32 word"
  zUncompressedSize :: "32 word"
  zCRC32 :: "32 word"
  zModified :: "32 word"

text \<open>
  The statuses \<^verbatim>\<open>http.ServeContent\<close> writes: 200, 206 for a part of the content, 304 and 412
  for a precondition, 416 for a range outside the content, 500 when the content cannot be
  measured.
\<close>

datatype libStatus =
    StatusOK | StatusPartialContent | StatusNotModified | StatusPreconditionFailed
  | StatusRequestedRangeNotSatisfiable | StatusInternalServerError

fun statusCode :: "libStatus \<Rightarrow> nat" where
  "statusCode StatusOK = 200"
| "statusCode StatusPartialContent = 206"
| "statusCode StatusNotModified = 304"
| "statusCode StatusPreconditionFailed = 412"
| "statusCode StatusRequestedRangeNotSatisfiable = 416"
| "statusCode StatusInternalServerError = 500"

record env =
  contentType :: string
  refererCheck :: regexp
  pakBlackList :: "regexp list"
  dirWhiteList :: "regexp list"
  searchPaths :: "CompiledSearchPath list"
  openFile :: "string \<rightharpoonup> string"
  separator :: char
  joinOther :: "string \<Rightarrow> string \<Rightarrow> string"
  uLower :: "string \<Rightarrow> string"
  uTrim :: "string \<Rightarrow> string"
  uTrimRight :: "string \<Rightarrow> string"
  inflate :: "string \<Rightarrow> string"
  readDir :: "string \<rightharpoonup> string list"
  zipOpen :: "string \<rightharpoonup> zipFile list"
  atoiU :: "string \<Rightarrow> int option"
  sortLong :: "(string \<Rightarrow> string \<Rightarrow> bool) \<Rightarrow> string list \<Rightarrow> string list"
  compileRe :: "string \<Rightarrow> regexp option"
  serveConditional :: "(string \<times> string) list \<Rightarrow> Request \<Rightarrow> string
                       \<Rightarrow> libStatus \<times> (string \<times> string) list \<times> string"
  serveRanges :: "(string \<times> string) list \<Rightarrow> Request \<Rightarrow> string
                  \<Rightarrow> libStatus \<times> (string \<times> string) list \<times> string"

text \<open>
  A response is the status, headers and body the handler wrote itself, or the hand-over of an
  opened file to \<^verbatim>\<open>http.ServeContent\<close> with the headers set so far.
\<close>

type_synonym headers = "(string \<times> string) list"

datatype response =
    Response nat headers string
  | ServeContent headers Request string

definition setHeader :: "string \<Rightarrow> string \<Rightarrow> headers \<Rightarrow> headers" where
  "setHeader k v h = filter (\<lambda>kv. fst kv \<noteq> k) h @ [(k, v)]"

definition getHeader :: "string \<Rightarrow> headers \<Rightarrow> string option" where
  "getHeader k h = map_of h k"

section \<open>The server: resolver\<close>

text \<open>
  \<^verbatim>\<open>findSearchPath\<close>: the loop over the routing table keeps the backing stores of the best
  route so far and the end offset of its match.
\<close>

fun findLoop :: "CompiledSearchPath list \<Rightarrow> string \<Rightarrow> SearchPath list option \<times> nat
    \<Rightarrow> SearchPath list option \<times> nat" where
  "findLoop [] p acc = acc"
| "findLoop (s # ss) p (srch, longest) =
     (case rmatch s p of
        Some (a, b) \<Rightarrow>
          if a = 0 \<and> b > longest then findLoop ss p (Some (search s), b)
          else findLoop ss p (srch, longest)
      | None \<Rightarrow> findLoop ss p (srch, longest))"

definition findSearchPath :: "(string \<Rightarrow> string) \<Rightarrow> CompiledSearchPath list \<Rightarrow> string
    \<Rightarrow> SearchPath list option \<times> string" where
  "findSearchPath lowU table rawPath =
     (let p = ToLower lowU (Clean rawPath);
          (srch, longest) = findLoop table p (None, 0)
      in (srch, drop longest p))"

text \<open>The end offset of a route pattern's match when that match begins at offset 0.\<close>

definition matchAt0 :: "regexp \<Rightarrow> string \<Rightarrow> nat option" where
  "matchAt0 re p = (case re p of Some (a, b) \<Rightarrow> if a = 0 then Some b else None | None \<Rightarrow> None)"

text \<open>
  The rule for route patterns: a match at the beginning of the path lies within the path and,
  when it is not empty, begins with a slash and ends with a slash. The README asks that each
  pattern match the beginning of the string and the slash at the end; its patterns all begin
  with \<^verbatim>\<open>^/\<close>.
\<close>

definition routesSlashToSlash :: "CompiledSearchPath list \<Rightarrow> string \<Rightarrow> bool" where
  "routesSlashToSlash table p =
     (\<forall>s\<in>set table. \<forall>e. matchAt0 (rmatch s) p = Some e \<longrightarrow>
        e \<le> length p \<and> (0 < e \<longrightarrow> p ! 0 = CHR ''/'' \<and> p ! (e - 1) = CHR ''/''))"

definition matchRegexpList :: "regexp list \<Rightarrow> string \<Rightarrow> bool" where
  "matchRegexpList list s = list_ex (\<lambda>r. MatchString r s) list"

section \<open>The server: content negotiation and delivery\<close>

text \<open>\<^verbatim>\<open>strings.Split(s, ",")\<close> and \<^verbatim>\<open>strings.TrimSpace\<close>.\<close>

fun splitOn :: "char \<Rightarrow> string \<Rightarrow> string list" where
  "splitOn sep [] = [[]]"
| "splitOn sep (c # cs) =
     (if c = sep then [] # splitOn sep cs
      else (case splitOn sep cs of x # xs \<Rightarrow> (c # x) # xs | [] \<Rightarrow> [[c]]))"

definition isAsciiSpace :: "char \<Rightarrow> bool" where
  "isAsciiSpace c = ((of_char c :: nat) \<in> {9, 10, 11, 12, 13, 32})"

text \<open>
  One direction of \<^verbatim>\<open>TrimSpace\<close>: skip ASCII white space; a byte at or above
  \<^verbatim>\<open>utf8.RuneSelf\<close> sends the rest to the Unicode-aware function (\<open>Inl\<close>).
\<close>

fun trimAscii :: "string \<Rightarrow> string + string" where
  "trimAscii [] = Inr []"
| "trimAscii (c # cs) =
     (if (of_char c :: nat) \<ge> 128 then Inl (c # cs)
      else if isAsciiSpace c then trimAscii cs
      else Inr (c # cs))"

definition TrimSpace :: "env \<Rightarrow> string \<Rightarrow> string" where
  "TrimSpace E s =
     (case trimAscii s of
        Inl rest \<Rightarrow> uTrim E rest
      | Inr t \<Rightarrow>
          (case trimAscii (rev t) of
             Inl back \<Rightarrow> uTrimRight E (rev back)
           | Inr back \<Rightarrow> rev back))"

definition parseAcceptEncoding :: "env \<Rightarrow> Request \<Rightarrow> bool \<times> bool" where
  "parseAcceptEncoding E r =
     (let encs = map (\<lambda>e. ToLower (uLower E) (TrimSpace E e))
                   (concat (map (splitOn (CHR '','')) (acceptEncoding r)))
      in (''gzip'' \<in> set encs, ''deflate'' \<in> set encs))"

text \<open>\<^verbatim>\<open>strconv.FormatInt(n, 10)\<close> for a number that is not negative.\<close>

function FormatInt :: "nat \<Rightarrow> string" where
  "FormatInt n = (if n < 10 then [char_of (48 + n)]
                  else FormatInt (n div 10) @ [char_of (48 + n mod 10)])"
  by pat_completeness auto
termination
  by (relation "measure id") auto

declare FormatInt.simps [simp del]

text \<open>\<^verbatim>\<open>binary.LittleEndian.PutUint32\<close>.\<close>

definition putUint32 :: "32 word \<Rightarrow> string" where
  "putUint32 v = [char_of (unat v), char_of (unat (drop_bit 8 v)),
                  char_of (unat (drop_bit 16 v)), char_of (unat (drop_bit 24 v))]"

text \<open>
  \<^verbatim>\<open>io.NewSectionReader(f, off, n)\<close> read to its end: the bytes of the file from \<open>off\<close>, at
  most \<open>n\<close> of them.
\<close>

definition readSection :: "string \<Rightarrow> nat \<Rightarrow> nat \<Rightarrow> string" where
  "readSection f off n = take n (drop off f)"

text \<open>
  The three ways to send an archive entry. The reader is \<open>None\<close> for a \<^verbatim>\<open>HEAD\<close> request
  (\<^verbatim>\<open>r == nil\<close>) and otherwise holds the bytes of the entry's section of the archive file.
\<close>

definition handleGzip :: "PakFileEntry \<Rightarrow> headers \<Rightarrow> string option \<Rightarrow> response" where
  "handleGzip entry h r =
     (let h1 = setHeader ''Content-Length'' (FormatInt (unat (esize entry) + 18)) h;
          h2 = setHeader ''Content-Encoding'' ''gzip'' h1
      in case r of
           None \<Rightarrow> Response 200 h2 []
         | Some raw \<Rightarrow>
             Response 200 h2
               ([CHR 0x1F, CHR 0x8B, CHR 0x08, CHR 0x00] @ putUint32 (mtime entry)
                  @ [CHR 0x00, CHR 0x03]
                @ raw
                @ putUint32 (filecrc entry) @ putUint32 (filelen entry)))"

definition handleRaw :: "PakFileEntry \<Rightarrow> headers \<Rightarrow> string option \<Rightarrow> response" where
  "handleRaw entry h r =
     (let h1 = setHeader ''Content-Length'' (FormatInt (unat (esize entry))) h;
          h2 = (if emethod entry \<noteq> 0 then setHeader ''Content-Encoding'' ''deflate'' h1 else h1)
      in case r of
           None \<Rightarrow> Response 200 h2 []
         | Some raw \<Rightarrow> Response 200 h2 raw)"

definition handleInflate :: "env \<Rightarrow> PakFileEntry \<Rightarrow> headers \<Rightarrow> string option \<Rightarrow> response" where
  "handleInflate E entry h r =
     (let h1 = setHeader ''Content-Length'' (FormatInt (unat (filelen entry))) h
      in case r of
           None \<Rightarrow> Response 200 h1 []
         | Some raw \<Rightarrow> Response 200 h1 (inflate E raw))"

definition closeWithError :: "Request \<Rightarrow> nat \<Rightarrow> response" where
  "closeWithError r code =
     Response code (if protoAtLeast11 r then setHeader ''Connection'' ''close'' [] else []) []"

text \<open>
  \<^verbatim>\<open>filepath.Join(dir, name)\<close> where the separator is a slash: empty elements are dropped and
  the rest joined by slashes is cleaned. On other platforms the result is the parameter
  \<open>joinOther\<close>.
\<close>

definition filepathJoin :: "env \<Rightarrow> string \<Rightarrow> string \<Rightarrow> string" where
  "filepathJoin E a b =
     (if separator E = CHR ''/'' then
        (if a \<noteq> [] then (if b \<noteq> [] then Clean (a @ ''/'' @ b) else Clean a)
         else if b \<noteq> [] then Clean b else [])
      else joinOther E a b)"

text \<open>The loop of the handler over the backing stores of the matched route.\<close>

fun serveLoop :: "env \<Rightarrow> Request \<Rightarrow> string \<Rightarrow> bool \<Rightarrow> bool \<Rightarrow> bool \<Rightarrow> bool
    \<Rightarrow> SearchPath list \<Rightarrow> response" where
  "serveLoop E r p allowPak allowDir hasGzip hasDeflate [] = Response 404 [] []"
| "serveLoop E r p allowPak allowDir hasGzip hasDeflate (s # ss) =
     (case files s of
        None \<Rightarrow>
          if \<not> allowDir then serveLoop E r p allowPak allowDir hasGzip hasDeflate ss
          else (case openFile E (filepathJoin E (spath s) p) of
                  Some f \<Rightarrow> ServeContent (setHeader ''Content-Type'' (contentType E) []) r f
                | None \<Rightarrow> serveLoop E r p allowPak allowDir hasGzip hasDeflate ss)
      | Some m \<Rightarrow>
          if \<not> allowPak then serveLoop E r p allowPak allowDir hasGzip hasDeflate ss
          else (case m p of
                  None \<Rightarrow> serveLoop E r p allowPak allowDir hasGzip hasDeflate ss
                | Some entry \<Rightarrow>
                   (case openFile E (spath s) of
                      None \<Rightarrow> serveLoop E r p allowPak allowDir hasGzip hasDeflate ss
                    | Some f \<Rightarrow>
                        let reader = (if reqMethod r \<noteq> ''HEAD''
                                      then Some (readSection f (offset entry) (unat (esize entry)))
                                      else None);
                            h = setHeader ''Content-Type'' (contentType E) []
                        in if emethod entry \<noteq> 0 then
                             (if hasGzip then handleGzip entry h reader
                              else if hasDeflate then handleRaw entry h reader
                              else handleInflate E entry h reader)
                           else handleRaw entry h reader)))"

definition handler :: "env \<Rightarrow> Request \<Rightarrow> response" where
  "handler E r =
     (if separator E \<noteq> CHR ''/'' \<and> separator E \<in> set (urlPath r) then closeWithError r 403
      else if \<not> MatchString (refererCheck E) (referer r) then closeWithError r 403
      else
        (case findSearchPath (uLower E) (searchPaths E) (urlPath r) of
           (None, p) \<Rightarrow> Response 404 [] []
         | (Some srch, p) \<Rightarrow>
             if p = [] then Response 404 [] []
             else
               let allowPak = \<not> matchRegexpList (pakBlackList E) p;
                   allowDir = matchRegexpList (dirWhiteList E) p
               in if \<not> allowPak \<and> \<not> allowDir then Response 404 [] []
                  else
                    let (hasGzip, hasDeflate) = parseAcceptEncoding E r
                    in serveLoop E r p allowPak allowDir hasGzip hasDeflate srch))"

section \<open>Conditions the handler tests\<close>

text \<open>
  Names for the tests the handler makes on a request, in its order: the separator test and the
  referer test, the two access gates on the asset path, and whether a backing store yields the
  asset (an archive holds the name and can be opened, or the file can be opened below a
  directory).
\<close>

definition tampered :: "env \<Rightarrow> Request \<Rightarrow> bool" where
  "tampered E r = (separator E \<noteq> CHR ''/'' \<and> separator E \<in> set (urlPath r))"

definition refererOk :: "env \<Rightarrow> Request \<Rightarrow> bool" where
  "refererOk E r = MatchString (refererCheck E) (referer r)"

definition allowPakFor :: "env \<Rightarrow> string \<Rightarrow> bool" where
  "allowPakFor E p = (\<not> matchRegexpList (pakBlackList E) p)"

definition allowDirFor :: "env \<Rightarrow> string \<Rightarrow> bool" where
  "allowDirFor E p = matchRegexpList (dirWhiteList E) p"

definition yields :: "env \<Rightarrow> string \<Rightarrow> SearchPath \<Rightarrow> bool" where
  "yields E p s =
     (case files s of
        None \<Rightarrow> allowDirFor E p \<and> openFile E (filepathJoin E (spath s) p) \<noteq> None
      | Some m \<Rightarrow> allowPakFor E p \<and> m p \<noteq> None \<and> openFile E (spath s) \<noteq> None)"

text \<open>
  The conditions under which the handler answers 404 once the separator and referer tests have
  passed: no route, an empty asset path, both gates closed, or no backing store that yields.
\<close>

definition notFoundCond :: "env \<Rightarrow> Request \<Rightarrow> bool" where
  "notFoundCond E r =
     (case findSearchPath (uLower E) (searchPaths E) (urlPath r) of
        (None, p) \<Rightarrow> True
      | (Some srch, p) \<Rightarrow>
          p = [] \<or> (\<not> allowPakFor E p \<and> \<not> allowDirFor E p) \<or> (\<forall>s\<in>set srch. \<not> yields E p s))"

section \<open>An example deployment\<close>

text \<open>
  A deployment on a platform whose separator is a slash, used to run the handler on concrete
  requests: one route \<^verbatim>\<open>^/baseq2/\<close>, whose backing stores are an archive with a stored and a
  deflated entry and then the directory itself; no archive name is blocked, directory access
  is allowed below \<^verbatim>\<open>maps/\<close>, and every referer is accepted.
\<close>

definition exampleArchive :: "string \<rightharpoonup> PakFileEntry" where
  "exampleArchive =
     [''maps/q2dm1.bsp'' \<mapsto>
        \<lparr>offset = 4, esize = 3, filecrc = 0, filelen = 0, mtime = 0, emethod = 0\<rparr>,
      ''pics/colormap.pcx'' \<mapsto>
        \<lparr>offset = 7, esize = 5, filecrc = 0x04030201, filelen = 9, mtime = 0x5F000001,
         emethod = 8\<rparr>]"

definition exampleEnv :: env where
  "exampleEnv =
     \<lparr>contentType = ''application/x-quake2-data'',
      refererCheck = anchoredLiteral [],
      pakBlackList = [],
      dirWhiteList = [anchoredLiteral ''maps/''],
      searchPaths =
        [\<lparr>rmatch = anchoredLiteral ''/baseq2/'',
          search = [\<lparr>spath = ''/srv/q2/baseq2/pak0.pkz'', files = Some exampleArchive\<rparr>,
                    \<lparr>spath = ''/srv/q2/baseq2'', files = None\<rparr>]\<rparr>],
      openFile = [''/srv/q2/baseq2/pak0.pkz'' \<mapsto> ''PK..bspDEFLA....'',
                  ''/srv/q2/baseq2/maps/base1.bsp'' \<mapsto> ''IBSP'',
                  ''/srv/q2/server.cfg'' \<mapsto> ''rcon_password''],
      separator = CHR ''/'',
      joinOther = (\<lambda>a b. a @ b),
      uLower = map lowerByte,
      uTrim = (\<lambda>s. s),
      uTrimRight = (\<lambda>s. s),
      inflate = (\<lambda>s. s @ s),
      readDir = [''/srv/q2/baseq2'' \<mapsto> [''pak0.pkz'', ''maps'', ''server.cfg'']],
      zipOpen =
        [''/srv/q2/baseq2/pak0.pkz'' \<mapsto>
           [\<lparr>zName = ''maps/q2dm1.bsp'', zMethod = 0, zDataOffset = Some 4, zIsDir = False,
             zCompressedSize = 3, zUncompressedSize = 3, zCRC32 = 0, zModified = 0\<rparr>,
            \<lparr>zName = ''pics/colormap.pcx'', zMethod = 8, zDataOffset = Some 7, zIsDir = False,
             zCompressedSize = 5, zUncompressedSize = 9, zCRC32 = 0x04030201,
             zModified = 0x5F000001\<rparr>]],
      atoiU = (\<lambda>s. None),
      sortLong = (\<lambda>lt xs. xs),
      compileRe = (\<lambda>p. case p of [] \<Rightarrow> None
                             | c # cs \<Rightarrow> if c = CHR ''^'' then Some (anchoredLiteral cs) else None),
      serveConditional = (\<lambda>h r f. (StatusPreconditionFailed, h, [])),
      serveRanges = (\<lambda>h r f. (StatusRequestedRangeNotSatisfiable, h, []))\<rparr>"

definition exampleRequest :: "string \<Rightarrow> Request" where
  "exampleRequest p =
     \<lparr>urlPath = p, referer = ''quake2://10.0.0.1:27910'', reqMethod = ''GET'',
      acceptEncoding = [], protoAtLeast11 = True, hdrRange = [], hdrIfRange = [],
      hdrIfMatch = [], hdrIfNoneMatch = []\<rparr>"

section \<open>The PAK codec (package pak)\<close>

text \<open>
  The constants of the format. Go's \<^verbatim>\<open>int\<close> is modelled by \<^typ>\<open>int\<close>, \<^verbatim>\<open>uint32\<close> by
  \<^typ>\<open>32 word\<close>; \<^verbatim>\<open>uint32(n)\<close> is \<open>word_of_int\<close>.
\<close>

definition pakIdent :: "32 word" where
  "pakIdent = 0x4B434150"

definition headerSize :: int where
  "headerSize = 12"

definition entrySize :: int where
  "entrySize = 64"

definition MaxFiles :: int where
  "MaxFiles = 4096"

definition MaxFileName :: int where
  "MaxFileName = 56"

definition MaxOffset :: int where
  "MaxOffset = 2 ^ 31 - 1"

text \<open>
  The errors of the package, and the two errors \<^verbatim>\<open>io.ReadFull\<close> gives when the input ends:
  \<^verbatim>\<open>io.EOF\<close> when no byte was read and \<^verbatim>\<open>io.ErrUnexpectedEOF\<close> when some were.
\<close>

datatype ioError = EOF | ErrUnexpectedEOF

datatype pakError =
    IOError ioError
  | errBadIdent | errBadDirLen | errBadDirOfs | errBadFileLen | errBadFilePos | errTooManyFiles
  | errNameTooLong | errAlreadyClosed | errFileNotOpen | errFileTooBig

text \<open>The errors that say the archive is malformed, as opposed to cut short.\<close>

definition isFormatError :: "pakError \<Rightarrow> bool" where
  "isFormatError e = (e \<in> {errBadIdent, errBadDirLen, errBadDirOfs, errBadFileLen, errBadFilePos,
                           errTooManyFiles})"

text \<open>
  \<^verbatim>\<open>binary.Read\<close> of a fixed-size value at position \<open>pos\<close> of a reader over the bytes
  \<open>bs\<close>: \<open>n\<close> bytes, or an error when fewer are left. Little-endian \<^verbatim>\<open>uint32\<close> fields are
  decoded by \<open>getUint32\<close>.
\<close>

definition readFull :: "string \<Rightarrow> nat \<Rightarrow> nat \<Rightarrow> ioError + string" where
  "readFull bs pos n =
     (let avail = drop pos bs
      in if n \<le> length avail then Inr (take n avail)
         else if avail = [] then Inl EOF
         else Inl ErrUnexpectedEOF)"

fun getUint32 :: "string \<Rightarrow> 32 word" where
  "getUint32 [a, b, c, d] =
     word_of_nat (of_char a + 256 * of_char b + 65536 * of_char c + 16777216 * of_char d)"
| "getUint32 bs = 0"

record pakHeader =
  Ident :: "32 word"
  Dirofs :: "32 word"
  Dirlen :: "32 word"

definition decodeHeader :: "string \<Rightarrow> pakHeader" where
  "decodeHeader h =
     \<lparr>Ident = getUint32 (take 4 h), Dirofs = getUint32 (take 4 (drop 4 h)),
      Dirlen = getUint32 (take 4 (drop 8 h))\<rparr>"

record pakEntry =
  eName :: string
  eFilepos :: "32 word"
  eFilelen :: "32 word"

definition decodeEntry :: "string \<Rightarrow> pakEntry" where
  "decodeEntry rec =
     \<lparr>eName = take 56 rec, eFilepos = getUint32 (take 4 (drop 56 rec)),
      eFilelen = getUint32 (take 4 (drop 60 rec))\<rparr>"

text \<open>A \<^verbatim>\<open>File\<close> of a \<^verbatim>\<open>Reader\<close>: the name up to the first zero byte, position and length.\<close>

record File =
  Name :: string
  Filepos :: "32 word"
  Filelen :: "32 word"

subsection \<open>Reader\<close>

text \<open>
  The loop of \<^verbatim>\<open>Reader.init\<close> over the directory: \<open>n\<close> more entries, the next one at
  position \<open>pos\<close>. The comparisons are those of the source, in 32-bit unsigned arithmetic.
\<close>

fun readEntries :: "string \<Rightarrow> nat \<Rightarrow> nat \<Rightarrow> pakError + File list" where
  "readEntries bs pos 0 = Inr []"
| "readEntries bs pos (Suc n) =
     (case readFull bs pos 64 of
        Inl e \<Rightarrow> Inl (IOError e)
      | Inr rec \<Rightarrow>
          let entry = decodeEntry rec
          in if eFilelen entry > word_of_int MaxOffset then Inl errBadFileLen
             else if eFilepos entry > word_of_int MaxOffset - eFilelen entry then Inl errBadFilePos
             else (case readEntries bs (pos + 64) n of
                     Inl e \<Rightarrow> Inl e
                   | Inr fs \<Rightarrow>
                       Inr (\<lparr>Name = takeWhile (\<lambda>c. c \<noteq> CHR 0x00) (eName entry),
                             Filepos = eFilepos entry, Filelen = eFilelen entry\<rparr> # fs)))"

text \<open>\<^verbatim>\<open>Reader.init\<close> on a file with the bytes \<open>bs\<close> (\<^verbatim>\<open>size\<close> is their number).\<close>

definition Reader_init :: "string \<Rightarrow> pakError + File list" where
  "Reader_init bs =
     (case readFull bs 0 12 of
        Inl e \<Rightarrow> Inl (IOError e)
      | Inr h \<Rightarrow>
          let header = decodeHeader h
          in if Ident header \<noteq> pakIdent then Inl errBadIdent
             else if Dirlen header mod word_of_int entrySize \<noteq> 0 then Inl errBadDirLen
             else
               let numFiles = uint (Dirlen header div word_of_int entrySize)
               in if numFiles > MaxFiles then Inl errTooManyFiles
                  else if Dirofs header > word_of_int MaxOffset - Dirlen header then Inl errBadDirOfs
                  else readEntries bs (unat (Dirofs header)) (nat numFiles))"

text \<open>\<^verbatim>\<open>File.Open\<close> read to its end.\<close>

definition File_Open :: "string \<Rightarrow> File \<Rightarrow> string" where
  "File_Open bs f = readSection bs (unat (Filepos f)) (unat (Filelen f))"

subsection \<open>Writer\<close>

text \<open>
  The \<^verbatim>\<open>io.WriteSeeker\<close> behind a \<^verbatim>\<open>Writer\<close> is a file: its bytes and the current position.
  Writing replaces or extends the bytes at the position (a gap is filled with zero bytes) and
  moves the position; writes and seeks themselves do not fail.
\<close>

record wfile =
  wbuf :: string
  wpos :: nat

definition wWrite :: "wfile \<Rightarrow> string \<Rightarrow> wfile" where
  "wWrite w p =
     \<lparr>wbuf = take (wpos w) (wbuf w @ replicate (wpos w - length (wbuf w)) (CHR 0x00)) @ p
              @ drop (wpos w + length p) (wbuf w),
      wpos = wpos w + length p\<rparr>"

definition wSeekStart :: "wfile \<Rightarrow> wfile" where
  "wSeekStart w = w\<lparr>wpos := 0\<rparr>"

record Writer =
  ww :: wfile
  wfiles :: "pakEntry list"
  woffset :: int
  wclosed :: bool
  wisFile :: bool

definition encodeHeader :: "pakHeader \<Rightarrow> string" where
  "encodeHeader h = putUint32 (Ident h) @ putUint32 (Dirofs h) @ putUint32 (Dirlen h)"

definition encodeEntry :: "pakEntry \<Rightarrow> string" where
  "encodeEntry e = eName e @ putUint32 (eFilepos e) @ putUint32 (eFilelen e)"

definition NewWriter :: "wfile \<Rightarrow> Writer" where
  "NewWriter w =
     \<lparr>ww = wWrite (wSeekStart w) (encodeHeader \<lparr>Ident = 0, Dirofs = 0, Dirlen = 0\<rparr>),
      wfiles = [], woffset = headerSize, wclosed = False, wisFile = False\<rparr>"

text \<open>\<^verbatim>\<open>OpenWriter\<close> creates the file, empty, and writes to it.\<close>

definition OpenWriter :: Writer where
  "OpenWriter = (NewWriter \<lparr>wbuf = [], wpos = 0\<rparr>)\<lparr>wisFile := True\<rparr>"

definition finishEntry :: "Writer \<Rightarrow> Writer" where
  "finishEntry pak =
     (if length (wfiles pak) > 0 then
        (let e = last (wfiles pak)
         in pak\<lparr>wfiles := butlast (wfiles pak)
                   @ [e\<lparr>eFilelen := word_of_int (woffset pak) - eFilepos e\<rparr>]\<rparr>)
      else pak)"

text \<open>
  The methods return the error, if any, and the writer as the call leaves it: \<^verbatim>\<open>Create\<close>
  has finished the previous entry also when it then refuses the name.
\<close>

definition Create :: "Writer \<Rightarrow> string \<Rightarrow> pakError option \<times> Writer" where
  "Create pak name =
     (if wclosed pak then (Some errAlreadyClosed, pak)
      else
        let pak1 = finishEntry pak
        in if int (length name) > MaxFileName then (Some errNameTooLong, pak1)
           else if int (length (wfiles pak1)) \<ge> MaxFiles then (Some errTooManyFiles, pak1)
           else
             (None,
              pak1\<lparr>wfiles := wfiles pak1
                     @ [\<lparr>eName = name @ replicate (56 - length name) (CHR 0x00),
                         eFilepos = word_of_int (woffset pak1), eFilelen = 0\<rparr>]\<rparr>))"

definition Write :: "Writer \<Rightarrow> string \<Rightarrow> (int \<times> pakError option) \<times> Writer" where
  "Write pak p =
     (if wclosed pak then ((0, Some errAlreadyClosed), pak)
      else if length (wfiles pak) = 0 then ((0, Some errFileNotOpen), pak)
      else if woffset pak > MaxOffset - int (length p) then ((0, Some errFileTooBig), pak)
      else ((int (length p), None),
            pak\<lparr>ww := wWrite (ww pak) p, woffset := woffset pak + int (length p)\<rparr>))"

definition finish :: "Writer \<Rightarrow> pakError option \<times> Writer" where
  "finish pak =
     (let pak1 = finishEntry pak;
          dirLen = entrySize * int (length (wfiles pak1))
      in if woffset pak1 > MaxOffset - dirLen then (Some errBadDirOfs, pak1)
         else
           let w1 = wWrite (ww pak1) (concat (map encodeEntry (wfiles pak1)));
               w2 = wSeekStart w1;
               w3 = wWrite w2 (encodeHeader \<lparr>Ident = pakIdent, Dirofs = word_of_int (woffset pak1),
                                             Dirlen = word_of_int dirLen\<rparr>)
           in (None, pak1\<lparr>ww := w3\<rparr>))"

definition Close :: "Writer \<Rightarrow> pakError option \<times> Writer" where
  "Close pak =
     (if wclosed pak then (Some errAlreadyClosed, pak)
      else (case finish pak of (err, pak1) \<Rightarrow> (err, pak1\<lparr>wclosed := True\<rparr>)))"

text \<open>
  Writing a sequence of named contents as the package's test and the authoring utility do:
  \<^verbatim>\<open>Create\<close> then \<^verbatim>\<open>Write\<close> for each, stopping at the first error, then \<^verbatim>\<open>Close\<close>. The
  result is the bytes of the file.
\<close>

fun writeFiles :: "Writer \<Rightarrow> (string \<times> string) list \<Rightarrow> pakError option \<times> Writer" where
  "writeFiles pak [] = (None, pak)"
| "writeFiles pak ((name, content) # es) =
     (case Create pak name of
        (Some e, pak1) \<Rightarrow> (Some e, pak1)
      | (None, pak1) \<Rightarrow>
          (case Write pak1 content of
             ((n, Some e), pak2) \<Rightarrow> (Some e, pak2)
           | ((n, None), pak2) \<Rightarrow> writeFiles pak2 es))"

definition writePak :: "(string \<times> string) list \<Rightarrow> pakError + string" where
  "writePak es =
     (case writeFiles OpenWriter es of
        (Some e, pak) \<Rightarrow> Inl e
      | (None, pak) \<Rightarrow>
          (case Close pak of
             (Some e, pak1) \<Rightarrow> Inl e
           | (None, pak1) \<Rightarrow> Inr (wbuf (ww pak1))))"

subsection \<open>The layout of a written archive\<close>

text \<open>
  The directory the writer produces for a sequence of named contents whose first content starts
  at offset \<open>off\<close>, all contents in order, the \<^verbatim>\<open>File\<close> a reader makes of a directory entry,
  and the two tests \<^verbatim>\<open>Reader.init\<close> applies to an entry.
\<close>

fun dirEntries :: "int \<Rightarrow> (string \<times> string) list \<Rightarrow> pakEntry list" where
  "dirEntries off [] = []"
| "dirEntries off ((name, content) # es) =
     \<lparr>eName = name @ replicate (56 - length name) (CHR 0x00), eFilepos = word_of_int off,
      eFilelen = word_of_int (int (length content))\<rparr>
     # dirEntries (off + int (length content)) es"

definition contents :: "(string \<times> string) list \<Rightarrow> string" where
  "contents es = concat (map snd es)"


definition toFile :: "pakEntry \<Rightarrow> File" where
  "toFile e = \<lparr>Name = takeWhile (\<lambda>c. c \<noteq> CHR 0x00) (eName e), Filepos = eFilepos e,
              Filelen = eFilelen e\<rparr>"

definition validEntry :: "pakEntry \<Rightarrow> bool" where
  "validEntry e = (length (eName e) = 56 \<and> \<not> eFilelen e > word_of_int MaxOffset \<and>
                   \<not> eFilepos e > word_of_int MaxOffset - eFilelen e)"


subsection \<open>The directory of a file read as an archive\<close>

text \<open>
  What the header of a file of at least 12 bytes announces: the header itself, the number of
  directory entries (\<^verbatim>\<open>Dirlen / 64\<close>), whether the \<open>i\<close>-th entry lies within the bytes of the
  file, the 64 bytes at a position decoded as an entry, and the \<open>i\<close>-th entry decoded.
\<close>

definition fileHeader :: "string \<Rightarrow> pakHeader" where
  "fileHeader bs = decodeHeader (take 12 bs)"

definition entryCount :: "string \<Rightarrow> nat" where
  "entryCount bs = unat (Dirlen (fileHeader bs)) div 64"

definition entryPresent :: "string \<Rightarrow> nat \<Rightarrow> bool" where
  "entryPresent bs i = (unat (Dirofs (fileHeader bs)) + 64 * i + 64 \<le> length bs)"

definition entryAt :: "string \<Rightarrow> nat \<Rightarrow> pakEntry" where
  "entryAt bs pos = decodeEntry (take 64 (drop pos bs))"

definition fileEntry :: "string \<Rightarrow> nat \<Rightarrow> pakEntry" where
  "fileEntry bs i = entryAt bs (unat (Dirofs (fileHeader bs)) + 64 * i)"

section \<open>The archive set scanner\<close>

subsection \<open>scanpak and scanzip\<close>

datatype scanError = OpenFailed | ReadFailed ioError | BadIdent | BadDirectory | ZipFailed

text \<open>
  The loop of \<^verbatim>\<open>scanpak\<close> over the directory: \<open>n\<close> more entries, the next one at position
  \<open>pos\<close> of the file, added to the map \<open>m\<close> under their normalised names.
\<close>

fun scanEntries :: "(string \<Rightarrow> string) \<Rightarrow> string \<Rightarrow> nat \<Rightarrow> nat \<Rightarrow> (string \<rightharpoonup> PakFileEntry)
    \<Rightarrow> scanError + (string \<rightharpoonup> PakFileEntry)" where
  "scanEntries lowU bs pos 0 m = Inr m"
| "scanEntries lowU bs pos (Suc n) m =
     (case readFull bs pos 64 of
        Inl e \<Rightarrow> Inl (ReadFailed e)
      | Inr rec \<Rightarrow>
          let entry = decodeEntry rec
          in if eFilelen entry > 0x7FFFFFFF then Inl BadDirectory
             else
               let nm = takeWhile (\<lambda>c. c \<noteq> CHR 0x00) (eName entry)
               in scanEntries lowU bs (pos + 64) n
                    (m(normalizeName lowU nm \<mapsto>
                         \<lparr>offset = unat (eFilepos entry), esize = eFilelen entry, filecrc = 0,
                          filelen = 0, mtime = 0, emethod = 0\<rparr>)))"

definition scanpak :: "env \<Rightarrow> string \<Rightarrow> scanError + SearchPath" where
  "scanpak E name =
     (case openFile E name of
        None \<Rightarrow> Inl OpenFailed
      | Some bs \<Rightarrow>
          (case readFull bs 0 12 of
             Inl e \<Rightarrow> Inl (ReadFailed e)
           | Inr h \<Rightarrow>
               let header = decodeHeader h
               in if Ident header \<noteq> pakIdent then Inl BadIdent
                  else
                    let numFiles = unat (Dirlen header div 64)
                    in (case scanEntries (uLower E) bs (unat (Dirofs header)) numFiles Map.empty of
                          Inl e \<Rightarrow> Inl e
                        | Inr m \<Rightarrow> Inr \<lparr>spath = name, files = Some m\<rparr>)))"

fun zipEntries :: "(string \<Rightarrow> string) \<Rightarrow> zipFile list \<Rightarrow> (string \<rightharpoonup> PakFileEntry)
    \<Rightarrow> (string \<rightharpoonup> PakFileEntry)" where
  "zipEntries lowU [] m = m"
| "zipEntries lowU (f # fs) m =
     (case zDataOffset f of
        None \<Rightarrow> zipEntries lowU fs m
      | Some ofs \<Rightarrow>
          if zIsDir f then zipEntries lowU fs m
          else if zCompressedSize f = 0xFFFFFFFF \<or> zUncompressedSize f = 0xFFFFFFFF
          then zipEntries lowU fs m
          else zipEntries lowU fs
                 (m(normalizeName lowU (zName f) \<mapsto>
                      \<lparr>offset = ofs, esize = zCompressedSize f, filecrc = zCRC32 f,
                       filelen = zUncompressedSize f, mtime = zModified f,
                       emethod = zMethod f\<rparr>)))"

definition scanzip :: "env \<Rightarrow> string \<Rightarrow> scanError + SearchPath" where
  "scanzip E name =
     (case zipOpen E name of
        None \<Rightarrow> Inl ZipFailed
      | Some fs \<Rightarrow> Inr \<lparr>spath = name, files = Some (zipEntries (uLower E) fs Map.empty)\<rparr>)"

subsection \<open>The order of the archives of a directory\<close>

text \<open>
  \<^verbatim>\<open>atoi\<close>: the first run of digits of the name, converted by \<^verbatim>\<open>strconv.Atoi\<close>, which
  fails when the value does not fit an \<^verbatim>\<open>int\<close> of 64 bits. For a name with a byte outside
  ASCII the runs of digits depend on \<^verbatim>\<open>unicode.IsDigit\<close>; the result is then the parameter
  \<open>atoiU\<close>.
\<close>

definition isDigit :: "char \<Rightarrow> bool" where
  "isDigit c = (of_char (CHR ''0'') \<le> (of_char c :: nat) \<and> (of_char c :: nat) \<le> of_char (CHR ''9''))"

definition digitsValue :: "string \<Rightarrow> int" where
  "digitsValue ds = foldl (\<lambda>v c. 10 * v + (of_char c - 48)) 0 ds"

definition Atoi :: "string \<Rightarrow> int option" where
  "Atoi ds = (let v = digitsValue ds in if v \<le> 2 ^ 63 - 1 then Some v else None)"

definition atoi :: "env \<Rightarrow> string \<Rightarrow> int option" where
  "atoi E s =
     (if isASCII s then
        (case takeWhile isDigit (dropWhile (\<lambda>c. \<not> isDigit c) s) of
           [] \<Rightarrow> None
         | f \<Rightarrow> Atoi f)
      else atoiU E s)"

text \<open>The comparison of Go strings: byte by byte.\<close>

fun strLess :: "string \<Rightarrow> string \<Rightarrow> bool" where
  "strLess [] [] = False"
| "strLess [] (y # ys) = True"
| "strLess (x # xs) [] = False"
| "strLess (x # xs) (y # ys) =
     ((of_char x :: nat) < of_char y \<or> (x = y \<and> strLess xs ys))"

text \<open>
  The function given to \<^verbatim>\<open>sort.Slice\<close>: \<open>scanLess E x y\<close> is \<^verbatim>\<open>less(i, j)\<close> for
  \<^verbatim>\<open>paks[i] = x\<close> and \<^verbatim>\<open>paks[j] = y\<close>, and says that \<open>x\<close> is to stand before \<open>y\<close>. The
  source names the lower-cased \<^verbatim>\<open>paks[j]\<close> \<^verbatim>\<open>a\<close> and the lower-cased \<^verbatim>\<open>paks[i]\<close> \<^verbatim>\<open>b\<close>.
\<close>

definition scanLess :: "env \<Rightarrow> string \<Rightarrow> string \<Rightarrow> bool" where
  "scanLess E x y =
     (let a = ToLower (uLower E) y;
          b = ToLower (uLower E) x;
          p1 = HasPrefix a ''pak'';
          p2 = HasPrefix b ''pak''
      in if p1 \<and> p2 then
           (case (atoi E a, atoi E b) of
              (Some v1, Some v2) \<Rightarrow> v1 < v2
            | _ \<Rightarrow> strLess a b)
         else if p1 then True
         else if p2 then False
         else strLess a b)"

text \<open>
  \<^verbatim>\<open>sort.Slice\<close> runs an insertion sort on a slice of at most 12 elements: each element in
  turn is swapped towards the front while it is less than its predecessor. \<open>sink\<close> does this
  for one element, on the part already sorted kept in reverse. On a longer slice the library
  runs its pattern-defeating quicksort, the parameter \<open>sortLong\<close>.
\<close>

fun sink :: "('a \<Rightarrow> 'a \<Rightarrow> bool) \<Rightarrow> 'a \<Rightarrow> 'a list \<Rightarrow> 'a list" where
  "sink lt x [] = [x]"
| "sink lt x (y # rs) = (if lt x y then y # sink lt x rs else x # y # rs)"

definition insertionSort :: "('a \<Rightarrow> 'a \<Rightarrow> bool) \<Rightarrow> 'a list \<Rightarrow> 'a list" where
  "insertionSort lt xs = rev (foldl (\<lambda>rs x. sink lt x rs) [] xs)"

definition sortSlice :: "env \<Rightarrow> (string \<Rightarrow> string \<Rightarrow> bool) \<Rightarrow> string list \<Rightarrow> string list" where
  "sortSlice E lt xs = (if length xs \<le> 12 then insertionSort lt xs else sortLong E lt xs)"

text \<open>
  What \<^verbatim>\<open>sort.Slice\<close> asks of the function it is given, and what it promises in return. The
  function must describe a transitive ordering: no element is less than itself; if \<open>a\<close> is
  less than \<open>b\<close> and \<open>b\<close> less than \<open>c\<close> then \<open>a\<close> is less than \<open>c\<close>; and if \<open>a\<close> is not less
  than \<open>b\<close> and \<open>b\<close> not less than \<open>c\<close> then \<open>a\<close> is not less than \<open>c\<close>. The slice is then
  rearranged so that no element is less than an earlier one. For a slice of more than 12
  elements, where the sort is a parameter, this promise is the property \<open>sortContract\<close>.
\<close>

definition transitiveOrdering :: "'a set \<Rightarrow> ('a \<Rightarrow> 'a \<Rightarrow> bool) \<Rightarrow> bool" where
  "transitiveOrdering S lt =
     ((\<forall>a\<in>S. \<not> lt a a) \<and>
      (\<forall>a\<in>S. \<forall>b\<in>S. \<forall>c\<in>S. (lt a b \<and> lt b c \<longrightarrow> lt a c) \<and>
                             (\<not> lt a b \<and> \<not> lt b c \<longrightarrow> \<not> lt a c)))"

definition sortContract :: "env \<Rightarrow> bool" where
  "sortContract E =
     (\<forall>lt xs. 12 < length xs \<and> transitiveOrdering (set xs) lt \<longrightarrow>
        mset (sortLong E lt xs) = mset xs \<and>
        sorted_wrt (\<lambda>a b. \<not> lt b a) (sortLong E lt xs))"

definition isArchiveName :: "env \<Rightarrow> string \<Rightarrow> bool" where
  "isArchiveName E v =
     (let l = ToLower (uLower E) v in HasSuffix l ''.pak'' \<or> HasSuffix l ''.pkz'')"

text \<open>The names of the archives of a directory in the order in which they are scanned.\<close>

definition scanOrder :: "env \<Rightarrow> string list \<Rightarrow> string list" where
  "scanOrder E names = sortSlice E (scanLess E) (filter (isArchiveName E) names)"

subsection \<open>scandir\<close>

text \<open>The loop of \<^verbatim>\<open>scandir\<close> over the sorted names: an archive that fails to scan is left out.\<close>

fun scanAll :: "env \<Rightarrow> string \<Rightarrow> string list \<Rightarrow> SearchPath list" where
  "scanAll E name [] = []"
| "scanAll E name (v # vs) =
     (let scan = (if HasSuffix (ToLower (uLower E) v) ''.pkz'' then scanzip else scanpak)
      in case scan E (filepathJoin E name v) of
           Inl err \<Rightarrow> scanAll E name vs
         | Inr s \<Rightarrow> s # scanAll E name vs)"

text \<open>
  \<^verbatim>\<open>scandir\<close> with the cache of scanned directories: the result is the list of backing
  stores and the cache, or nothing when the directory cannot be listed and \<^verbatim>\<open>log.Fatal\<close>
  ends the process.
\<close>

definition scandir :: "env \<Rightarrow> (string \<rightharpoonup> SearchPath list) \<Rightarrow> string
    \<Rightarrow> (SearchPath list \<times> (string \<rightharpoonup> SearchPath list)) option" where
  "scandir E dirCache name =
     (case dirCache name of
        Some sp \<Rightarrow> Some (sp, dirCache)
      | None \<Rightarrow>
          (case readDir E name of
             None \<Rightarrow> None
           | Some n \<Rightarrow>
               let sp = scanAll E name (scanOrder E n);
                   sp1 = (if length (dirWhiteList E) > 0
                          then sp @ [\<lparr>spath = name, files = None\<rparr>] else sp)
               in Some (sp1, dirCache(name \<mapsto> sp1))))"

text \<open>
  The two keys of the comparison: whether the lower-cased name begins with \<^verbatim>\<open>pak\<close>
  (\<^verbatim>\<open>p1\<close> and \<^verbatim>\<open>p2\<close> in the source), and the number \<^verbatim>\<open>atoi\<close> finds in the lower-cased name.
\<close>

definition pakNamed :: "env \<Rightarrow> string \<Rightarrow> bool" where
  "pakNamed E x = HasPrefix (ToLower (uLower E) x) ''pak''"

definition pakNumber :: "env \<Rightarrow> string \<Rightarrow> int option" where
  "pakNumber E x = atoi E (ToLower (uLower E) x)"

text \<open>
  Three relations between a name \<open>x\<close> and a name \<open>y\<close> standing later in the scanning order, used
  to state what the sort establishes: a name with the prefix is followed by such names only and
  names without the prefix descend; in addition the numbers of the names with the prefix
  descend; or in addition the names with the prefix descend.
\<close>

definition baseOrder :: "env \<Rightarrow> string \<Rightarrow> string \<Rightarrow> bool" where
  "baseOrder E x y =
     ((pakNamed E x \<longrightarrow> pakNamed E y) \<and>
      (\<not> pakNamed E x \<and> \<not> pakNamed E y \<longrightarrow>
         \<not> strLess (ToLower (uLower E) x) (ToLower (uLower E) y)))"

definition numberOrder :: "env \<Rightarrow> string \<Rightarrow> string \<Rightarrow> bool" where
  "numberOrder E x y =
     (baseOrder E x y \<and>
      (pakNamed E x \<and> pakNamed E y \<longrightarrow> the (pakNumber E y) \<le> the (pakNumber E x)))"

definition nameOrder :: "env \<Rightarrow> string \<Rightarrow> string \<Rightarrow> bool" where
  "nameOrder E x y =
     (baseOrder E x y \<and>
      (pakNamed E x \<and> pakNamed E y \<longrightarrow>
         \<not> strLess (ToLower (uLower E) x) (ToLower (uLower E) y)))"

subsection \<open>An archive with an entry reaching beyond the offset limit\<close>

text \<open>
  A file of 76 bytes: the header \<^verbatim>\<open>PACK\<close> with the directory at offset 12 and of length 64, and
  one directory entry named \<^verbatim>\<open>a\<close> with file position \<open>2\<^sup>3\<^sup>2 - 1\<close> and file length 1.
\<close>

definition beyondArchive :: string where
  "beyondArchive =
      [CHR ''P'', CHR ''A'', CHR ''C'', CHR ''K'', CHR 0x0C, CHR 0x00, CHR 0x00, CHR 0x00,
       CHR 0x40, CHR 0x00, CHR 0x00, CHR 0x00, CHR ''a'', CHR 0x00, CHR 0x00, CHR 0x00,
       CHR 0x00, CHR 0x00, CHR 0x00, CHR 0x00, CHR 0x00, CHR 0x00, CHR 0x00, CHR 0x00,
       CHR 0x00, CHR 0x00, CHR 0x00, CHR 0x00, CHR 0x00, CHR 0x00, CHR 0x00, CHR 0x00,
       CHR 0x00, CHR 0x00, CHR 0x00, CHR 0x00, CHR 0x00, CHR 0x00, CHR 0x00, CHR 0x00,
       CHR 0x00, CHR 0x00, CHR 0x00, CHR 0x00, CHR 0x00, CHR 0x00, CHR 0x00, CHR 0x00,
       CHR 0x00, CHR 0x00, CHR 0x00, CHR 0x00, CHR 0x00, CHR 0x00, CHR 0x00, CHR 0x00,
       CHR 0x00, CHR 0x00, CHR 0x00, CHR 0x00, CHR 0x00, CHR 0x00, CHR 0x00, CHR 0x00,
       CHR 0x00, CHR 0x00, CHR 0x00, CHR 0x00, CHR 0xFF, CHR 0xFF, CHR 0xFF, CHR 0xFF,
       CHR 0x01, CHR 0x00, CHR 0x00, CHR 0x00]"

section \<open>The library call that serves a file of a directory\<close>

text \<open>
  \<^verbatim>\<open>http.ServeContent(w, r, "", time.Time{}, f)\<close> as the handler calls it: the name is empty,
  the modification time is the zero time, and the handler has set the Content-Type. With the
  zero time the library ignores \<^verbatim>\<open>If-Modified-Since\<close> and \<^verbatim>\<open>If-Unmodified-Since\<close>, sets no
  \<^verbatim>\<open>Last-Modified\<close>, and with the Content-Type set it does not look at the content to find
  one.

  \<open>rangeSpec\<close> reads a \<^verbatim>\<open>Range\<close> header of the form \<^verbatim>\<open>bytes=a-b\<close> with two decimal numbers that
  fit 64 bits; on it \<^verbatim>\<open>parseRange\<close> gives the one range from \<open>a\<close> to \<open>b\<close>, cut at the end of
  the file, provided \<open>a\<close> lies within the file and does not exceed \<open>b\<close>.
\<close>

definition rangeSpec :: "string \<Rightarrow> (nat \<times> nat) option" where
  "rangeSpec s =
     (if HasPrefix s ''bytes='' then
        (let t = drop 6 s;
             ds1 = takeWhile isDigit t;
             rest = dropWhile isDigit t
         in case rest of
              [] \<Rightarrow> None
            | c # ds2 \<Rightarrow>
                if c = CHR ''-'' \<and> ds1 \<noteq> [] \<and> ds2 \<noteq> [] \<and> list_all isDigit ds2 \<and>
                   digitsValue ds1 \<le> 2 ^ 63 - 1 \<and> digitsValue ds2 \<le> 2 ^ 63 - 1
                then Some (nat (digitsValue ds1), nat (digitsValue ds2))
                else None)
      else None)"

text \<open>
  The answer of the library for a file with the bytes \<open>f\<close> and the headers \<open>h\<close> set so far.
  Without \<^verbatim>\<open>If-Match\<close>, \<^verbatim>\<open>If-None-Match\<close> and (on a range request) \<^verbatim>\<open>If-Range\<close> no
  precondition applies. Then a request without \<^verbatim>\<open>Range\<close> gets the whole file with status 200,
  and a request for one satisfiable range gets that part with status 206 and a
  \<^verbatim>\<open>Content-Range\<close>; in both cases \<^verbatim>\<open>Accept-Ranges\<close> and the Content-Length are set before
  the status is written, and a \<^verbatim>\<open>HEAD\<close> request gets no body. Every other answer is a
  parameter, with one of the statuses of the library.
\<close>

definition serveContent :: "env \<Rightarrow> headers \<Rightarrow> Request \<Rightarrow> string \<Rightarrow> response" where
  "serveContent E h r f =
     (if hdrIfMatch r \<noteq> [] \<or> hdrIfNoneMatch r \<noteq> [] \<or> (hdrRange r \<noteq> [] \<and> hdrIfRange r \<noteq> [])
      then (case serveConditional E h r f of (st, h1, body) \<Rightarrow> Response (statusCode st) h1 body)
      else if hdrRange r = [] then
        Response 200
          (setHeader ''Content-Length'' (FormatInt (length f)) (setHeader ''Accept-Ranges'' ''bytes'' h))
          (if reqMethod r \<noteq> ''HEAD'' then f else [])
      else
        (case rangeSpec (hdrRange r) of
           None \<Rightarrow> (case serveRanges E h r f of (st, h1, body) \<Rightarrow> Response (statusCode st) h1 body)
         | Some (a, b) \<Rightarrow>
             if a < length f \<and> a \<le> b then
               (let b1 = min b (length f - 1);
                    n = b1 - a + 1;
                    h1 = setHeader ''Content-Range''
                           (''bytes '' @ FormatInt a @ ''-'' @ FormatInt b1 @ ''/''
                              @ FormatInt (length f)) h;
                    h2 = setHeader ''Accept-Ranges'' ''bytes'' h1;
                    h3 = setHeader ''Content-Length'' (FormatInt n) h2
                in Response 206 h3 (if reqMethod r \<noteq> ''HEAD'' then take n (drop a f) else []))
             else (case serveRanges E h r f of
                     (st, h1, body) \<Rightarrow> Response (statusCode st) h1 body)))"

text \<open>The response a client receives: that of the handler, or that of the library call it ends in.\<close>

definition respond :: "env \<Rightarrow> Request \<Rightarrow> response" where
  "respond E r =
     (case handler E r of
        Response code h body \<Rightarrow> Response code h body
      | ServeContent h r1 f \<Rightarrow> serveContent E h r1 f)"

section \<open>Reloading the routing table\<close>

subsection \<open>One entry of the configuration\<close>

record SearchPathConfig =
  cMatch :: string
  cSearch :: "string list"

text \<open>
  The body of the loop of \<^verbatim>\<open>scanSearchPaths\<close>: the directories of the entry are scanned in
  order through the cache, then the pattern is compiled. Nothing is returned when
  \<^verbatim>\<open>log.Fatal\<close> or the panic of \<^verbatim>\<open>regexp.MustCompile\<close> ends the process.
\<close>

fun scanDirs :: "env \<Rightarrow> (string \<rightharpoonup> SearchPath list) \<Rightarrow> string list
    \<Rightarrow> (SearchPath list \<times> (string \<rightharpoonup> SearchPath list)) option" where
  "scanDirs E c [] = Some ([], c)"
| "scanDirs E c (d # ds) =
     (case scandir E c d of
        None \<Rightarrow> None
      | Some (r, c1) \<Rightarrow>
          (case scanDirs E c1 ds of
             None \<Rightarrow> None
           | Some (rs, c2) \<Rightarrow> Some (r @ rs, c2)))"

definition scanRoute :: "env \<Rightarrow> (string \<rightharpoonup> SearchPath list) \<Rightarrow> SearchPathConfig
    \<Rightarrow> (CompiledSearchPath \<times> (string \<rightharpoonup> SearchPath list)) option" where
  "scanRoute E c cfg =
     (case scanDirs E c (cSearch cfg) of
        None \<Rightarrow> None
      | Some (sp, c1) \<Rightarrow>
          (case compileRe E (cMatch cfg) of
             None \<Rightarrow> None
           | Some re \<Rightarrow> Some (\<lparr>rmatch = re, search = sp\<rparr>, c1)))"

subsection \<open>The goroutines and the lock\<close>

text \<open>
  The state shared by the goroutines: the variables \<^verbatim>\<open>searchPaths\<close> and \<^verbatim>\<open>dirCache\<close>, and
  \<^verbatim>\<open>searchPathsMutex\<close>, a \<^verbatim>\<open>sync.RWMutex\<close>, as the flag of the write lock and the set of the
  goroutines holding the read lock. \<^verbatim>\<open>scanSearchPaths\<close> runs in the one goroutine that waits
  for the signal; \<open>writer\<close> is its position: outside the function, after \<^verbatim>\<open>Lock\<close>, or in the
  loop before the entry with the given index. Two histories are kept beside the state: the
  tables that stood in \<^verbatim>\<open>searchPaths\<close> when the write lock was free, the first one and then one
  for each \<^verbatim>\<open>Unlock\<close>; and for each lookup the number of that moment's table and the table
  its loop ranged over.
\<close>

datatype wpc = WIdle | WLocked | WScanning nat

record server =
  gSearchPaths :: "CompiledSearchPath list"
  gDirCache :: "string \<rightharpoonup> SearchPath list"
  mLocked :: bool
  mReaders :: "nat set"
  writer :: wpc
  published :: "CompiledSearchPath list list"
  observed :: "(nat \<times> CompiledSearchPath list) list"
  exited :: bool

text \<open>
  The steps. Of \<^verbatim>\<open>scanSearchPaths\<close>: \<^verbatim>\<open>Lock\<close>, which waits until no goroutine holds the lock;
  the two assignments that empty the table and the cache; one turn of the loop, with the
  environment the scan finds at that moment; the deferred \<^verbatim>\<open>Unlock\<close> after the last turn. Of
  \<^verbatim>\<open>findSearchPath\<close> in the goroutine \<open>r\<close>: \<^verbatim>\<open>RLock\<close>, which waits while the write lock is
  held; the loop over the table; the deferred \<^verbatim>\<open>RUnlock\<close>. A step that has to wait, or that is
  not the next one of its goroutine, gives nothing, as does every step after the process has
  ended.
\<close>

datatype label = WLock | WReset | WScan env | WUnlock | RLock nat | RRead nat | RUnlock nat

definition step :: "SearchPathConfig list \<Rightarrow> server \<Rightarrow> label \<Rightarrow> server option" where
  "step cfgs s l =
     (if exited s then None
      else case l of
        WLock \<Rightarrow>
          if writer s = WIdle \<and> \<not> mLocked s \<and> mReaders s = {}
          then Some (s\<lparr>mLocked := True, writer := WLocked\<rparr>) else None
      | WReset \<Rightarrow>
          if writer s = WLocked
          then Some (s\<lparr>gSearchPaths := [], gDirCache := Map.empty, writer := WScanning 0\<rparr>)
          else None
      | WScan E \<Rightarrow>
          (case writer s of
             WScanning i \<Rightarrow>
               if i < length cfgs then
                 (case scanRoute E (gDirCache s) (cfgs ! i) of
                    None \<Rightarrow> Some (s\<lparr>exited := True\<rparr>)
                  | Some (r, c) \<Rightarrow>
                      Some (s\<lparr>gSearchPaths := gSearchPaths s @ [r], gDirCache := c,
                              writer := WScanning (Suc i)\<rparr>))
               else None
           | _ \<Rightarrow> None)
      | WUnlock \<Rightarrow>
          (case writer s of
             WScanning i \<Rightarrow>
               if i = length cfgs
               then Some (s\<lparr>mLocked := False, writer := WIdle,
                            published := published s @ [gSearchPaths s]\<rparr>)
               else None
           | _ \<Rightarrow> None)
      | RLock r \<Rightarrow>
          if r \<notin> mReaders s \<and> \<not> mLocked s
          then Some (s\<lparr>mReaders := insert r (mReaders s)\<rparr>) else None
      | RRead r \<Rightarrow>
          if r \<in> mReaders s
          then Some (s\<lparr>observed := observed s @ [(length (published s) - 1, gSearchPaths s)]\<rparr>)
          else None
      | RUnlock r \<Rightarrow>
          if r \<in> mReaders s then Some (s\<lparr>mReaders := mReaders s - {r}\<rparr>) else None)"

fun run :: "SearchPathConfig list \<Rightarrow> server \<Rightarrow> label list \<Rightarrow> server option" where
  "run cfgs s [] = Some s"
| "run cfgs s (l # ls) = (case step cfgs s l of None \<Rightarrow> None | Some s1 \<Rightarrow> run cfgs s1 ls)"

text \<open>The state when the servers start: the table of the first scan is in place.\<close>

definition initial :: "CompiledSearchPath list \<Rightarrow> server" where
  "initial t0 =
     \<lparr>gSearchPaths = t0, gDirCache = Map.empty, mLocked = False, mReaders = {}, writer = WIdle,
      published = [t0], observed = [], exited = False\<rparr>"

text \<open>What holds in every state a schedule can reach.\<close>

definition reloadInv :: "SearchPathConfig list \<Rightarrow> server \<Rightarrow> bool" where
  "reloadInv cfgs s =
     (mLocked s = (writer s \<noteq> WIdle) \<and>
      (mLocked s \<longrightarrow> mReaders s = {}) \<and>
      published s \<noteq> [] \<and>
      (writer s = WIdle \<or> writer s = WLocked \<longrightarrow> gSearchPaths s = last (published s)) \<and>
      (\<forall>i. writer s = WScanning i \<longrightarrow> i \<le> length cfgs \<and> length (gSearchPaths s) = i) \<and>
      (\<forall>(g, t)\<in>set (observed s). g < length (published s) \<and> t = published s ! g) \<and>
      (\<forall>t\<in>set (tl (published s)). length t = length cfgs))"

text \<open>A configuration of two routes, the second one for every path.\<close>

definition exampleConfig :: "SearchPathConfig list" where
  "exampleConfig =
     [\<lparr>cMatch = ''^/baseq2/'', cSearch = [''/srv/q2/baseq2'']\<rparr>,
      \<lparr>cMatch = ''^/'', cSearch = [''/srv/q2/baseq2'']\<rparr>]"

text \<open>
  The state after \<^verbatim>\<open>Lock\<close>, the two assignments and the first turn of the loop of a reload
  that starts from the table of the example.
\<close>

definition duringScan :: server where
  "duringScan =
     the (run exampleConfig (initial (searchPaths exampleEnv)) [WLock, WReset, WScan exampleEnv])"

text \<open>
  The state after a lookup, a whole reload of the two routes, and a second lookup in another
  goroutine.
\<close>

definition afterReload :: server where
  "afterReload =
     the (run exampleConfig (initial (searchPaths exampleEnv))
            [RLock 0, RRead 0, RUnlock 0, WLock, WReset, WScan exampleEnv, WScan exampleEnv,
             WUnlock, RLock 1, RRead 1])"

section \<open>Properties of path.Clean and of name normalisation\<close>

lemma rootedOut_snoc:
  "rootedOut (segs @ [s]) = (if segs = [] then [] else rootedOut segs) @ CHR ''/'' # s"
  by (simp add: rootedOut_def)

lemma rootedOut_length1: "list_all goodSeg segs \<Longrightarrow> (length (rootedOut segs) = 1) = (segs = [])"
  by (cases segs) (auto simp: rootedOut_def goodSeg_def)

lemma rootedOut_length_gt1:
  "list_all goodSeg segs \<Longrightarrow> segs \<noteq> [] \<Longrightarrow> length (rootedOut segs) > 1"
  by (cases segs) (auto simp: rootedOut_def goodSeg_def)

lemma backtrackW_seg:
  "CHR ''/'' \<notin> set s \<Longrightarrow> k \<le> length s \<Longrightarrow>
   backtrackW (pre @ CHR ''/'' # s) dd (length pre + k) = max (length pre) (min dd (length pre + k))"
proof (induction k)
  case 0
  then show ?case by (cases "length pre") (auto simp: nth_append)
next
  case (Suc k)
  then have "s ! k \<in> set s" by simp
  with Suc have "s ! k \<noteq> CHR ''/''" by metis
  with Suc show ?case by (auto simp: nth_append)
qed

lemma backtrack_seg:
  "CHR ''/'' \<notin> set s \<Longrightarrow> 
   backtrack dd (pre @ CHR ''/'' # s) = take (max (length pre) (min dd (length pre + length s))) (pre @ CHR ''/'' # s)"
  using backtrackW_seg[of s "length s" pre dd] by (simp add: backtrack_def)

lemma backtrack_rootedOut:
  assumes "list_all goodSeg (segs @ [s])"
  shows "backtrack 1 (rootedOut (segs @ [s])) = rootedOut segs"
proof (cases "segs = []")
  case True
  with assms show ?thesis
    using backtrack_seg[of s 1 "[]"] by (cases s) (auto simp: rootedOut_def goodSeg_def)
next
  case False
  with assms have "length (rootedOut segs) \<ge> 1" by (cases segs) (auto simp: rootedOut_def)
  with False assms show ?thesis
    using backtrack_seg[of s 1 "rootedOut segs"] by (auto simp: rootedOut_snoc goodSeg_def max_def)
qed

lemma takeWhile_good:
  assumes "c \<noteq> CHR ''/''" "\<not> (c = CHR ''.'' \<and> (cs = [] \<or> hd cs = CHR ''/''))"
    "\<not> (c = CHR ''.'' \<and> hd cs = CHR ''.'' \<and> (tl cs = [] \<or> hd (tl cs) = CHR ''/''))"
  shows "goodSeg (c # takeWhile (\<lambda>x. x \<noteq> CHR ''/'') cs)"
proof -
  let ?t = "takeWhile (\<lambda>x. x \<noteq> CHR ''/'') cs"
  have 1: "CHR ''/'' \<notin> set ?t" by (auto dest: set_takeWhileD)
  have 2: "c # ?t \<noteq> ''.''" using assms(2) by (cases cs) auto
  have 3: "c # ?t \<noteq> ''..''" using assms(2,3) 
    by (cases cs; cases "tl cs") (auto split: if_splits)
  from 1 2 3 assms(1) show ?thesis by (simp add: goodSeg_def)
qed

lemma cleanLoop_elem:
  assumes "c \<noteq> CHR ''/''" "\<not> (c = CHR ''.'' \<and> (cs = [] \<or> hd cs = CHR ''/''))"
    "\<not> (c = CHR ''.'' \<and> hd cs = CHR ''.'' \<and> (tl cs = [] \<or> hd (tl cs) = CHR ''/''))"
  shows "cleanLoop rooted (c # cs) out dd =
    cleanLoop rooted (dropWhile (\<lambda>x. x \<noteq> CHR ''/'') cs)
      ((if rooted \<and> length out \<noteq> 1 \<or> \<not> rooted \<and> length out \<noteq> 0 then out @ ''/'' else out)
         @ c # takeWhile (\<lambda>x. x \<noteq> CHR ''/'') cs) dd"
  apply (subst cleanLoop.simps(2))
  apply (simp only: assms if_False Let_def)
  done

lemma cleanLoop_dotdot:
  assumes "c \<noteq> CHR ''/''" "\<not> (c = CHR ''.'' \<and> (cs = [] \<or> hd cs = CHR ''/''))"
    "c = CHR ''.'' \<and> hd cs = CHR ''.'' \<and> (tl cs = [] \<or> hd (tl cs) = CHR ''/'')"
  shows "cleanLoop rooted (c # cs) out dd =
    (if length out > dd then cleanLoop rooted (tl cs) (backtrack dd out) dd
         else if \<not> rooted then
           (let out1 = (if length out > 0 then out @ ''/'' else out);
                out2 = out1 @ ''..''
            in cleanLoop rooted (tl cs) out2 (length out2))
         else cleanLoop rooted (tl cs) out dd)"
  apply (subst cleanLoop.simps(2))
  using assms apply (simp add: Let_def)
  done

lemma cleanLoop_rooted_inv:
  "list_all goodSeg segs \<Longrightarrow>
   \<exists>segs'. list_all goodSeg segs' \<and> set (concat segs') \<subseteq> set (concat segs) \<union> set p \<and>
     cleanLoop True p (rootedOut segs) 1 = rootedOut segs'"
proof (induction p arbitrary: segs rule: length_induct)
  case (1 p)
  show ?case
  proof (cases p)
    case Nil
    with 1 show ?thesis by auto
  next
    case (Cons c cs)
    have IH: "\<exists>segs'. list_all goodSeg segs' \<and> set (concat segs') \<subseteq> set (concat sg) \<union> set q \<and>
        cleanLoop True q (rootedOut sg) 1 = rootedOut segs'"
      if "length q < length p" "list_all goodSeg sg" for q sg
      using 1(1) that by blast
    consider (slash) "c = CHR ''/''"
      | (dot) "c \<noteq> CHR ''/''" "c = CHR ''.'' \<and> (cs = [] \<or> hd cs = CHR ''/'')"
      | (dotdot) "c \<noteq> CHR ''/''" "\<not> (c = CHR ''.'' \<and> (cs = [] \<or> hd cs = CHR ''/''))"
           "c = CHR ''.'' \<and> hd cs = CHR ''.'' \<and> (tl cs = [] \<or> hd (tl cs) = CHR ''/'')"
      | (elem) "c \<noteq> CHR ''/''" "\<not> (c = CHR ''.'' \<and> (cs = [] \<or> hd cs = CHR ''/''))"
           "\<not> (c = CHR ''.'' \<and> hd cs = CHR ''.'' \<and> (tl cs = [] \<or> hd (tl cs) = CHR ''/''))"
      by blast
    then show ?thesis
    proof cases
      case slash
      from IH[of cs segs] 1(2) Cons obtain segs' where
        "list_all goodSeg segs'" "set (concat segs') \<subseteq> set (concat segs) \<union> set cs"
        "cleanLoop True cs (rootedOut segs) 1 = rootedOut segs'" by auto
      with slash Cons show ?thesis by (intro exI[of _ segs']) auto
    next
      case dot
      from IH[of cs segs] 1(2) Cons obtain segs' where
        "list_all goodSeg segs'" "set (concat segs') \<subseteq> set (concat segs) \<union> set cs"
        "cleanLoop True cs (rootedOut segs) 1 = rootedOut segs'" by auto
      with dot Cons show ?thesis by (intro exI[of _ segs']) auto
    next
      case dotdot
      then have cs: "cs \<noteq> []" by auto
      show ?thesis
      proof (cases segs rule: rev_cases)
        case Nil
        have "length (tl cs) < length p" using Cons cs by simp
        from IH[OF this, of "[]"] obtain segs' where
          s: "list_all goodSeg segs'" "set (concat segs') \<subseteq> set (tl cs)"
          "cleanLoop True (tl cs) (rootedOut []) 1 = rootedOut segs'" by auto
        from s(2) cs have "set (concat segs') \<subseteq> set cs" by (cases cs) auto
        with s Cons Nil show ?thesis
          unfolding Cons cleanLoop_dotdot[OF dotdot] by (intro exI[of _ segs']) (auto simp: rootedOut_def)
      next
        case (snoc segs0 s)
        with 1(2) have g0: "list_all goodSeg segs0" by simp
        have "length (tl cs) < length p" using Cons cs by simp
        from IH[OF this g0] obtain segs' where
          s: "list_all goodSeg segs'" "set (concat segs') \<subseteq> set (concat segs0) \<union> set (tl cs)"
          "cleanLoop True (tl cs) (rootedOut segs0) 1 = rootedOut segs'" by auto
        from s(2) cs have sub: "set (concat segs') \<subseteq> set (concat segs) \<union> set p"
          using snoc Cons by (cases cs) auto
        have len: "length (rootedOut segs) > 1"
          using rootedOut_length_gt1[OF 1(2)] snoc by simp
        have "backtrack 1 (rootedOut segs) = rootedOut segs0"
          using backtrack_rootedOut 1(2) snoc by blast
        with s sub len show ?thesis
          unfolding Cons cleanLoop_dotdot[OF dotdot] by (intro exI[of _ segs']) auto
      qed
    next
      case elem
      let ?e = "c # takeWhile (\<lambda>x. x \<noteq> CHR ''/'') cs"
      let ?r = "dropWhile (\<lambda>x. x \<noteq> CHR ''/'') cs"
      have g: "goodSeg ?e" using takeWhile_good elem by blast
      have lr: "length ?r < length p" using Cons by (simp add: le_imp_less_Suc length_dropWhile_le)
      have g2: "list_all goodSeg (segs @ [?e])" using g 1(2) by simp
      from IH[OF lr g2] obtain segs' where
        s: "list_all goodSeg segs'" "set (concat segs') \<subseteq> set (concat (segs @ [?e])) \<union> set ?r"
          "cleanLoop True ?r (rootedOut (segs @ [?e])) 1 = rootedOut segs'" by blast
      have sub: "set (concat segs') \<subseteq> set (concat segs) \<union> set p"
        using s(2) Cons by (auto dest: set_takeWhileD set_dropWhileD)
      have out: "(if length (rootedOut segs) \<noteq> 1 then rootedOut segs @ ''/'' else rootedOut segs) @ ?e
          = rootedOut (segs @ [?e])"
        using rootedOut_length1[OF 1(2)] by (auto simp: rootedOut_snoc) (simp add: rootedOut_def)
      have "cleanLoop True p (rootedOut segs) 1 = cleanLoop True ?r (rootedOut (segs @ [?e])) 1"
        unfolding Cons cleanLoop_elem[OF elem] using out by simp
      with s sub show ?thesis by (intro exI[of _ segs']) auto
    qed
  qed
qed


lemma takeWhile_seg:
  "CHR ''/'' \<notin> set s \<Longrightarrow> X = [] \<or> hd X = CHR ''/'' \<Longrightarrow>
   takeWhile (\<lambda>x. x \<noteq> CHR ''/'') (s @ X) = s \<and> dropWhile (\<lambda>x. x \<noteq> CHR ''/'') (s @ X) = X"
proof -
  assume a: "CHR ''/'' \<notin> set s" and X: "X = [] \<or> hd X = CHR ''/''"
  have p: "\<And>x. x \<in> set s \<Longrightarrow> x \<noteq> CHR ''/''" using a by auto
  have "takeWhile (\<lambda>x. x \<noteq> CHR ''/'') X = []" "dropWhile (\<lambda>x. x \<noteq> CHR ''/'') X = X"
    using X by (cases X; simp)+
  then show ?thesis using p by (simp add: takeWhile_append2 dropWhile_append2)
qed

lemma concat_slash_hd:
  "concat (map ((#) (CHR ''/'')) segs) = [] \<or> hd (concat (map ((#) (CHR ''/'')) segs)) = CHR ''/''"
  by (cases segs) auto

lemma goodSeg_first:
  assumes "goodSeg (c # cs)" "X = [] \<or> hd X = CHR ''/''"
  shows "c \<noteq> CHR ''/''"
    and "\<not> (c = CHR ''.'' \<and> (cs @ X = [] \<or> hd (cs @ X) = CHR ''/''))"
    and "\<not> (c = CHR ''.'' \<and> hd (cs @ X) = CHR ''.'' \<and> (tl (cs @ X) = [] \<or> hd (tl (cs @ X)) = CHR ''/''))"
proof -
  show "c \<noteq> CHR ''/''" using assms(1) by (auto simp: goodSeg_def)
  show "\<not> (c = CHR ''.'' \<and> (cs @ X = [] \<or> hd (cs @ X) = CHR ''/''))"
    using assms by (cases cs) (auto simp: goodSeg_def)
  show "\<not> (c = CHR ''.'' \<and> hd (cs @ X) = CHR ''.'' \<and> (tl (cs @ X) = [] \<or> hd (tl (cs @ X)) = CHR ''/''))"
    using assms by (cases cs; cases "tl cs") (auto simp: goodSeg_def)
qed

lemma cleanLoop_rooted_fix:
  "list_all goodSeg dn \<Longrightarrow> list_all goodSeg rest \<Longrightarrow>
   cleanLoop True (concat (map ((#) (CHR ''/'')) rest)) (rootedOut dn) 1 = rootedOut (dn @ rest)"
proof (induction rest arbitrary: dn)
  case Nil
  then show ?case by simp
next
  case (Cons s rest)
  let ?X = "concat (map ((#) (CHR ''/'')) rest)"
  from Cons.prems obtain c cs where s: "s = c # cs" by (cases s) (auto simp: goodSeg_def)
  have g: "goodSeg (c # cs)" using Cons.prems s by simp
  have X: "?X = [] \<or> hd ?X = CHR ''/''" by (rule concat_slash_hd)
  have ns: "CHR ''/'' \<notin> set cs" using g by (auto simp: goodSeg_def)
  have out: "(if length (rootedOut dn) \<noteq> 1 then rootedOut dn @ ''/'' else rootedOut dn) @ s
          = rootedOut (dn @ [s])"
    using rootedOut_length1[OF Cons.prems(1)] by (auto simp: rootedOut_snoc) (simp add: rootedOut_def)
  have "cleanLoop True (concat (map ((#) (CHR ''/'')) (s # rest))) (rootedOut dn) 1
      = cleanLoop True (c # (cs @ ?X)) (rootedOut dn) 1"
    by (simp add: s)
  also have "\<dots> = cleanLoop True ?X (rootedOut (dn @ [s])) 1"
    unfolding cleanLoop_elem[OF goodSeg_first[OF g X]] using takeWhile_seg[OF ns X] out s by simp
  also have "\<dots> = rootedOut ((dn @ [s]) @ rest)"
    using Cons.IH[of "dn @ [s]"] Cons.prems by simp
  finally show ?case by simp
qed

lemma Clean_rootedOut:
  assumes "list_all goodSeg segs"
  shows "Clean (rootedOut segs) = rootedOut segs"
proof (cases segs)
  case Nil
  then show ?thesis by (simp add: Clean_def cleanBuf_def rootedOut_def)
next
  case (Cons s rest)
  have ne: "rootedOut segs \<noteq> []" using Cons by (simp add: rootedOut_def)
  have hd: "hd (rootedOut segs) = CHR ''/''" using Cons by (simp add: rootedOut_def)
  have "cleanLoop True (tl (rootedOut segs)) ''/'' 1 = cleanLoop True (rootedOut segs) ''/'' 1"
    using Cons by (simp add: rootedOut_def)
  also have "\<dots> = rootedOut segs"
    using cleanLoop_rooted_fix[of "[]" segs] assms Cons by (simp add: rootedOut_def)
  finally show ?thesis using ne hd by (simp add: Clean_def cleanBuf_def)
qed

lemma Clean_rooted:
  "\<exists>segs. list_all goodSeg segs \<and> set (concat segs) \<subseteq> set p \<and> Clean (CHR ''/'' # p) = rootedOut segs"
proof -
  from cleanLoop_rooted_inv[of "[]" p] obtain segs where
    s: "list_all goodSeg segs" "set (concat segs) \<subseteq> set p" "cleanLoop True p ''/'' 1 = rootedOut segs"
    by (auto simp: rootedOut_def)
  have "rootedOut segs \<noteq> []" by (cases segs) (auto simp: rootedOut_def)
  with s show ?thesis by (intro exI[of _ segs]) (simp add: Clean_def cleanBuf_def)
qed

lemma of_char_lowerByte:
  "(of_char (lowerByte c) :: nat) =
     (if 65 \<le> (of_char c :: nat) \<and> (of_char c :: nat) \<le> 90 then of_char c + 32 else of_char c)"
  by (simp add: lowerByte_def isUpper_def)

lemma lowerByte_eq_iff:
  assumes "(of_char k :: nat) < 65 \<or> (of_char k :: nat) > 122 \<or> (90 < (of_char k :: nat) \<and> (of_char k :: nat) < 97)"
  shows "lowerByte c = k \<longleftrightarrow> c = k"
proof -
  have "lowerByte c = k \<longleftrightarrow> (of_char (lowerByte c) :: nat) = of_char k" by simp
  also have "\<dots> \<longleftrightarrow> (of_char c :: nat) = of_char k" using assms by (auto simp: of_char_lowerByte)
  finally show ?thesis by simp
qed

lemma lowerByte_slash [simp]: "lowerByte c = CHR ''/'' \<longleftrightarrow> c = CHR ''/''"
  by (rule lowerByte_eq_iff) simp

lemma lowerByte_dot [simp]: "lowerByte c = CHR ''.'' \<longleftrightarrow> c = CHR ''.''"
  by (rule lowerByte_eq_iff) simp

lemma lowerByte_backslash [simp]: "lowerByte c = CHR 0x5C \<longleftrightarrow> c = CHR 0x5C"
  by (rule lowerByte_eq_iff) simp

lemma lowerByte_slash2 [simp]: "CHR ''/'' = lowerByte c \<longleftrightarrow> c = CHR ''/''"
  using lowerByte_slash[of c] by (auto simp del: lowerByte_slash)

lemma lowerByte_dot2 [simp]: "CHR ''.'' = lowerByte c \<longleftrightarrow> c = CHR ''.''"
  using lowerByte_dot[of c] by (auto simp del: lowerByte_dot)

lemma lowerByte_backslash2 [simp]: "CHR 0x5C = lowerByte c \<longleftrightarrow> c = CHR 0x5C"
  using lowerByte_backslash[of c] by (auto simp del: lowerByte_backslash)

lemma lowerByte_idem [simp]: "lowerByte (lowerByte c) = lowerByte c"
proof -
  have "(of_char (lowerByte (lowerByte c)) :: nat) = of_char (lowerByte c)"
    by (auto simp: of_char_lowerByte)
  then show ?thesis by simp
qed

lemma lowerByte_ascii: "(of_char c :: nat) < 128 \<Longrightarrow> (of_char (lowerByte c) :: nat) < 128"
  by (auto simp: of_char_lowerByte)

lemma ToLower_ascii: "isASCII s \<Longrightarrow> ToLower lowerU s = map lowerByte s"
proof -
  have "\<not> list_ex isUpper s \<Longrightarrow> map lowerByte s = s"
    by (induction s) (auto simp: lowerByte_def)
  then show "isASCII s \<Longrightarrow> ToLower lowerU s = map lowerByte s"
    by (auto simp: ToLower_def)
qed

lemma isASCII_map_lowerByte: "isASCII s \<Longrightarrow> isASCII (map lowerByte s)"
  by (induction s) (auto simp: isASCII_def lowerByte_ascii)

lemma goodSeg_lower: "goodSeg s \<Longrightarrow> goodSeg (map lowerByte s)"
proof -
  assume g: "goodSeg s"
  have "CHR ''/'' \<in> set (map lowerByte s) \<Longrightarrow> CHR ''/'' \<in> set s"
    by (induction s) (auto simp: eq_commute[of "CHR ''/''"])
  with g show ?thesis by (auto simp: goodSeg_def map_eq_Cons_conv)
qed

lemma rootedOut_lower:
  "map lowerByte (rootedOut segs) = rootedOut (map (map lowerByte) segs)"
proof -
  have l: "lowerByte (CHR ''/'') = CHR ''/''" by simp
  have "map lowerByte (concat (map ((#) (CHR ''/'')) segs))
      = concat (map ((#) (CHR ''/'')) (map (map lowerByte) segs))"
    by (induction segs) (simp_all add: l)
  then show ?thesis by (simp add: rootedOut_def l)
qed


lemma isASCII_replaceBackslash: "isASCII n \<Longrightarrow> isASCII (replaceBackslash n)"
  by (induction n) (auto simp: isASCII_def replaceBackslash_def)

lemma replaceBackslash_none: "CHR 0x5C \<notin> set (replaceBackslash n)"
  by (induction n) (auto simp: replaceBackslash_def)

lemma replaceBackslash_id: "CHR 0x5C \<notin> set n \<Longrightarrow> replaceBackslash n = n"
  by (induction n) (auto simp: replaceBackslash_def)

lemma set_rootedOut: "set (rootedOut segs) \<subseteq> insert (CHR ''/'') (set (concat segs))"
  by (induction segs) (auto simp: rootedOut_def)

lemma isASCII_subset: "isASCII s \<Longrightarrow> set t \<subseteq> insert (CHR ''/'') (set s) \<Longrightarrow> isASCII t"
  by (auto simp: isASCII_def list_all_iff)

lemma drop1_rootedOut: "segs \<noteq> [] \<Longrightarrow> CHR ''/'' # drop 1 (rootedOut segs) = rootedOut segs"
  by (cases segs) (auto simp: rootedOut_def)

text \<open>What normalizeName computes on an ASCII name, in terms of the cleaned segments.\<close>

lemma normalizeName_segs:
  assumes "isASCII n"
  shows "\<exists>segs. list_all goodSeg segs \<and> set (concat segs) \<subseteq> lowerByte ` set (replaceBackslash n) \<and>
           normalizeName lowerU n = drop 1 (rootedOut segs)"
proof -
  let ?n1 = "replaceBackslash n"
  from Clean_rooted[of ?n1] obtain segs where
    s: "list_all goodSeg segs" "set (concat segs) \<subseteq> set ?n1" "Clean (CHR ''/'' # ?n1) = rootedOut segs"
    by blast
  have "set (drop 1 (rootedOut segs)) \<subseteq> insert (CHR ''/'') (set ?n1)"
    using set_rootedOut[of segs] s(2) by (auto dest: in_set_dropD)
  then have a: "isASCII (drop 1 (rootedOut segs))"
    using isASCII_subset[OF isASCII_replaceBackslash[OF assms]] by blast
  have "normalizeName lowerU n = map lowerByte (drop 1 (rootedOut segs))"
    using s(3) ToLower_ascii[OF a] by (simp add: normalizeName_def)
  also have "\<dots> = drop 1 (rootedOut (map (map lowerByte) segs))"
    by (simp add: rootedOut_lower[symmetric] drop_map)
  finally have e: "normalizeName lowerU n = drop 1 (rootedOut (map (map lowerByte) segs))" .
  have g: "list_all goodSeg (map (map lowerByte) segs)"
    using s(1) by (induction segs) (auto simp: goodSeg_lower)
  have sub: "set (concat (map (map lowerByte) segs)) \<subseteq> lowerByte ` set ?n1"
    using s(2) by auto
  from e g sub show ?thesis by blast
qed

lemma isUpper_lowerByte: "\<not> isUpper (lowerByte c)"
  by (auto simp: isUpper_def of_char_lowerByte)

lemma normalizeName_chars:
  assumes "isASCII n" "c \<in> set (normalizeName lowerU n)"
  shows "\<not> isUpper c \<and> c \<noteq> CHR 0x5C"
proof -
  from normalizeName_segs[OF assms(1), of lowerU] obtain segs where
    s: "set (concat segs) \<subseteq> lowerByte ` set (replaceBackslash n)"
       "normalizeName lowerU n = drop 1 (rootedOut segs)" by blast
  have "c \<in> set (rootedOut segs)" using assms(2) s(2) by (auto dest: in_set_dropD)
  then have "c = CHR ''/'' \<or> c \<in> lowerByte ` set (replaceBackslash n)"
    using set_rootedOut[of segs] s(1) by blast
  then show ?thesis
  proof
    assume "c = CHR ''/''"
    then show ?thesis by (simp add: isUpper_def)
  next
    assume "c \<in> lowerByte ` set (replaceBackslash n)"
    then obtain y where y: "y \<in> set (replaceBackslash n)" "c = lowerByte y" by blast
    then have "c \<noteq> CHR 0x5C" using replaceBackslash_none[of n] by auto
    with y show ?thesis by (simp add: isUpper_lowerByte)
  qed
qed

text \<open>The conversion to lower case on cleaned paths, for a library function that works rune by rune.\<close>

lemma ToLower_Nil [simp]: "ToLower lowerU [] = []"
  by (simp add: ToLower_def isASCII_def)

lemma ToLower_slash [simp]: "ToLower lowerU ''/'' = ''/''"
  by (simp add: ToLower_def isASCII_def isUpper_def)

lemma lowerRunewise_split:
  "lowerRunewise lowerU \<Longrightarrow>
   ToLower lowerU (a @ CHR ''/'' # b) = ToLower lowerU a @ CHR ''/'' # ToLower lowerU b"
  by (simp add: lowerRunewise_def)

lemma lowerRunewise_idem:
  "lowerRunewise lowerU \<Longrightarrow> ToLower lowerU (ToLower lowerU s) = ToLower lowerU s"
  by (simp add: lowerRunewise_def)

lemma lowerRunewise_backslash:
  "lowerRunewise lowerU \<Longrightarrow> CHR 0x5C \<notin> set s \<Longrightarrow> CHR 0x5C \<notin> set (ToLower lowerU s)"
  by (simp add: lowerRunewise_def)

lemma lowerRunewise_noslash:
  "lowerRunewise lowerU \<Longrightarrow> CHR ''/'' \<notin> set s \<Longrightarrow> CHR ''/'' \<notin> set (ToLower lowerU s)"
  by (simp add: lowerRunewise_def)

lemma lowerRunewise_nonempty:
  "lowerRunewise lowerU \<Longrightarrow> s \<noteq> [] \<Longrightarrow> ToLower lowerU s \<noteq> []"
  unfolding lowerRunewise_def by blast

lemma lowerRunewise_goodSeg:
  assumes "lowerRunewise lowerU" "goodSeg s"
  shows "goodSeg (ToLower lowerU s)"
proof -
  have 1: "ToLower lowerU s \<noteq> []"
    using assms lowerRunewise_nonempty by (simp add: goodSeg_def)
  have 2: "CHR ''/'' \<notin> set (ToLower lowerU s)"
    using assms lowerRunewise_noslash by (simp add: goodSeg_def)
  have 3: "ToLower lowerU s \<noteq> ''.''" "ToLower lowerU s \<noteq> ''..''"
    using assms unfolding lowerRunewise_def goodSeg_def by blast+
  from 1 2 3 show ?thesis by (simp add: goodSeg_def)
qed

lemma ToLower_seg_slashJoin:
  assumes "lowerRunewise lowerU"
  shows "ToLower lowerU (s @ concat (map ((#) (CHR ''/'')) segs))
     = ToLower lowerU s @ concat (map ((#) (CHR ''/'')) (map (ToLower lowerU) segs))"
proof (induction segs arbitrary: s)
  case Nil
  show ?case by simp
next
  case (Cons t ts)
  have "ToLower lowerU (s @ concat (map ((#) (CHR ''/'')) (t # ts)))
      = ToLower lowerU (s @ CHR ''/'' # (t @ concat (map ((#) (CHR ''/'')) ts)))" by simp
  also have "\<dots> = ToLower lowerU s @ CHR ''/'' # ToLower lowerU (t @ concat (map ((#) (CHR ''/'')) ts))"
    by (rule lowerRunewise_split[OF assms])
  also have "\<dots> = ToLower lowerU s @ concat (map ((#) (CHR ''/'')) (map (ToLower lowerU) (t # ts)))"
    by (simp add: Cons.IH)
  finally show ?case .
qed

lemma ToLower_rootedOut:
  assumes "lowerRunewise lowerU"
  shows "ToLower lowerU (rootedOut segs) = rootedOut (map (ToLower lowerU) segs)"
proof (cases segs)
  case Nil
  then show ?thesis by (simp add: rootedOut_def)
next
  case (Cons s rest)
  then show ?thesis
    using ToLower_seg_slashJoin[OF assms, of "[]" segs] by (simp add: rootedOut_def)
qed

lemma ToLower_drop1_rootedOut:
  assumes "lowerRunewise lowerU"
  shows "ToLower lowerU (drop 1 (rootedOut segs)) = drop 1 (rootedOut (map (ToLower lowerU) segs))"
proof (cases segs)
  case Nil
  then show ?thesis by (simp add: rootedOut_def)
next
  case (Cons s rest)
  then show ?thesis
    using ToLower_seg_slashJoin[OF assms, of s rest] by (simp add: rootedOut_def)
qed

lemma list_all_goodSeg_lower:
  "lowerRunewise lowerU \<Longrightarrow> list_all goodSeg segs \<Longrightarrow> list_all goodSeg (map (ToLower lowerU) segs)"
  by (induction segs) (simp_all add: lowerRunewise_goodSeg)

text \<open>What normalizeName computes, in terms of the cleaned segments.\<close>

lemma normalizeName_shape:
  assumes "lowerRunewise lowerU"
  shows "\<exists>segs. list_all goodSeg segs \<and> (\<forall>s\<in>set segs. CHR 0x5C \<notin> set s) \<and>
           (\<forall>s\<in>set segs. ToLower lowerU s = s) \<and>
           normalizeName lowerU n = drop 1 (rootedOut segs)"
proof -
  let ?n1 = "replaceBackslash n"
  let ?L = "ToLower lowerU"
  from Clean_rooted[of ?n1] obtain segs where
    s: "list_all goodSeg segs" "set (concat segs) \<subseteq> set ?n1" "Clean (CHR ''/'' # ?n1) = rootedOut segs"
    by blast
  have nb: "\<forall>t\<in>set segs. CHR 0x5C \<notin> set t"
    using s(2) replaceBackslash_none[of n] by auto
  have e: "normalizeName lowerU n = drop 1 (rootedOut (map ?L segs))"
    using s(3) ToLower_drop1_rootedOut[OF assms] by (simp add: normalizeName_def)
  have g: "list_all goodSeg (map ?L segs)" using list_all_goodSeg_lower[OF assms s(1)] .
  have b: "\<forall>t\<in>set (map ?L segs). CHR 0x5C \<notin> set t"
    using nb lowerRunewise_backslash[OF assms] by auto
  have f: "\<forall>t\<in>set (map ?L segs). ?L t = t"
    using lowerRunewise_idem[OF assms] by auto
  from e g b f show ?thesis by blast
qed

lemma normalizeName_fixed:
  assumes "lowerRunewise lowerU" "list_all goodSeg segs" "\<forall>s\<in>set segs. CHR 0x5C \<notin> set s"
    "\<forall>s\<in>set segs. ToLower lowerU s = s"
  shows "normalizeName lowerU (drop 1 (rootedOut segs)) = drop 1 (rootedOut segs)"
proof -
  let ?t = "drop 1 (rootedOut segs)"
  have sub: "set ?t \<subseteq> insert (CHR ''/'') (set (concat segs))"
    using set_rootedOut[of segs] by (auto dest: in_set_dropD)
  have nb: "CHR 0x5C \<notin> set ?t" using sub assms(3) by auto
  have cl: "Clean (CHR ''/'' # ?t) = rootedOut segs"
  proof (cases "segs = []")
    case True
    then show ?thesis by (simp add: rootedOut_def Clean_def cleanBuf_def)
  next
    case False
    then show ?thesis using drop1_rootedOut[OF False] Clean_rootedOut[OF assms(2)] by simp
  qed
  have m: "map (ToLower lowerU) segs = segs" using assms(4) by (simp add: map_idI)
  show ?thesis
    using replaceBackslash_id[OF nb] cl ToLower_drop1_rootedOut[OF assms(1), of segs] m
    by (simp add: normalizeName_def)
qed

lemma normalizeName_idem_all:
  assumes "lowerRunewise lowerU"
  shows "normalizeName lowerU (normalizeName lowerU n) = normalizeName lowerU n"
proof -
  from normalizeName_shape[OF assms, of n] obtain segs where
    s: "list_all goodSeg segs" "\<forall>s\<in>set segs. CHR 0x5C \<notin> set s"
       "\<forall>s\<in>set segs. ToLower lowerU s = s" "normalizeName lowerU n = drop 1 (rootedOut segs)"
    by blast
  show ?thesis using normalizeName_fixed[OF assms s(1,2,3)] s(4) by simp
qed

lemma normalizeName_no_backslash:
  assumes "lowerRunewise lowerU"
  shows "CHR 0x5C \<notin> set (normalizeName lowerU n)"
proof -
  from normalizeName_shape[OF assms, of n] obtain segs where
    s: "\<forall>s\<in>set segs. CHR 0x5C \<notin> set s" "normalizeName lowerU n = drop 1 (rootedOut segs)"
    by blast
  have "set (drop 1 (rootedOut segs)) \<subseteq> insert (CHR ''/'') (set (concat segs))"
    using set_rootedOut[of segs] by (auto dest: in_set_dropD)
  with s show ?thesis by auto
qed

text \<open>Converting byte by byte is one function that works rune by rune.\<close>

lemma ToLower_bytewise: "ToLower (map lowerByte) s = map lowerByte s"
proof -
  have "\<not> list_ex isUpper s \<Longrightarrow> map lowerByte s = s"
    by (induction s) (auto simp: lowerByte_def)
  then show ?thesis by (auto simp: ToLower_def)
qed

lemma lowerRunewise_bytewise: "lowerRunewise (map lowerByte)"
proof -
  have 1: "map lowerByte s = [x] \<Longrightarrow> \<exists>c. s = [c] \<and> lowerByte c = x" for s x
    by (cases s) auto
  have 2: "map lowerByte s = [x, y] \<Longrightarrow> \<exists>c d. s = [c, d] \<and> lowerByte c = x \<and> lowerByte d = y"
    for s x y
    by (cases s; cases "tl s") auto
  have a: "CHR ''/'' \<notin> set s \<Longrightarrow> CHR ''/'' \<notin> set (map lowerByte s)" for s
    by (induction s) auto
  have b: "CHR 0x5C \<notin> set s \<Longrightarrow> CHR 0x5C \<notin> set (map lowerByte s)" for s
    by (induction s) auto
  have c: "map lowerByte s = ''.'' \<Longrightarrow> s = ''.''" for s
    using 1[of s "CHR ''.''"] by auto
  have d: "map lowerByte s = ''..'' \<Longrightarrow> s = ''..''" for s
    using 2[of s "CHR ''.''" "CHR ''.''"] by auto
  show ?thesis
    unfolding lowerRunewise_def ToLower_bytewise
    using a b c d by auto
qed

text \<open>
  Claim C9. Normalising an archive entry name twice gives the same result as normalising it
  once, for every name; on a name with a byte outside ASCII this rests on
  \<^verbatim>\<open>strings.ToLower\<close> working rune by rune. The normal form is a sequence of good segments
  joined by single slashes with no leading slash and no backslash, and without an upper case
  letter when the name is made of ASCII bytes; and the three names \<^verbatim>\<open>A\Foo.BSP\<close>,
  \<^verbatim>\<open>a/foo.bsp\<close> and \<^verbatim>\<open>/a/foo.bsp\<close> all normalise to \<^verbatim>\<open>a/foo.bsp\<close>.
\<close>

theorem normalizeName_idempotent:
  assumes "lowerRunewise lowerU"
  shows "normalizeName lowerU (normalizeName lowerU n) = normalizeName lowerU n
    \<and> (\<exists>segs. list_all goodSeg segs \<and> normalizeName lowerU n = drop 1 (rootedOut segs))
    \<and> CHR 0x5C \<notin> set (normalizeName lowerU n)
    \<and> (isASCII n \<longrightarrow> list_all (\<lambda>c. \<not> isUpper c) (normalizeName lowerU n))
    \<and> normalizeName lowerU (''A'' @ [CHR 0x5C] @ ''Foo.BSP'') = ''a/foo.bsp''
    \<and> normalizeName lowerU ''a/foo.bsp'' = ''a/foo.bsp''
    \<and> normalizeName lowerU ''/a/foo.bsp'' = ''a/foo.bsp''"
proof -
  have 1: "normalizeName lowerU (normalizeName lowerU n) = normalizeName lowerU n"
    by (rule normalizeName_idem_all[OF assms])
  have 2: "\<exists>segs. list_all goodSeg segs \<and> normalizeName lowerU n = drop 1 (rootedOut segs)"
    using normalizeName_shape[OF assms, of n] by blast
  have 3: "CHR 0x5C \<notin> set (normalizeName lowerU n)"
    by (rule normalizeName_no_backslash[OF assms])
  have u: "isASCII n \<longrightarrow> list_all (\<lambda>c. \<not> isUpper c) (normalizeName lowerU n)"
    using normalizeName_chars[of n _ lowerU] by (auto simp: list_all_iff)
  have 4: "normalizeName lowerU (''A'' @ [CHR 0x5C] @ ''Foo.BSP'') = ''a/foo.bsp''"
    by code_simp
  have 5: "normalizeName lowerU ''a/foo.bsp'' = ''a/foo.bsp''"
    by code_simp
  have 6: "normalizeName lowerU ''/a/foo.bsp'' = ''a/foo.bsp''"
    by code_simp
  from 1 2 3 u 4 5 6 show ?thesis by blast
qed

theorem normalizeName_idempotent_witness:
  "lowerRunewise (map lowerByte)
   \<and> normalizeName (map lowerByte) (''Maps/..'' @ [CHR 0x5C] @ ''.//Caf'' @ [CHR 0xC3, CHR 0x89] @ ''/Q2DM1.bsp'')
       = ''caf'' @ [CHR 0xC3, CHR 0x89] @ ''/q2dm1.bsp''
   \<and> normalizeName (map lowerByte) (''caf'' @ [CHR 0xC3, CHR 0x89] @ ''/q2dm1.bsp'')
       = ''caf'' @ [CHR 0xC3, CHR 0x89] @ ''/q2dm1.bsp''"
proof -
  have v: "normalizeName (map lowerByte) (''Maps/..'' @ [CHR 0x5C] @ ''.//Caf'' @ [CHR 0xC3, CHR 0x89] @ ''/Q2DM1.bsp'')
       = ''caf'' @ [CHR 0xC3, CHR 0x89] @ ''/q2dm1.bsp''"
    by code_simp
  from normalizeName_idempotent[OF lowerRunewise_bytewise,
      of "''Maps/..'' @ [CHR 0x5C] @ ''.//Caf'' @ [CHR 0xC3, CHR 0x89] @ ''/Q2DM1.bsp''"]
  have "normalizeName (map lowerByte) (normalizeName (map lowerByte)
          (''Maps/..'' @ [CHR 0x5C] @ ''.//Caf'' @ [CHR 0xC3, CHR 0x89] @ ''/Q2DM1.bsp''))
      = normalizeName (map lowerByte)
          (''Maps/..'' @ [CHR 0x5C] @ ''.//Caf'' @ [CHR 0xC3, CHR 0x89] @ ''/Q2DM1.bsp'')"
    by (rule conjunct1)
  hence i: "normalizeName (map lowerByte) (''caf'' @ [CHR 0xC3, CHR 0x89] @ ''/q2dm1.bsp'')
       = ''caf'' @ [CHR 0xC3, CHR 0x89] @ ''/q2dm1.bsp''"
    unfolding v .
  from lowerRunewise_bytewise v i show ?thesis by (intro conjI)
qed

section \<open>The resolver selects the longest match\<close>

lemma findLoop_step:
  "findLoop (s # ss) p (srch, l) =
     (case matchAt0 (rmatch s) p of
        Some e \<Rightarrow> if e > l then findLoop ss p (Some (search s), e) else findLoop ss p (srch, l)
      | None \<Rightarrow> findLoop ss p (srch, l))"
  by (cases "rmatch s p") (auto simp: matchAt0_def)

lemma findLoop_spec:
  "findLoop ss p (srch0, l0) = (srch, l) \<Longrightarrow>
   (\<forall>s\<in>set ss. \<forall>e. matchAt0 (rmatch s) p = Some e \<longrightarrow> e \<le> l) \<and>
   ((l = l0 \<and> srch = srch0) \<or>
    (l > l0 \<and> (\<exists>i<length ss. matchAt0 (rmatch (ss ! i)) p = Some l \<and> srch = Some (search (ss ! i)) \<and>
        (\<forall>j<i. \<forall>e. matchAt0 (rmatch (ss ! j)) p = Some e \<longrightarrow> e < l))))"
proof (induction ss arbitrary: srch0 l0)
  case Nil
  then show ?case by simp
next
  case (Cons s ss)
  show ?case
  proof (cases "matchAt0 (rmatch s) p")
    case None
    with Cons.prems have r: "findLoop ss p (srch0, l0) = (srch, l)" by (simp add: findLoop_step del: findLoop.simps)
    from Cons.IH[OF r] have
      a: "\<forall>s\<in>set ss. \<forall>e. matchAt0 (rmatch s) p = Some e \<longrightarrow> e \<le> l" and
      b: "(l = l0 \<and> srch = srch0) \<or>
       (l > l0 \<and> (\<exists>i<length ss. matchAt0 (rmatch (ss ! i)) p = Some l \<and> srch = Some (search (ss ! i)) \<and>
        (\<forall>j<i. \<forall>e. matchAt0 (rmatch (ss ! j)) p = Some e \<longrightarrow> e < l)))" by blast+
    from b show ?thesis
    proof
      assume "l = l0 \<and> srch = srch0"
      with a None show ?thesis by auto
    next
      assume "l > l0 \<and> (\<exists>i<length ss. matchAt0 (rmatch (ss ! i)) p = Some l \<and> srch = Some (search (ss ! i)) \<and>
        (\<forall>j<i. \<forall>e. matchAt0 (rmatch (ss ! j)) p = Some e \<longrightarrow> e < l))"
      then obtain i where i: "l > l0" "i < length ss" "matchAt0 (rmatch (ss ! i)) p = Some l"
        "srch = Some (search (ss ! i))" "\<forall>j<i. \<forall>e. matchAt0 (rmatch (ss ! j)) p = Some e \<longrightarrow> e < l" by blast
      have "\<forall>j<Suc i. \<forall>e. matchAt0 (rmatch ((s # ss) ! j)) p = Some e \<longrightarrow> e < l"
        using i(5) None by (auto simp: less_Suc_eq_0_disj)
      with i a None show ?thesis by (intro conjI disjI2 exI[of _ "Suc i"]) auto
    qed
  next
    case (Some e0)
    show ?thesis
    proof (cases "e0 > l0")
      case False
      with Some Cons.prems have r: "findLoop ss p (srch0, l0) = (srch, l)" by (simp add: findLoop_step del: findLoop.simps)
      from Cons.IH[OF r] have
        a: "\<forall>s\<in>set ss. \<forall>e. matchAt0 (rmatch s) p = Some e \<longrightarrow> e \<le> l" and
        b: "(l = l0 \<and> srch = srch0) \<or>
         (l > l0 \<and> (\<exists>i<length ss. matchAt0 (rmatch (ss ! i)) p = Some l \<and> srch = Some (search (ss ! i)) \<and>
          (\<forall>j<i. \<forall>e. matchAt0 (rmatch (ss ! j)) p = Some e \<longrightarrow> e < l)))" by blast+
      from b show ?thesis
      proof
        assume "l = l0 \<and> srch = srch0"
        with a Some False show ?thesis by auto
      next
        assume "l > l0 \<and> (\<exists>i<length ss. matchAt0 (rmatch (ss ! i)) p = Some l \<and> srch = Some (search (ss ! i)) \<and>
          (\<forall>j<i. \<forall>e. matchAt0 (rmatch (ss ! j)) p = Some e \<longrightarrow> e < l))"
        then obtain i where i: "l > l0" "i < length ss" "matchAt0 (rmatch (ss ! i)) p = Some l"
          "srch = Some (search (ss ! i))" "\<forall>j<i. \<forall>e. matchAt0 (rmatch (ss ! j)) p = Some e \<longrightarrow> e < l" by blast
        have "\<forall>j<Suc i. \<forall>e. matchAt0 (rmatch ((s # ss) ! j)) p = Some e \<longrightarrow> e < l"
          using i(1,5) Some False by (auto simp: less_Suc_eq_0_disj)
        moreover have "\<forall>s'\<in>set (s # ss). \<forall>e. matchAt0 (rmatch s') p = Some e \<longrightarrow> e \<le> l"
          using a Some False i(1) by auto
        ultimately show ?thesis using i by (intro conjI disjI2 exI[of _ "Suc i"]) auto
      qed
    next
      case True
      with Some Cons.prems have r: "findLoop ss p (Some (search s), e0) = (srch, l)"
        by (simp add: findLoop_step del: findLoop.simps)
      from Cons.IH[OF r] have
        a: "\<forall>s\<in>set ss. \<forall>e. matchAt0 (rmatch s) p = Some e \<longrightarrow> e \<le> l" and
        b: "(l = e0 \<and> srch = Some (search s)) \<or>
         (l > e0 \<and> (\<exists>i<length ss. matchAt0 (rmatch (ss ! i)) p = Some l \<and> srch = Some (search (ss ! i)) \<and>
          (\<forall>j<i. \<forall>e. matchAt0 (rmatch (ss ! j)) p = Some e \<longrightarrow> e < l)))" by blast+
      from b show ?thesis
      proof
        assume h: "l = e0 \<and> srch = Some (search s)"
        with a Some True show ?thesis by (intro conjI disjI2 exI[of _ 0]) auto
      next
        assume "l > e0 \<and> (\<exists>i<length ss. matchAt0 (rmatch (ss ! i)) p = Some l \<and> srch = Some (search (ss ! i)) \<and>
          (\<forall>j<i. \<forall>e. matchAt0 (rmatch (ss ! j)) p = Some e \<longrightarrow> e < l))"
        then obtain i where i: "l > e0" "i < length ss" "matchAt0 (rmatch (ss ! i)) p = Some l"
          "srch = Some (search (ss ! i))" "\<forall>j<i. \<forall>e. matchAt0 (rmatch (ss ! j)) p = Some e \<longrightarrow> e < l" by blast
        have "\<forall>j<Suc i. \<forall>e. matchAt0 (rmatch ((s # ss) ! j)) p = Some e \<longrightarrow> e < l"
          using i(1,5) Some True by (auto simp: less_Suc_eq_0_disj)
        moreover have "\<forall>s'\<in>set (s # ss). \<forall>e. matchAt0 (rmatch s') p = Some e \<longrightarrow> e \<le> l"
          using a Some True i(1) by auto
        ultimately show ?thesis using i True by (intro conjI disjI2 exI[of _ "Suc i"]) auto
      qed
    qed
  qed
qed

lemma findSearchPath_None:
  assumes "findSearchPath lowU table raw = (None, asset)"
  shows "asset = ToLower lowU (Clean raw) \<and>
         (\<forall>s\<in>set table. \<forall>e. matchAt0 (rmatch s) (ToLower lowU (Clean raw)) = Some e \<longrightarrow> e = 0)"
proof -
  let ?p = "ToLower lowU (Clean raw)"
  obtain srch l where f: "findLoop table ?p (None, 0) = (srch, l)" by (cases "findLoop table ?p (None, 0)")
  with assms have s: "srch = None" "asset = drop l ?p"
    by (auto simp: findSearchPath_def Let_def)
  from findLoop_spec[OF f] s(1) have "l = 0"
    "\<forall>s\<in>set table. \<forall>e. matchAt0 (rmatch s) ?p = Some e \<longrightarrow> e \<le> l" by auto
  with s show ?thesis by auto
qed

lemma findSearchPath_Some:
  assumes "findSearchPath lowU table raw = (Some srch, asset)"
  shows "\<exists>i<length table. \<exists>e>0.
           matchAt0 (rmatch (table ! i)) (ToLower lowU (Clean raw)) = Some e \<and>
           srch = search (table ! i) \<and> asset = drop e (ToLower lowU (Clean raw)) \<and>
           (\<forall>j<length table. \<forall>e'. matchAt0 (rmatch (table ! j)) (ToLower lowU (Clean raw)) = Some e' \<longrightarrow> e' \<le> e) \<and>
           (\<forall>j<i. \<forall>e'. matchAt0 (rmatch (table ! j)) (ToLower lowU (Clean raw)) = Some e' \<longrightarrow> e' < e)"
proof -
  let ?p = "ToLower lowU (Clean raw)"
  obtain s' l where f: "findLoop table ?p (None, 0) = (s', l)" by (cases "findLoop table ?p (None, 0)")
  with assms have s: "s' = Some srch" "asset = drop l ?p"
    by (auto simp: findSearchPath_def Let_def)
  from findLoop_spec[OF f] s(1) obtain i where
    a: "\<forall>s\<in>set table. \<forall>e. matchAt0 (rmatch s) ?p = Some e \<longrightarrow> e \<le> l" and
    i: "l > 0" "i < length table" "matchAt0 (rmatch (table ! i)) ?p = Some l"
       "Some srch = Some (search (table ! i))"
       "\<forall>j<i. \<forall>e. matchAt0 (rmatch (table ! j)) ?p = Some e \<longrightarrow> e < l"
    by auto
  have "\<forall>j<length table. \<forall>e'. matchAt0 (rmatch (table ! j)) ?p = Some e' \<longrightarrow> e' \<le> l"
    using a by (auto simp: all_set_conv_all_nth)
  with i s(2) show ?thesis by (intro exI[of _ i] conjI exI[of _ l]) auto
qed

lemma handler_no_route:
  assumes "\<not> (separator E \<noteq> CHR ''/'' \<and> separator E \<in> set (urlPath r))"
    "MatchString (refererCheck E) (referer r)"
    "fst (findSearchPath (uLower E) (searchPaths E) (urlPath r)) = None \<or>
     snd (findSearchPath (uLower E) (searchPaths E) (urlPath r)) = []"
  shows "handler E r = Response 404 [] []"
  using assms
  by (cases "findSearchPath (uLower E) (searchPaths E) (urlPath r)")
     (auto simp: handler_def split: option.splits)

text \<open>
  Claim C4, as the code has it. The resolver matches every route pattern against the cleaned,
  lower-cased request path and keeps the matches that begin at offset 0 and end at an offset
  greater than 0; among them the route with the largest end offset is selected, the first
  registered one among equals, and the asset path is the path without the matched prefix.
  When no pattern has such a match no route is selected. With the routes \<^verbatim>\<open>^/a/\<close> and
  \<^verbatim>\<open>^/a/b/\<close> the request \<^verbatim>\<open>/a/b/c\<close> resolves through \<^verbatim>\<open>^/a/b/\<close> with asset path
  \<^verbatim>\<open>c\<close>. A request that passes the referer and separator checks and has no selected route
  or an empty asset path is answered 404.
\<close>

theorem findSearchPath_longest_match:
  "(case findSearchPath lowU table raw of
      (None, asset) \<Rightarrow>
         asset = ToLower lowU (Clean raw) \<and>
         (\<forall>s\<in>set table. \<forall>e. matchAt0 (rmatch s) (ToLower lowU (Clean raw)) = Some e \<longrightarrow> e = 0)
    | (Some srch, asset) \<Rightarrow>
         (\<exists>i<length table. \<exists>e>0.
            matchAt0 (rmatch (table ! i)) (ToLower lowU (Clean raw)) = Some e \<and>
            srch = search (table ! i) \<and> asset = drop e (ToLower lowU (Clean raw)) \<and>
            (\<forall>j<length table. \<forall>e'.
               matchAt0 (rmatch (table ! j)) (ToLower lowU (Clean raw)) = Some e' \<longrightarrow> e' \<le> e) \<and>
            (\<forall>j<i. \<forall>e'.
               matchAt0 (rmatch (table ! j)) (ToLower lowU (Clean raw)) = Some e' \<longrightarrow> e' < e)))
   \<and> findSearchPath lowU [\<lparr>rmatch = anchoredLiteral ''/a/'', search = A\<rparr>,
                           \<lparr>rmatch = anchoredLiteral ''/a/b/'', search = B\<rparr>] ''/a/b/c''
       = (Some B, ''c'')
   \<and> (\<not> (separator E \<noteq> CHR ''/'' \<and> separator E \<in> set (urlPath r)) \<and>
       MatchString (refererCheck E) (referer r) \<and>
       (fst (findSearchPath (uLower E) (searchPaths E) (urlPath r)) = None \<or>
        snd (findSearchPath (uLower E) (searchPaths E) (urlPath r)) = [])
       \<longrightarrow> handler E r = Response 404 [] [])"
proof -
  have 1: "(case findSearchPath lowU table raw of
      (None, asset) \<Rightarrow>
         asset = ToLower lowU (Clean raw) \<and>
         (\<forall>s\<in>set table. \<forall>e. matchAt0 (rmatch s) (ToLower lowU (Clean raw)) = Some e \<longrightarrow> e = 0)
    | (Some srch, asset) \<Rightarrow>
         (\<exists>i<length table. \<exists>e>0.
            matchAt0 (rmatch (table ! i)) (ToLower lowU (Clean raw)) = Some e \<and>
            srch = search (table ! i) \<and> asset = drop e (ToLower lowU (Clean raw)) \<and>
            (\<forall>j<length table. \<forall>e'.
               matchAt0 (rmatch (table ! j)) (ToLower lowU (Clean raw)) = Some e' \<longrightarrow> e' \<le> e) \<and>
            (\<forall>j<i. \<forall>e'.
               matchAt0 (rmatch (table ! j)) (ToLower lowU (Clean raw)) = Some e' \<longrightarrow> e' < e)))"
  proof (cases "findSearchPath lowU table raw")
    case (Pair srch asset)
    show ?thesis
    proof (cases srch)
      case None
      with Pair findSearchPath_None[of lowU table raw asset] show ?thesis by simp
    next
      case (Some s)
      with Pair findSearchPath_Some[of lowU table raw s asset] show ?thesis by simp
    qed
  qed
  have p: "ToLower lowU (Clean ''/a/b/c'') = ''/a/b/c''" by code_simp
  have 2: "findSearchPath lowU [\<lparr>rmatch = anchoredLiteral ''/a/'', search = A\<rparr>,
                           \<lparr>rmatch = anchoredLiteral ''/a/b/'', search = B\<rparr>] ''/a/b/c''
       = (Some B, ''c'')"
    using p by (simp add: findSearchPath_def anchoredLiteral_def)
  have 3: "(\<not> (separator E \<noteq> CHR ''/'' \<and> separator E \<in> set (urlPath r)) \<and>
       MatchString (refererCheck E) (referer r) \<and>
       (fst (findSearchPath (uLower E) (searchPaths E) (urlPath r)) = None \<or>
        snd (findSearchPath (uLower E) (searchPaths E) (urlPath r)) = [])
       \<longrightarrow> handler E r = Response 404 [] [])"
    using handler_no_route[of E r] by blast
  from 1 2 3 show ?thesis by (intro conjI)
qed

text \<open>
  The theorem at a table in which two routes match at offset 0 with the same end offset and a
  third one matches a shorter prefix: the first of the two equal ones is selected.
\<close>

theorem findSearchPath_longest_match_witness:
  "findSearchPath (\<lambda>s. s)
     [\<lparr>rmatch = anchoredLiteral ''/'', search = []\<rparr>,
      \<lparr>rmatch = anchoredLiteral ''/maps/'', search = [\<lparr>spath = ''/one'', files = None\<rparr>]\<rparr>,
      \<lparr>rmatch = anchoredLiteral ''/maps/'', search = [\<lparr>spath = ''/two'', files = None\<rparr>]\<rparr>]
     ''/Maps/./q2dm1.bsp''
   = (Some [\<lparr>spath = ''/one'', files = None\<rparr>], ''q2dm1.bsp'')
   \<and> (\<exists>i<3. \<exists>e>0.
        matchAt0 (rmatch ([\<lparr>rmatch = anchoredLiteral ''/'', search = []\<rparr>,
      \<lparr>rmatch = anchoredLiteral ''/maps/'', search = [\<lparr>spath = ''/one'', files = None\<rparr>]\<rparr>,
      \<lparr>rmatch = anchoredLiteral ''/maps/'', search = [\<lparr>spath = ''/two'', files = None\<rparr>]\<rparr>] ! i))
          ''/maps/q2dm1.bsp'' = Some e \<and>
        [\<lparr>spath = ''/one'', files = None\<rparr>] = search ([\<lparr>rmatch = anchoredLiteral ''/'', search = []\<rparr>,
      \<lparr>rmatch = anchoredLiteral ''/maps/'', search = [\<lparr>spath = ''/one'', files = None\<rparr>]\<rparr>,
      \<lparr>rmatch = anchoredLiteral ''/maps/'', search = [\<lparr>spath = ''/two'', files = None\<rparr>]\<rparr>] ! i) \<and>
        ''q2dm1.bsp'' = drop e ''/maps/q2dm1.bsp'')"
proof -
  let ?t = "[\<lparr>rmatch = anchoredLiteral ''/'', search = []\<rparr>,
      \<lparr>rmatch = anchoredLiteral ''/maps/'', search = [\<lparr>spath = ''/one'', files = None\<rparr>]\<rparr>,
      \<lparr>rmatch = anchoredLiteral ''/maps/'', search = [\<lparr>spath = ''/two'', files = None\<rparr>]\<rparr>]"
  have p: "ToLower (\<lambda>s. s) (Clean ''/Maps/./q2dm1.bsp'') = ''/maps/q2dm1.bsp''" by code_simp
  have v: "findSearchPath (\<lambda>s. s) ?t ''/Maps/./q2dm1.bsp''
      = (Some [\<lparr>spath = ''/one'', files = None\<rparr>], ''q2dm1.bsp'')"
    using p by (simp add: findSearchPath_def anchoredLiteral_def)
  note T = findSearchPath_longest_match[where lowU = "\<lambda>s. s" and table = ?t
      and raw = "''/Maps/./q2dm1.bsp''", THEN conjunct1, unfolded v p prod.case option.case]
  from T have "\<exists>i<length ?t. \<exists>e>0.
        matchAt0 (rmatch (?t ! i)) ''/maps/q2dm1.bsp'' = Some e \<and>
        [\<lparr>spath = ''/one'', files = None\<rparr>] = search (?t ! i) \<and>
        ''q2dm1.bsp'' = drop e ''/maps/q2dm1.bsp''"
    by blast
  moreover have "length ?t = 3" by simp
  ultimately have "\<exists>i<3. \<exists>e>0.
        matchAt0 (rmatch (?t ! i)) ''/maps/q2dm1.bsp'' = Some e \<and>
        [\<lparr>spath = ''/one'', files = None\<rparr>] = search (?t ! i) \<and>
        ''q2dm1.bsp'' = drop e ''/maps/q2dm1.bsp''"
    by (simp only:)
  with v show ?thesis by (intro conjI)
qed

text \<open>
  Claim C4 as stated fails for a route whose match at offset 0 is empty: the pattern \<^verbatim>\<open>^\<close>
  matches the path \<^verbatim>\<open>/x\<close> at offset 0 and is the only match, so it has the largest end
  offset, and still no route is selected.
\<close>

theorem findSearchPath_empty_match_counterexample:
  "matchAt0 (anchoredLiteral []) (ToLower (\<lambda>s. s) (Clean ''/x'')) = Some 0
   \<and> findSearchPath (\<lambda>s. s)
        [\<lparr>rmatch = anchoredLiteral [], search = [\<lparr>spath = ''/srv/baseq2'', files = None\<rparr>]\<rparr>] ''/x''
       = (None, ''/x'')"
proof -
  have p: "ToLower (\<lambda>s. s) (Clean ''/x'') = ''/x''" by code_simp
  show ?thesis using p by (simp add: findSearchPath_def anchoredLiteral_def matchAt0_def)
qed

section \<open>The asset path stays below the search directory\<close>

lemma rootedOut_slashJoin: "rootedOut segs = (if segs = [] then ''/'' else slashJoin segs)"
  by (simp add: rootedOut_def slashJoin_def)

lemma slashJoin_Cons [simp]: "slashJoin (s # segs) = CHR ''/'' # s @ slashJoin segs"
  by (simp add: slashJoin_def)

lemma slashJoin_Nil [simp]: "slashJoin [] = []"
  by (simp add: slashJoin_def)

lemma slashJoin_after_slash:
  "list_all goodSeg segs \<Longrightarrow> k < length (slashJoin segs) \<Longrightarrow> slashJoin segs ! k = CHR ''/'' \<Longrightarrow>
   \<exists>m<length segs. drop (Suc k) (slashJoin segs) = drop 1 (slashJoin (drop m segs))"
proof (induction segs arbitrary: k)
  case Nil
  then show ?case by simp
next
  case (Cons s rest)
  show ?case
  proof (cases k)
    case 0
    then show ?thesis by (intro exI[of _ 0]) simp
  next
    case (Suc k')
    have ns: "CHR ''/'' \<notin> set s" using Cons.prems(1) by (simp add: goodSeg_def)
    have "\<not> k' < length s"
    proof
      assume "k' < length s"
      then have "s ! k' = CHR ''/''" using Cons.prems(3) Suc by (auto simp: nth_append)
      moreover have "s ! k' \<in> set s" using \<open>k' < length s\<close> by simp
      ultimately show False using ns by simp
    qed
    then have ge: "length s \<le> k'" by simp
    have 1: "k' - length s < length (slashJoin rest)" using Cons.prems(2) Suc ge by simp
    have 2: "slashJoin rest ! (k' - length s) = CHR ''/''" using Cons.prems(3) Suc ge by (simp add: nth_append)
    from Cons.IH[OF _ 1 2] Cons.prems(1) obtain m where
      m: "m < length rest" "drop (Suc (k' - length s)) (slashJoin rest) = drop 1 (slashJoin (drop m rest))"
      by auto
    have "drop (Suc k) (slashJoin (s # rest)) = drop (Suc (k' - length s)) (slashJoin rest)"
      using Suc ge by (simp add: Suc_diff_le)
    with m show ?thesis by (intro exI[of _ "Suc m"]) simp
  qed
qed

lemma splitOn_noslash: "CHR ''/'' \<notin> set s \<Longrightarrow> splitOn (CHR ''/'') s = [s]"
  by (induction s) auto

lemma splitOn_seg:
  "CHR ''/'' \<notin> set s \<Longrightarrow> splitOn (CHR ''/'') (s @ CHR ''/'' # t) = s # splitOn (CHR ''/'') t"
  by (induction s) auto

lemma splitOn_slashJoin:
  "list_all goodSeg (s # segs) \<Longrightarrow> splitOn (CHR ''/'') (drop 1 (slashJoin (s # segs))) = s # segs"
proof (induction segs arbitrary: s)
  case Nil
  then show ?case by (simp add: splitOn_noslash goodSeg_def)
next
  case (Cons t segs)
  then have "splitOn (CHR ''/'') (drop 1 (slashJoin (t # segs))) = t # segs" by simp
  then show ?case using Cons.prems by (simp add: splitOn_seg goodSeg_def)
qed

lemma asset_shape:
  assumes "list_all goodSeg segs" "0 < e" "e \<le> length (rootedOut segs)" "rootedOut segs ! (e - 1) = CHR ''/''"
  shows "\<exists>segs'. list_all goodSeg segs' \<and> drop e (rootedOut segs) = drop 1 (rootedOut segs')"
proof (cases "segs = []")
  case True
  with assms show ?thesis by (intro exI[of _ "[]"]) (simp add: rootedOut_def)
next
  case False
  then have r: "rootedOut segs = slashJoin segs" by (simp add: rootedOut_slashJoin)
  from assms have "e - 1 < length (slashJoin segs)" "slashJoin segs ! (e - 1) = CHR ''/''"
    by (simp_all add: r)
  from slashJoin_after_slash[OF assms(1) this] obtain m where
    m: "m < length segs" "drop (Suc (e - 1)) (slashJoin segs) = drop 1 (slashJoin (drop m segs))" by blast
  have ne: "drop m segs \<noteq> []" using m(1) by simp
  have g: "list_all goodSeg (drop m segs)" using assms(1) by (auto simp: list_all_iff dest: in_set_dropD)
  have "drop e (rootedOut segs) = drop 1 (rootedOut (drop m segs))"
    using m(2) assms(2) ne by (simp add: rootedOut_slashJoin False)
  with g show ?thesis by blast
qed

lemma asset_props:
  assumes "list_all goodSeg segs" "asset = drop 1 (rootedOut segs)"
  shows "\<not> HasPrefix asset ''/''" "''..'' \<notin> set (splitOn (CHR ''/'') asset)"
proof -
  show "\<not> HasPrefix asset ''/''"
  proof (cases segs)
    case Nil
    then show ?thesis using assms by (simp add: rootedOut_def)
  next
    case (Cons s rest)
    then obtain c cs where "s = c # cs" "c \<noteq> CHR ''/''" using assms(1) by (cases s) (auto simp: goodSeg_def)
    with Cons assms show ?thesis by (simp add: rootedOut_def)
  qed
  show "''..'' \<notin> set (splitOn (CHR ''/'') asset)"
  proof (cases segs)
    case Nil
    then show ?thesis using assms by (simp add: rootedOut_def)
  next
    case (Cons s rest)
    then have "splitOn (CHR ''/'') asset = segs"
      using splitOn_slashJoin[of s rest] assms by (simp add: rootedOut_slashJoin)
    then show ?thesis using assms(1) by (auto simp: list_all_iff goodSeg_def)
  qed
qed


lemma slashJoin_hd: "slashJoin segs = [] \<or> hd (slashJoin segs) = CHR ''/''"
  by (cases segs) auto

lemma cleanLoop_slash: "cleanLoop rt (CHR ''/'' # cs) out dd = cleanLoop rt cs out dd"
  by simp

lemma cleanLoop_dot:
  "cs = [] \<or> hd cs = CHR ''/'' \<Longrightarrow> cleanLoop rt (CHR ''.'' # cs) out dd = cleanLoop rt cs out dd"
  by auto

lemma cleanLoop_segs:
  "list_all goodSeg segs \<Longrightarrow> cleanLoop rt (slashJoin segs) out dd = foldl (appendSeg rt) out segs"
proof (induction segs arbitrary: out)
  case Nil
  then show ?case by simp
next
  case (Cons s rest)
  let ?X = "slashJoin rest"
  from Cons.prems obtain c cs where s: "s = c # cs" by (cases s) (auto simp: goodSeg_def)
  have g: "goodSeg (c # cs)" using Cons.prems s by simp
  have X: "?X = [] \<or> hd ?X = CHR ''/''" by (rule slashJoin_hd)
  have ns: "CHR ''/'' \<notin> set cs" using g by (auto simp: goodSeg_def)
  have "cleanLoop rt (slashJoin (s # rest)) out dd = cleanLoop rt (c # (cs @ ?X)) out dd"
    by (simp add: s del: cleanLoop.simps add: cleanLoop_slash)
  also have "\<dots> = cleanLoop rt ?X (appendSeg rt out s) dd"
    unfolding cleanLoop_elem[OF goodSeg_first[OF g X]] using takeWhile_seg[OF ns X] s
    by (simp add: appendSeg_def)
  also have "\<dots> = foldl (appendSeg rt) (appendSeg rt out s) rest"
    using Cons.IH[of "appendSeg rt out s"] Cons.prems by simp
  finally show ?case by simp
qed

lemma takeWhile_before_slash:
  "takeWhile (\<lambda>x. x \<noteq> CHR ''/'') (cs @ CHR ''/'' # S) = takeWhile (\<lambda>x. x \<noteq> CHR ''/'') cs"
  "dropWhile (\<lambda>x. x \<noteq> CHR ''/'') (cs @ CHR ''/'' # S) = dropWhile (\<lambda>x. x \<noteq> CHR ''/'') cs @ CHR ''/'' # S"
  by (induction cs) auto

lemma cleanLoop_append_segs:
  assumes "list_all goodSeg segs"
  shows "cleanLoop rt (xs @ slashJoin segs) out dd = foldl (appendSeg rt) (cleanLoop rt xs out dd) segs"
proof (cases segs)
  case Nil
  then show ?thesis by simp
next
  case (Cons s0 rest0)
  then obtain S where S: "slashJoin segs = CHR ''/'' # S" by simp
  have "cleanLoop rt (xs @ CHR ''/'' # S) out dd = foldl (appendSeg rt) (cleanLoop rt xs out dd) segs"
  proof (induction xs arbitrary: out dd rule: length_induct)
    case (1 xs)
    have IH: "cleanLoop rt (q @ CHR ''/'' # S) o' d' = foldl (appendSeg rt) (cleanLoop rt q o' d') segs"
      if "length q < length xs" for q o' d'
      using 1 that by blast
    show ?case
    proof (cases xs)
      case Nil
      then show ?thesis using cleanLoop_segs[OF assms, of rt out dd] S by simp
    next
      case (Cons c cs)
      have l2: "(cs @ CHR ''/'' # S = [] \<or> hd (cs @ CHR ''/'' # S) = CHR ''/'') = (cs = [] \<or> hd cs = CHR ''/'')"
        by (cases cs) auto
      have l3: "cs \<noteq> [] \<Longrightarrow>
         (hd (cs @ CHR ''/'' # S) = CHR ''.'' \<and> (tl (cs @ CHR ''/'' # S) = [] \<or> hd (tl (cs @ CHR ''/'' # S)) = CHR ''/''))
         = (hd cs = CHR ''.'' \<and> (tl cs = [] \<or> hd (tl cs) = CHR ''/''))"
        by (cases cs; cases "tl cs") auto
      consider (slash) "c = CHR ''/''"
        | (dot) "c \<noteq> CHR ''/''" "c = CHR ''.'' \<and> (cs = [] \<or> hd cs = CHR ''/'')"
        | (dotdot) "c \<noteq> CHR ''/''" "\<not> (c = CHR ''.'' \<and> (cs = [] \<or> hd cs = CHR ''/''))"
             "c = CHR ''.'' \<and> hd cs = CHR ''.'' \<and> (tl cs = [] \<or> hd (tl cs) = CHR ''/'')"
        | (elem) "c \<noteq> CHR ''/''" "\<not> (c = CHR ''.'' \<and> (cs = [] \<or> hd cs = CHR ''/''))"
             "\<not> (c = CHR ''.'' \<and> hd cs = CHR ''.'' \<and> (tl cs = [] \<or> hd (tl cs) = CHR ''/''))"
        by blast
      then show ?thesis
      proof cases
        case slash
        then show ?thesis using IH[of cs out dd] Cons by (simp del: cleanLoop.simps add: cleanLoop_slash)
      next
        case dot
        then have "cleanLoop rt (xs @ CHR ''/'' # S) out dd = cleanLoop rt (cs @ CHR ''/'' # S) out dd"
          using Cons l2 cleanLoop_dot[of "cs @ CHR ''/'' # S" rt out dd] by (simp del: cleanLoop.simps)
        moreover have "cleanLoop rt xs out dd = cleanLoop rt cs out dd"
          using dot Cons cleanLoop_dot[of cs rt out dd] by (simp del: cleanLoop.simps)
        ultimately show ?thesis using IH[of cs out dd] Cons by (simp del: cleanLoop.simps)
      next
        case dotdot
        then have ne: "cs \<noteq> []" by auto
        have dd2: "\<not> (c = CHR ''.'' \<and> (cs @ CHR ''/'' # S = [] \<or> hd (cs @ CHR ''/'' # S) = CHR ''/''))"
          using dotdot(2) l2 by simp
        have dd3: "c = CHR ''.'' \<and> hd (cs @ CHR ''/'' # S) = CHR ''.'' \<and>
            (tl (cs @ CHR ''/'' # S) = [] \<or> hd (tl (cs @ CHR ''/'' # S)) = CHR ''/'')"
          using dotdot(3) l3[OF ne] by simp
        have tl: "tl (cs @ CHR ''/'' # S) = tl cs @ CHR ''/'' # S" using ne by simp
        have lt: "length (tl cs) < length xs" using Cons by simp
        have a: "cleanLoop rt (xs @ CHR ''/'' # S) out dd =
          (if length out > dd then cleanLoop rt (tl cs @ CHR ''/'' # S) (backtrack dd out) dd
           else if \<not> rt then
             (let out1 = (if length out > 0 then out @ ''/'' else out);
                  out2 = out1 @ ''..''
              in cleanLoop rt (tl cs @ CHR ''/'' # S) out2 (length out2))
           else cleanLoop rt (tl cs @ CHR ''/'' # S) out dd)"
          using cleanLoop_dotdot[OF dotdot(1) dd2 dd3, of rt out dd] Cons tl
          by (simp del: cleanLoop.simps)
        have b: "cleanLoop rt xs out dd =
          (if length out > dd then cleanLoop rt (tl cs) (backtrack dd out) dd
           else if \<not> rt then
             (let out1 = (if length out > 0 then out @ ''/'' else out);
                  out2 = out1 @ ''..''
              in cleanLoop rt (tl cs) out2 (length out2))
           else cleanLoop rt (tl cs) out dd)"
          using cleanLoop_dotdot[OF dotdot, of rt out dd] Cons by (simp del: cleanLoop.simps)
        show ?thesis
          unfolding a b
          by (simp only: Let_def IH[OF lt] if_distrib[where f = "\<lambda>z. foldl (appendSeg rt) z segs"])
      next
        case elem
        have e2: "\<not> (c = CHR ''.'' \<and> (cs @ CHR ''/'' # S = [] \<or> hd (cs @ CHR ''/'' # S) = CHR ''/''))"
          using elem(2) l2 by simp
        have e3: "\<not> (c = CHR ''.'' \<and> hd (cs @ CHR ''/'' # S) = CHR ''.'' \<and>
            (tl (cs @ CHR ''/'' # S) = [] \<or> hd (tl (cs @ CHR ''/'' # S)) = CHR ''/''))"
        proof (cases "cs = []")
          case True
          then show ?thesis by simp
        next
          case False
          then show ?thesis using elem(3) l3[OF False] by simp
        qed
        have lt: "length (dropWhile (\<lambda>x. x \<noteq> CHR ''/'') cs) < length xs"
          using Cons by (simp add: le_imp_less_Suc length_dropWhile_le)
        have a: "cleanLoop rt (xs @ CHR ''/'' # S) out dd =
            cleanLoop rt (dropWhile (\<lambda>x. x \<noteq> CHR ''/'') cs @ CHR ''/'' # S)
              ((if rt \<and> length out \<noteq> 1 \<or> \<not> rt \<and> length out \<noteq> 0 then out @ ''/'' else out)
                 @ c # takeWhile (\<lambda>x. x \<noteq> CHR ''/'') cs) dd"
          using cleanLoop_elem[OF elem(1) e2 e3, of rt out dd] Cons
          by (simp del: cleanLoop.simps add: takeWhile_before_slash)
        have b: "cleanLoop rt xs out dd =
            cleanLoop rt (dropWhile (\<lambda>x. x \<noteq> CHR ''/'') cs)
              ((if rt \<and> length out \<noteq> 1 \<or> \<not> rt \<and> length out \<noteq> 0 then out @ ''/'' else out)
                 @ c # takeWhile (\<lambda>x. x \<noteq> CHR ''/'') cs) dd"
          using cleanLoop_elem[OF elem, of rt out dd] Cons by (simp del: cleanLoop.simps)
        show ?thesis unfolding a b by (rule IH[OF lt])
      qed
    qed
  qed
  then show ?thesis using S by simp
qed

lemma foldl_appendSeg_long:
  "rt \<and> length out \<ge> 2 \<or> \<not> rt \<and> length out \<ge> 1 \<Longrightarrow>
   foldl (appendSeg rt) out segs = out @ slashJoin segs"
proof (induction segs arbitrary: out)
  case Nil
  then show ?case by simp
next
  case (Cons s rest)
  have a: "appendSeg rt out s = out @ CHR ''/'' # s" using Cons.prems by (auto simp: appendSeg_def)
  have "rt \<and> length (appendSeg rt out s) \<ge> 2 \<or> \<not> rt \<and> length (appendSeg rt out s) \<ge> 1"
    using Cons.prems a by auto
  from Cons.IH[OF this] a show ?case by simp
qed

lemma foldl_appendSeg_first:
  assumes "goodSeg s"
  shows "foldl (appendSeg rt) out (s # rest) =
    (if rt \<and> length out \<noteq> 1 \<or> \<not> rt \<and> length out \<noteq> 0 then out @ ''/'' else out)
      @ drop 1 (slashJoin (s # rest))"
proof -
  have ne: "s \<noteq> []" using assms by (simp add: goodSeg_def)
  then have l: "length s \<ge> 1" by (cases s) auto
  have "rt \<and> length (appendSeg rt out s) \<ge> 2 \<or> \<not> rt \<and> length (appendSeg rt out s) \<ge> 1"
    using l by (auto simp: appendSeg_def)
  from foldl_appendSeg_long[OF this, of rest] show ?thesis by (simp add: appendSeg_def)
qed

lemma filepathJoin_below:
  assumes "separator E = CHR ''/''" "root \<noteq> []" "list_all goodSeg segs" "segs \<noteq> []"
  shows "filepathJoin E root (drop 1 (rootedOut segs)) =
    (if hd root = CHR ''/'' \<and> length (cleanBuf root) \<noteq> 1 \<or> hd root \<noteq> CHR ''/'' \<and> length (cleanBuf root) \<noteq> 0
     then cleanBuf root @ ''/'' else cleanBuf root) @ drop 1 (rootedOut segs)"
proof -
  obtain s rest where sr: "segs = s # rest" using assms(4) by (cases segs) auto
  have g: "goodSeg s" using assms(3) sr by simp
  let ?a = "drop 1 (rootedOut segs)"
  have ane: "?a \<noteq> []" using sr g by (simp add: rootedOut_def goodSeg_def)
  have x: "root @ ''/'' @ ?a = root @ slashJoin segs" using sr by (simp add: rootedOut_slashJoin)
  let ?rt = "hd root = CHR ''/''"
  have cb: "cleanBuf (root @ slashJoin segs) = foldl (appendSeg ?rt) (cleanBuf root) segs"
  proof (cases ?rt)
    case True
    have "tl (root @ slashJoin segs) = tl root @ slashJoin segs" using assms(2) by simp
    then show ?thesis using True assms(2) cleanLoop_append_segs[OF assms(3), of True "tl root" "''/''" 1]
      by (simp add: cleanBuf_def)
  next
    case False
    then show ?thesis using assms(2) cleanLoop_append_segs[OF assms(3), of False root "[]" 0]
      by (simp add: cleanBuf_def)
  qed
  have f: "foldl (appendSeg ?rt) (cleanBuf root) segs =
    (if ?rt \<and> length (cleanBuf root) \<noteq> 1 \<or> \<not> ?rt \<and> length (cleanBuf root) \<noteq> 0
     then cleanBuf root @ ''/'' else cleanBuf root) @ ?a"
    using foldl_appendSeg_first[OF g, of ?rt "cleanBuf root" rest] sr
    by (simp add: rootedOut_slashJoin)
  have ne: "cleanBuf (root @ slashJoin segs) \<noteq> []" unfolding cb f using ane by simp
  have "filepathJoin E root ?a = Clean (root @ slashJoin segs)"
    using assms(1,2) ane x by (simp add: filepathJoin_def)
  also have "\<dots> = cleanBuf (root @ slashJoin segs)" using ne assms(2) by (simp add: Clean_def)
  finally show ?thesis unfolding cb f .
qed

lemma backtrack_take: "\<exists>k. backtrack dd out = take k out"
  by (auto simp: backtrack_def)

lemma cleanLoop_unrooted_hd:
  "out = [] \<or> hd out \<noteq> CHR ''/'' \<Longrightarrow>
   cleanLoop False p out dd = [] \<or> hd (cleanLoop False p out dd) \<noteq> CHR ''/''"
proof (induction p arbitrary: out dd rule: length_induct)
  case (1 p)
  show ?case
  proof (cases p)
    case Nil
    with 1(2) show ?thesis by simp
  next
    case (Cons c cs)
    have IH: "cleanLoop False q o' d' = [] \<or> hd (cleanLoop False q o' d') \<noteq> CHR ''/''"
      if "length q < length p" "o' = [] \<or> hd o' \<noteq> CHR ''/''" for q o' d'
      using 1(1) that by blast
    consider (slash) "c = CHR ''/''"
      | (dot) "c \<noteq> CHR ''/''" "c = CHR ''.'' \<and> (cs = [] \<or> hd cs = CHR ''/'')"
      | (dotdot) "c \<noteq> CHR ''/''" "\<not> (c = CHR ''.'' \<and> (cs = [] \<or> hd cs = CHR ''/''))"
           "c = CHR ''.'' \<and> hd cs = CHR ''.'' \<and> (tl cs = [] \<or> hd (tl cs) = CHR ''/'')"
      | (elem) "c \<noteq> CHR ''/''" "\<not> (c = CHR ''.'' \<and> (cs = [] \<or> hd cs = CHR ''/''))"
           "\<not> (c = CHR ''.'' \<and> hd cs = CHR ''.'' \<and> (tl cs = [] \<or> hd (tl cs) = CHR ''/''))"
      by blast
    then show ?thesis
    proof cases
      case slash
      have "cleanLoop False p out dd = cleanLoop False cs out dd"
        using slash Cons by (simp del: cleanLoop.simps add: cleanLoop_slash)
      then show ?thesis using IH[of cs out dd] 1(2) Cons by simp
    next
      case dot
      have "cleanLoop False p out dd = cleanLoop False cs out dd"
        using dot Cons cleanLoop_dot[of cs False out dd] by (simp del: cleanLoop.simps)
      then show ?thesis using IH[of cs out dd] 1(2) Cons by simp
    next
      case dotdot
      then have ne: "cs \<noteq> []" by auto
      have lt: "length (tl cs) < length p" using Cons ne by simp
      from backtrack_take[of dd out] obtain k where k: "backtrack dd out = take k out" ..
      have b: "backtrack dd out = [] \<or> hd (backtrack dd out) \<noteq> CHR ''/''"
        using 1(2) unfolding k by (cases out; cases k) auto
      let ?o2 = "(if length out > 0 then out @ ''/'' else out) @ ''..''"
      have o2: "?o2 = [] \<or> hd ?o2 \<noteq> CHR ''/''" using 1(2) by (cases out) auto
      have "cleanLoop False p out dd =
          (if length out > dd then cleanLoop False (tl cs) (backtrack dd out) dd
           else cleanLoop False (tl cs) ?o2 (length ?o2))"
        using cleanLoop_dotdot[OF dotdot, of False out dd] Cons
        by (simp del: cleanLoop.simps add: Let_def)
      then show ?thesis
        using IH[OF lt b, of dd] IH[OF lt o2, of "length ?o2"] by (simp del: cleanLoop.simps)
    next
      case elem
      let ?r = "dropWhile (\<lambda>x. x \<noteq> CHR ''/'') cs"
      let ?o1 = "(if False \<and> length out \<noteq> 1 \<or> \<not> False \<and> length out \<noteq> 0 then out @ ''/'' else out)
                   @ c # takeWhile (\<lambda>x. x \<noteq> CHR ''/'') cs"
      have lt: "length ?r < length p" using Cons by (simp add: le_imp_less_Suc length_dropWhile_le)
      have o1: "?o1 = [] \<or> hd ?o1 \<noteq> CHR ''/''" using 1(2) elem(1) by (cases out) auto
      have "cleanLoop False p out dd = cleanLoop False ?r ?o1 dd"
        using cleanLoop_elem[OF elem, of False out dd] Cons by (simp del: cleanLoop.simps)
      then show ?thesis using IH[OF lt o1, of dd] by (simp del: cleanLoop.simps)
    qed
  qed
qed

lemma Clean_unrooted:
  assumes "\<not> HasPrefix raw ''/''"
  shows "Clean raw \<noteq> [] \<and> hd (Clean raw) \<noteq> CHR ''/''"
proof (cases raw)
  case Nil
  then show ?thesis by (simp add: Clean_def)
next
  case (Cons c cs)
  with assms have c: "c \<noteq> CHR ''/''" by auto
  have "cleanBuf raw = cleanLoop False raw [] 0" using Cons c by (simp add: cleanBuf_def)
  with cleanLoop_unrooted_hd[of "[]" raw 0]
  have "cleanBuf raw = [] \<or> hd (cleanBuf raw) \<noteq> CHR ''/''" by simp
  then show ?thesis using Cons by (auto simp: Clean_def Let_def)
qed

lemma ToLower_unrooted:
  assumes "lowerRunewise lowerU" "c \<noteq> []" "hd c \<noteq> CHR ''/''"
  shows "ToLower lowerU c \<noteq> [] \<and> hd (ToLower lowerU c) \<noteq> CHR ''/''"
proof -
  let ?s = "takeWhile (\<lambda>x. x \<noteq> CHR ''/'') c"
  let ?r = "dropWhile (\<lambda>x. x \<noteq> CHR ''/'') c"
  have s: "?s \<noteq> []" using assms(2,3) by (cases c) auto
  have ns: "CHR ''/'' \<notin> set ?s" by (auto dest: set_takeWhileD)
  have l: "ToLower lowerU ?s \<noteq> []" "CHR ''/'' \<notin> set (ToLower lowerU ?s)"
    using lowerRunewise_nonempty[OF assms(1) s] lowerRunewise_noslash[OF assms(1) ns] by simp_all
  then have h: "hd (ToLower lowerU ?s) \<noteq> CHR ''/''" by (cases "ToLower lowerU ?s") auto
  show ?thesis
  proof (cases ?r)
    case Nil
    then have "c = ?s" by (metis append_Nil2 takeWhile_dropWhile_id)
    with l h show ?thesis by simp
  next
    case (Cons x b)
    then have x: "x = CHR ''/''" using hd_dropWhile[of "\<lambda>x. x \<noteq> CHR ''/''" c] by force
    have "c = ?s @ CHR ''/'' # b" using Cons x takeWhile_dropWhile_id[of "\<lambda>x. x \<noteq> CHR ''/''" c] by simp
    then have "ToLower lowerU c = ToLower lowerU ?s @ CHR ''/'' # ToLower lowerU b"
      using lowerRunewise_split[OF assms(1), of ?s b] by simp
    with l h show ?thesis by simp
  qed
qed

lemma asset_segments:
  assumes "lowerRunewise lowU"
    "routesSlashToSlash table (ToLower lowU (Clean raw))"
    "findSearchPath lowU table raw = (Some srch, asset)"
  shows "\<exists>segs. list_all goodSeg segs \<and> asset = drop 1 (rootedOut segs)"
proof -
  let ?p = "ToLower lowU (Clean raw)"
  from findSearchPath_Some[OF assms(3)] obtain i e where
    ie: "i < length table" "e > 0" "matchAt0 (rmatch (table ! i)) ?p = Some e" "asset = drop e ?p"
    by blast
  have "table ! i \<in> set table" using ie(1) by simp
  with assms(2) ie(2,3) have e: "e \<le> length ?p" "?p ! 0 = CHR ''/''" "?p ! (e - 1) = CHR ''/''"
    by (auto simp: routesSlashToSlash_def)
  have rooted: "HasPrefix raw ''/''"
  proof (rule ccontr)
    assume "\<not> HasPrefix raw ''/''"
    from Clean_unrooted[OF this] ToLower_unrooted[OF assms(1)]
    have "?p \<noteq> [] \<and> hd ?p \<noteq> CHR ''/''" by blast
    then show False using e(2) by (cases ?p) auto
  qed
  then obtain rest where raw: "raw = CHR ''/'' # rest" by (cases raw) auto
  from Clean_rooted[of rest] obtain segs0 where
    s0: "list_all goodSeg segs0" "Clean (CHR ''/'' # rest) = rootedOut segs0"
    by blast
  have p: "?p = rootedOut (map (ToLower lowU) segs0)"
    using ToLower_rootedOut[OF assms(1)] s0(2) raw by simp
  have g: "list_all goodSeg (map (ToLower lowU) segs0)"
    using list_all_goodSeg_lower[OF assms(1) s0(1)] .
  from asset_shape[OF g ie(2)] e p ie(4) show ?thesis by simp
qed

text \<open>
  Claim C10, with the condition on the routes under which the code guarantees it. For every
  request path, and a routing table in which every match at the beginning of the path begins
  and ends with a slash, the asset path of a resolved request is a sequence of good segments
  joined by single slashes: it has no leading slash and no \<^verbatim>\<open>..\<close> segment (nor an empty or
  \<^verbatim>\<open>.\<close> segment). Joined under a search directory on a platform whose separator is a slash,
  it gives the cleaned directory followed by the asset path unchanged, so the file opened lies
  below the directory. On a path with a byte outside ASCII this rests on \<^verbatim>\<open>strings.ToLower\<close>
  working rune by rune.
\<close>

theorem asset_path_no_traversal:
  assumes "lowerRunewise lowU"
    "routesSlashToSlash table (ToLower lowU (Clean raw))"
    "findSearchPath lowU table raw = (Some srch, asset)"
  shows "(\<exists>segs. list_all goodSeg segs \<and> asset = drop 1 (rootedOut segs))
    \<and> \<not> HasPrefix asset ''/''
    \<and> ''..'' \<notin> set (splitOn (CHR ''/'') asset)
    \<and> (separator E = CHR ''/'' \<and> root \<noteq> [] \<and> asset \<noteq> [] \<longrightarrow>
         filepathJoin E root asset = cleanBuf root @ asset \<or>
         filepathJoin E root asset = cleanBuf root @ ''/'' @ asset)"
proof -
  from asset_segments[OF assms] obtain segs where
    s: "list_all goodSeg segs" "asset = drop 1 (rootedOut segs)" by blast
  have 1: "\<exists>segs. list_all goodSeg segs \<and> asset = drop 1 (rootedOut segs)" using s by blast
  note 23 = asset_props[OF s]
  have 4: "separator E = CHR ''/'' \<and> root \<noteq> [] \<and> asset \<noteq> [] \<longrightarrow>
         filepathJoin E root asset = cleanBuf root @ asset \<or>
         filepathJoin E root asset = cleanBuf root @ ''/'' @ asset"
  proof (intro impI, elim conjE)
    assume h: "separator E = CHR ''/''" "root \<noteq> []" "asset \<noteq> []"
    have "segs \<noteq> []" using h(3) s(2) by (auto simp: rootedOut_def)
    from filepathJoin_below[OF h(1,2) s(1) this] s(2)
    show "filepathJoin E root asset = cleanBuf root @ asset \<or>
         filepathJoin E root asset = cleanBuf root @ ''/'' @ asset"
      by (simp split: if_splits)
  qed
  from 1 23 4 show ?thesis by blast
qed

theorem asset_path_no_traversal_witness:
  "lowerRunewise (uLower exampleEnv)
   \<and> routesSlashToSlash (searchPaths exampleEnv)
        (ToLower (uLower exampleEnv)
           (Clean (''/BaseQ2/maps/../Maps/./Caf'' @ [CHR 0xC3, CHR 0x89] @ ''.bsp'')))
   \<and> findSearchPath (uLower exampleEnv) (searchPaths exampleEnv)
        (''/BaseQ2/maps/../Maps/./Caf'' @ [CHR 0xC3, CHR 0x89] @ ''.bsp'')
       = (Some [\<lparr>spath = ''/srv/q2/baseq2/pak0.pkz'', files = Some exampleArchive\<rparr>,
                \<lparr>spath = ''/srv/q2/baseq2'', files = None\<rparr>],
          ''maps/caf'' @ [CHR 0xC3, CHR 0x89] @ ''.bsp'')
   \<and> \<not> HasPrefix (''maps/caf'' @ [CHR 0xC3, CHR 0x89] @ ''.bsp'') ''/''
   \<and> ''..'' \<notin> set (splitOn (CHR ''/'') (''maps/caf'' @ [CHR 0xC3, CHR 0x89] @ ''.bsp''))
   \<and> filepathJoin exampleEnv ''/srv/q2/baseq2'' (''maps/caf'' @ [CHR 0xC3, CHR 0x89] @ ''.bsp'')
       = ''/srv/q2/baseq2/maps/caf'' @ [CHR 0xC3, CHR 0x89] @ ''.bsp''"
proof -
  let ?raw = "''/BaseQ2/maps/../Maps/./Caf'' @ [CHR 0xC3, CHR 0x89] @ ''.bsp''"
  let ?a = "''maps/caf'' @ [CHR 0xC3, CHR 0x89] @ ''.bsp''"
  have u: "uLower exampleEnv = map lowerByte" by (simp add: exampleEnv_def)
  have h1: "lowerRunewise (uLower exampleEnv)" unfolding u by (rule lowerRunewise_bytewise)
  have p: "ToLower (uLower exampleEnv) (Clean ?raw) = ''/baseq2/'' @ ?a" by code_simp
  have h3: "routesSlashToSlash (searchPaths exampleEnv) (ToLower (uLower exampleEnv) (Clean ?raw))"
    unfolding p by (simp add: routesSlashToSlash_def exampleEnv_def matchAt0_def anchoredLiteral_def)
  have h4: "findSearchPath (uLower exampleEnv) (searchPaths exampleEnv) ?raw
       = (Some [\<lparr>spath = ''/srv/q2/baseq2/pak0.pkz'', files = Some exampleArchive\<rparr>,
                \<lparr>spath = ''/srv/q2/baseq2'', files = None\<rparr>], ?a)"
    using p by (simp add: findSearchPath_def exampleEnv_def anchoredLiteral_def)
  note T = asset_path_no_traversal[OF h1 h3 h4, of exampleEnv "''/srv/q2/baseq2''"]
  from T have c1: "\<not> HasPrefix ?a ''/''" by blast
  from T have c2: "''..'' \<notin> set (splitOn (CHR ''/'') ?a)" by blast
  have j: "filepathJoin exampleEnv ''/srv/q2/baseq2'' ?a = ''/srv/q2/baseq2/'' @ ?a"
    by code_simp
  from h1 h3 h4 c1 c2 j show ?thesis by simp
qed

text \<open>
  Claim C10 as stated fails when a route pattern does not end with a slash: with the route
  \<^verbatim>\<open>^/baseq2\<close> the request path \<^verbatim>\<open>/baseq2../server.cfg\<close> is already clean, the asset
  path is \<^verbatim>\<open>../server.cfg\<close>, and the file served is outside the search directory. It also
  fails when a route pattern matches a beginning without a slash: with the route \<^verbatim>\<open>^\.\./\<close>,
  which ends with a slash, the request path \<^verbatim>\<open>../../server.cfg\<close> is already clean and gives
  the same asset path and the same file.
\<close>

theorem asset_path_traversal_counterexample:
  "findSearchPath (map lowerByte)
      [\<lparr>rmatch = anchoredLiteral ''/baseq2'',
        search = [\<lparr>spath = ''/srv/q2/baseq2'', files = None\<rparr>]\<rparr>] ''/baseq2../server.cfg''
     = (Some [\<lparr>spath = ''/srv/q2/baseq2'', files = None\<rparr>], ''../server.cfg'')
   \<and> findSearchPath (map lowerByte)
      [\<lparr>rmatch = anchoredLiteral ''../'',
        search = [\<lparr>spath = ''/srv/q2/baseq2'', files = None\<rparr>]\<rparr>] ''../../server.cfg''
     = (Some [\<lparr>spath = ''/srv/q2/baseq2'', files = None\<rparr>], ''../server.cfg'')
   \<and> ''..'' \<in> set (splitOn (CHR ''/'') ''../server.cfg'')
   \<and> filepathJoin exampleEnv ''/srv/q2/baseq2'' ''../server.cfg'' = ''/srv/q2/server.cfg''
   \<and> handler (exampleEnv\<lparr>searchPaths :=
          [\<lparr>rmatch = anchoredLiteral ''/baseq2'',
            search = [\<lparr>spath = ''/srv/q2/baseq2'', files = None\<rparr>]\<rparr>],
          dirWhiteList := [anchoredLiteral []]\<rparr>)
        (exampleRequest ''/baseq2../server.cfg'')
     = ServeContent [(''Content-Type'', ''application/x-quake2-data'')]
         (exampleRequest ''/baseq2../server.cfg'') ''rcon_password''
   \<and> handler (exampleEnv\<lparr>searchPaths :=
          [\<lparr>rmatch = anchoredLiteral ''../'',
            search = [\<lparr>spath = ''/srv/q2/baseq2'', files = None\<rparr>]\<rparr>],
          dirWhiteList := [anchoredLiteral []]\<rparr>)
        (exampleRequest ''../../server.cfg'')
     = ServeContent [(''Content-Type'', ''application/x-quake2-data'')]
         (exampleRequest ''../../server.cfg'') ''rcon_password''"
proof -
  have p: "ToLower (map lowerByte) (Clean ''/baseq2../server.cfg'') = ''/baseq2../server.cfg''"
    by code_simp
  have q: "ToLower (map lowerByte) (Clean ''../../server.cfg'') = ''../../server.cfg''"
    by code_simp
  have 1: "findSearchPath (map lowerByte)
      [\<lparr>rmatch = anchoredLiteral ''/baseq2'',
        search = [\<lparr>spath = ''/srv/q2/baseq2'', files = None\<rparr>]\<rparr>] ''/baseq2../server.cfg''
     = (Some [\<lparr>spath = ''/srv/q2/baseq2'', files = None\<rparr>], ''../server.cfg'')"
    using p by (simp add: findSearchPath_def anchoredLiteral_def)
  have 2: "findSearchPath (map lowerByte)
      [\<lparr>rmatch = anchoredLiteral ''../'',
        search = [\<lparr>spath = ''/srv/q2/baseq2'', files = None\<rparr>]\<rparr>] ''../../server.cfg''
     = (Some [\<lparr>spath = ''/srv/q2/baseq2'', files = None\<rparr>], ''../server.cfg'')"
    using q by (simp add: findSearchPath_def anchoredLiteral_def)
  have 3: "''..'' \<in> set (splitOn (CHR ''/'') ''../server.cfg'')" by simp
  have 4: "filepathJoin exampleEnv ''/srv/q2/baseq2'' ''../server.cfg'' = ''/srv/q2/server.cfg''"
    by code_simp
  have 5: "handler (exampleEnv\<lparr>searchPaths :=
          [\<lparr>rmatch = anchoredLiteral ''/baseq2'',
            search = [\<lparr>spath = ''/srv/q2/baseq2'', files = None\<rparr>]\<rparr>],
          dirWhiteList := [anchoredLiteral []]\<rparr>)
        (exampleRequest ''/baseq2../server.cfg'')
     = ServeContent [(''Content-Type'', ''application/x-quake2-data'')]
         (exampleRequest ''/baseq2../server.cfg'') ''rcon_password''"
    by code_simp
  have 6: "handler (exampleEnv\<lparr>searchPaths :=
          [\<lparr>rmatch = anchoredLiteral ''../'',
            search = [\<lparr>spath = ''/srv/q2/baseq2'', files = None\<rparr>]\<rparr>],
          dirWhiteList := [anchoredLiteral []]\<rparr>)
        (exampleRequest ''../../server.cfg'')
     = ServeContent [(''Content-Type'', ''application/x-quake2-data'')]
         (exampleRequest ''../../server.cfg'') ''rcon_password''"
    by code_simp
  from 1 2 3 4 5 6 show ?thesis by (intro conjI)
qed

section \<open>What the handler answers\<close>

lemma serveLoop_skip:
  "\<forall>t\<in>set pre. \<not> yields E p t \<Longrightarrow>
   serveLoop E r p (allowPakFor E p) (allowDirFor E p) g d (pre @ rest)
   = serveLoop E r p (allowPakFor E p) (allowDirFor E p) g d rest"
  by (induction pre) (auto simp: yields_def split: option.splits)

lemma serveLoop_none:
  "\<forall>t\<in>set srch. \<not> yields E p t \<Longrightarrow>
   serveLoop E r p (allowPakFor E p) (allowDirFor E p) g d srch = Response 404 [] []"
  using serveLoop_skip[of srch E p r g d "[]"] by simp

lemma handler_unfold:
  assumes "\<not> tampered E r" "refererOk E r"
    "findSearchPath (uLower E) (searchPaths E) (urlPath r) = (Some srch, p)" "p \<noteq> []"
    "allowPakFor E p \<or> allowDirFor E p"
  shows "handler E r = serveLoop E r p (allowPakFor E p) (allowDirFor E p)
           (fst (parseAcceptEncoding E r)) (snd (parseAcceptEncoding E r)) srch"
  using assms
  by (auto simp: handler_def tampered_def refererOk_def allowPakFor_def allowDirFor_def
      Let_def split_beta)

lemma serveLoop_archive_hit:
  assumes "files s = Some m" "m p = Some entry" "openFile E (spath s) = Some f" "allowPak"
  shows "serveLoop E r p allowPak allowDir g d (s # ss) =
    (let reader = (if reqMethod r \<noteq> ''HEAD''
                   then Some (readSection f (offset entry) (unat (esize entry))) else None);
         h = setHeader ''Content-Type'' (contentType E) []
     in if emethod entry \<noteq> 0 then
          (if g then handleGzip entry h reader
           else if d then handleRaw entry h reader
           else handleInflate E entry h reader)
        else handleRaw entry h reader)"
  using assms by simp


lemma length_putUint32 [simp]: "length (putUint32 v) = 4"
  by (simp add: putUint32_def)

text \<open>
  Claim C2. A request that passes the separator and referer tests, resolves to a non-empty asset
  path the archive gate admits, and whose first yielding backing store is an archive holding
  the asset as an entry with a method other than 0, with a request method other than
  \<^verbatim>\<open>HEAD\<close>, is answered 200 as follows. If the client accepts gzip: the body is the 10-byte
  gzip header (1F 8B, method 8, flags 0, the entry's modification time in 4 bytes, extra flags
  0, OS 3), the stored bytes of the entry unchanged, and the 8-byte trailer of CRC-32 and
  uncompressed size; Content-Length is the stored size plus 18 and Content-Encoding is gzip.
  Otherwise, if the client accepts deflate: the body is the stored bytes, Content-Encoding is
  deflate and Content-Length is the stored size. Otherwise the body is the inflated bytes,
  Content-Length is the declared uncompressed size and no Content-Encoding is set. The order of
  preference is gzip, deflate, inflate.
\<close>

theorem deflate_entry_negotiation:
  assumes "\<not> tampered E r" "refererOk E r"
    "findSearchPath (uLower E) (searchPaths E) (urlPath r) = (Some (pre @ s # post), p)" "p \<noteq> []"
    "\<forall>t\<in>set pre. \<not> yields E p t"
    "allowPakFor E p" "files s = Some m" "m p = Some entry" "openFile E (spath s) = Some f"
    "emethod entry \<noteq> 0" "reqMethod r \<noteq> ''HEAD''"
  shows "handler E r =
    (let raw = readSection f (offset entry) (unat (esize entry));
         ct = (''Content-Type'', contentType E)
     in if fst (parseAcceptEncoding E r) then
          Response 200
            [ct, (''Content-Length'', FormatInt (unat (esize entry) + 18)),
             (''Content-Encoding'', ''gzip'')]
            (([CHR 0x1F, CHR 0x8B, CHR 0x08, CHR 0x00] @ putUint32 (mtime entry) @ [CHR 0x00, CHR 0x03])
             @ raw
             @ (putUint32 (filecrc entry) @ putUint32 (filelen entry)))
        else if snd (parseAcceptEncoding E r) then
          Response 200
            [ct, (''Content-Length'', FormatInt (unat (esize entry))),
             (''Content-Encoding'', ''deflate'')]
            raw
        else
          Response 200 [ct, (''Content-Length'', FormatInt (unat (filelen entry)))] (inflate E raw))
    \<and> length ([CHR 0x1F, CHR 0x8B, CHR 0x08, CHR 0x00] @ putUint32 (mtime entry) @ [CHR 0x00, CHR 0x03]) = 10
    \<and> length (putUint32 (filecrc entry) @ putUint32 (filelen entry)) = 8"
proof -
  have u: "handler E r = serveLoop E r p (allowPakFor E p) (allowDirFor E p)
           (fst (parseAcceptEncoding E r)) (snd (parseAcceptEncoding E r)) (pre @ s # post)"
    using handler_unfold[OF assms(1,2,3,4)] assms(6) by blast
  have k: "serveLoop E r p (allowPakFor E p) (allowDirFor E p)
           (fst (parseAcceptEncoding E r)) (snd (parseAcceptEncoding E r)) (pre @ s # post)
      = serveLoop E r p (allowPakFor E p) (allowDirFor E p)
           (fst (parseAcceptEncoding E r)) (snd (parseAcceptEncoding E r)) (s # post)"
    by (rule serveLoop_skip[OF assms(5)])
  have h: "serveLoop E r p (allowPakFor E p) (allowDirFor E p)
           (fst (parseAcceptEncoding E r)) (snd (parseAcceptEncoding E r)) (s # post) =
    (let reader = (if reqMethod r \<noteq> ''HEAD''
                   then Some (readSection f (offset entry) (unat (esize entry))) else None);
         h = setHeader ''Content-Type'' (contentType E) []
     in if emethod entry \<noteq> 0 then
          (if fst (parseAcceptEncoding E r) then handleGzip entry h reader
           else if snd (parseAcceptEncoding E r) then handleRaw entry h reader
           else handleInflate E entry h reader)
        else handleRaw entry h reader)"
    by (rule serveLoop_archive_hit[OF assms(7,8,9,6)])
  show ?thesis
    unfolding u k h using assms(10,11)
    by (simp add: Let_def handleGzip_def handleRaw_def handleInflate_def setHeader_def)
qed

text \<open>
  Claim C6. A request whose asset path both gates reject gets exactly the response of a request
  whose asset path no backing store yields: status 404, no header set by the handler, an empty
  body; it is never a 403.
\<close>

theorem gate_rejection_is_not_found:
  assumes "\<not> tampered E r1" "refererOk E r1"
    "findSearchPath (uLower E) (searchPaths E) (urlPath r1) = (Some srch1, p1)" "p1 \<noteq> []"
    "\<not> allowPakFor E p1" "\<not> allowDirFor E p1"
    and "\<not> tampered E r2" "refererOk E r2"
    "findSearchPath (uLower E) (searchPaths E) (urlPath r2) = (Some srch2, p2)" "p2 \<noteq> []"
    "\<forall>t\<in>set srch2. \<not> yields E p2 t"
  shows "handler E r1 = handler E r2 \<and> handler E r1 = Response 404 [] []"
proof -
  have 1: "handler E r1 = Response 404 [] []"
    using assms(1-6)
    by (auto simp: handler_def tampered_def refererOk_def allowPakFor_def allowDirFor_def)
  have 2: "handler E r2 = Response 404 [] []"
  proof (cases "allowPakFor E p2 \<or> allowDirFor E p2")
    case True
    from handler_unfold[OF assms(7,8,9,10) True] serveLoop_none[OF assms(11)]
    show ?thesis by simp
  next
    case False
    then show ?thesis using assms(7-10)
      by (auto simp: handler_def tampered_def refererOk_def allowPakFor_def allowDirFor_def)
  qed
  from 1 2 show ?thesis by simp
qed

lemma handleGzip_headers:
  "\<exists>h b. handleGzip entry [(''Content-Type'', ct)] rd = Response 200 h b \<and>
      getHeader ''Content-Type'' h = Some ct \<and>
      (\<exists>n. getHeader ''Content-Length'' h = Some (FormatInt n)) \<and>
      getHeader ''Content-Encoding'' h \<in> {None, Some ''gzip'', Some ''deflate''}"
  by (cases rd) (auto simp: handleGzip_def setHeader_def getHeader_def Let_def)

lemma handleRaw_headers:
  "\<exists>h b. handleRaw entry [(''Content-Type'', ct)] rd = Response 200 h b \<and>
      getHeader ''Content-Type'' h = Some ct \<and>
      (\<exists>n. getHeader ''Content-Length'' h = Some (FormatInt n)) \<and>
      getHeader ''Content-Encoding'' h \<in> {None, Some ''gzip'', Some ''deflate''}"
  by (cases rd) (auto simp: handleRaw_def setHeader_def getHeader_def Let_def)

lemma handleInflate_headers:
  "\<exists>h b. handleInflate E entry [(''Content-Type'', ct)] rd = Response 200 h b \<and>
      getHeader ''Content-Type'' h = Some ct \<and>
      (\<exists>n. getHeader ''Content-Length'' h = Some (FormatInt n)) \<and>
      getHeader ''Content-Encoding'' h \<in> {None, Some ''gzip'', Some ''deflate''}"
  by (cases rd) (auto simp: handleInflate_def setHeader_def getHeader_def Let_def)

lemma serveLoop_hit:
  assumes "yields E p s"
  shows "(\<exists>h b. serveLoop E r p (allowPakFor E p) (allowDirFor E p) g d (s # ss) = Response 200 h b \<and>
      getHeader ''Content-Type'' h = Some (contentType E) \<and>
      (\<exists>n. getHeader ''Content-Length'' h = Some (FormatInt n)) \<and>
      getHeader ''Content-Encoding'' h \<in> {None, Some ''gzip'', Some ''deflate''})
    \<or> (\<exists>f. serveLoop E r p (allowPakFor E p) (allowDirFor E p) g d (s # ss)
           = ServeContent [(''Content-Type'', contentType E)] r f)"
proof (cases "files s")
  case None
  with assms obtain f where "allowDirFor E p" "openFile E (filepathJoin E (spath s) p) = Some f"
    by (auto simp: yields_def)
  with None show ?thesis by (simp add: setHeader_def)
next
  case (Some m)
  with assms obtain entry f where
    h: "allowPakFor E p" "m p = Some entry" "openFile E (spath s) = Some f"
    by (auto simp: yields_def)
  show ?thesis
    unfolding serveLoop_archive_hit[OF Some h(2,3,1)] Let_def
    using handleGzip_headers[where entry = entry and ct = "contentType E"]
      handleRaw_headers[where entry = entry and ct = "contentType E"]
      handleInflate_headers[where entry = entry and ct = "contentType E" and E = E]
    by (simp add: setHeader_def)
qed

lemma handler_served:
  assumes "\<not> tampered E r" "refererOk E r" "\<not> notFoundCond E r"
  shows "(\<exists>h b. handler E r = Response 200 h b \<and>
      getHeader ''Content-Type'' h = Some (contentType E) \<and>
      (\<exists>n. getHeader ''Content-Length'' h = Some (FormatInt n)) \<and>
      getHeader ''Content-Encoding'' h \<in> {None, Some ''gzip'', Some ''deflate''})
    \<or> (\<exists>f. handler E r = ServeContent [(''Content-Type'', contentType E)] r f)"
proof -
  from assms(3) obtain srch p where
    f: "findSearchPath (uLower E) (searchPaths E) (urlPath r) = (Some srch, p)"
    and p: "p \<noteq> []" and g: "allowPakFor E p \<or> allowDirFor E p"
    and y: "\<exists>s\<in>set srch. yields E p s"
    by (cases "findSearchPath (uLower E) (searchPaths E) (urlPath r)")
       (auto simp: notFoundCond_def split: option.splits)
  from y obtain pre s post where
    sp: "srch = pre @ s # post" "yields E p s" "\<forall>t\<in>set pre. \<not> yields E p t"
    using split_list_first_prop[of srch "yields E p"] by blast
  have "handler E r = serveLoop E r p (allowPakFor E p) (allowDirFor E p)
           (fst (parseAcceptEncoding E r)) (snd (parseAcceptEncoding E r)) (s # post)"
    using handler_unfold[OF assms(1,2) f p g] serveLoop_skip[OF sp(3)] sp(1) by simp
  then show ?thesis using serveLoop_hit[OF sp(2)] by simp
qed

lemma handler_not_found:
  assumes "\<not> tampered E r" "refererOk E r" "notFoundCond E r"
  shows "handler E r = Response 404 [] []"
proof (cases "findSearchPath (uLower E) (searchPaths E) (urlPath r)")
  case (Pair so p)
  show ?thesis
  proof (cases so)
    case None
    with Pair assms(1,2) show ?thesis
      by (auto simp: handler_def tampered_def refererOk_def)
  next
    case (Some srch)
    show ?thesis
    proof (cases "p = [] \<or> (\<not> allowPakFor E p \<and> \<not> allowDirFor E p)")
      case True
      with Pair Some assms(1,2) show ?thesis
        by (auto simp: handler_def tampered_def refererOk_def allowPakFor_def allowDirFor_def)
    next
      case False
      with assms(3) Pair Some have n: "\<forall>t\<in>set srch. \<not> yields E p t"
        by (auto simp: notFoundCond_def)
      from False have "p \<noteq> []" "allowPakFor E p \<or> allowDirFor E p" by auto
      from handler_unfold[OF assms(1,2) Pair[unfolded Some] this] serveLoop_none[OF n]
      show ?thesis by simp
    qed
  qed
qed

lemma handler_forbidden:
  assumes "tampered E r \<or> \<not> refererOk E r"
  shows "handler E r = closeWithError r 403"
  using assms by (auto simp: handler_def tampered_def refererOk_def)

lemma respond_Response: "handler E r = Response c h b \<Longrightarrow> respond E r = Response c h b"
  by (simp add: respond_def)

lemma respond_ServeContent:
  "handler E r = ServeContent h r1 f \<Longrightarrow> respond E r = serveContent E h r1 f"
  by (simp add: respond_def)

lemma statusCode_cases: "statusCode st \<in> {200, 206, 304, 412, 416, 500}"
  by (cases st) simp_all

lemma rangeSpec_Nil: "rangeSpec [] = None"
  by (simp add: rangeSpec_def)

lemma serveContent_status:
  "\<exists>c h1 b. serveContent E h r f = Response c h1 b \<and> c \<in> {200, 206, 304, 412, 416, 500}"
proof -
  have p: "\<exists>c h1 b. (case x of (st, h1, body) \<Rightarrow> Response (statusCode st) h1 body) = Response c h1 b
      \<and> c \<in> {200, 206, 304, 412, 416, 500}" for x :: "libStatus \<times> headers \<times> string"
    using statusCode_cases by (cases x) auto
  show ?thesis
    unfolding serveContent_def Let_def
    using p[of "serveConditional E h r f"] p[of "serveRanges E h r f"]
    by (auto split: option.splits)
qed

lemma serveContent_plain:
  assumes "hdrRange r = []" "hdrIfMatch r = []" "hdrIfNoneMatch r = []"
  shows "serveContent E [(''Content-Type'', ct)] r f =
     Response 200
       [(''Content-Type'', ct), (''Accept-Ranges'', ''bytes''), (''Content-Length'', FormatInt (length f))]
       (if reqMethod r \<noteq> ''HEAD'' then f else [])"
  using assms by (simp add: serveContent_def setHeader_def)

lemma serveContent_range:
  assumes "rangeSpec (hdrRange r) = Some (a, b)" "a < length f" "a \<le> b"
    "hdrIfRange r = []" "hdrIfMatch r = []" "hdrIfNoneMatch r = []"
  shows "serveContent E [(''Content-Type'', ct)] r f =
     Response 206
       [(''Content-Type'', ct),
        (''Content-Range'', ''bytes '' @ FormatInt a @ ''-'' @ FormatInt (min b (length f - 1)) @ ''/''
            @ FormatInt (length f)),
        (''Accept-Ranges'', ''bytes''),
        (''Content-Length'', FormatInt (min b (length f - 1) - a + 1))]
       (if reqMethod r \<noteq> ''HEAD'' then take (min b (length f - 1) - a + 1) (drop a f) else [])"
proof -
  have ne: "hdrRange r \<noteq> []" using assms(1) rangeSpec_Nil by auto
  show ?thesis
    using assms ne by (simp add: serveContent_def setHeader_def Let_def)
qed

text \<open>
  Claim C8, with the answers of the library for a file of a directory. The response has status
  403 exactly when the platform's path separator is not a slash and occurs in the raw request
  path, or the referer does not match the referer pattern; it has status 404 exactly when these
  tests pass and there is no route, or the asset path is empty, or both gates reject it, or no
  backing store yields it. Otherwise either an archive entry is served with status 200, the
  configured Content-Type, a Content-Length and at most a Content-Encoding of gzip or deflate,
  or a file opened below a directory is answered by \<^verbatim>\<open>http.ServeContent\<close> with the configured
  Content-Type: with status 200 and the length of the file as Content-Length when the request
  has no \<^verbatim>\<open>Range\<close>, \<^verbatim>\<open>If-Match\<close> and \<^verbatim>\<open>If-None-Match\<close> header, with status 206, a
  \<^verbatim>\<open>Content-Range\<close> and the length of the part when it asks for one satisfiable range, and
  always with one of the statuses 200, 206, 304, 412, 416 and 500.
\<close>

theorem handler_status:
  "((\<exists>h b. respond E r = Response 403 h b) \<longleftrightarrow> tampered E r \<or> \<not> refererOk E r)
   \<and> ((\<exists>h b. respond E r = Response 404 h b) \<longleftrightarrow>
        \<not> tampered E r \<and> refererOk E r \<and> notFoundCond E r)
   \<and> (\<not> tampered E r \<and> refererOk E r \<and> notFoundCond E r \<longrightarrow> respond E r = Response 404 [] [])
   \<and> (\<not> tampered E r \<and> refererOk E r \<and> \<not> notFoundCond E r \<longrightarrow>
        (\<exists>h b. handler E r = Response 200 h b \<and> respond E r = Response 200 h b \<and>
           getHeader ''Content-Type'' h = Some (contentType E) \<and>
           (\<exists>n. getHeader ''Content-Length'' h = Some (FormatInt n)) \<and>
           getHeader ''Content-Encoding'' h \<in> {None, Some ''gzip'', Some ''deflate''})
        \<or> (\<exists>f. handler E r = ServeContent [(''Content-Type'', contentType E)] r f \<and>
              (\<exists>c h b. respond E r = Response c h b \<and> c \<in> {200, 206, 304, 412, 416, 500}) \<and>
              (hdrRange r = [] \<and> hdrIfMatch r = [] \<and> hdrIfNoneMatch r = [] \<longrightarrow>
                 respond E r =
                   Response 200
                     [(''Content-Type'', contentType E), (''Accept-Ranges'', ''bytes''),
                      (''Content-Length'', FormatInt (length f))]
                     (if reqMethod r \<noteq> ''HEAD'' then f else [])) \<and>
              (\<forall>a b. rangeSpec (hdrRange r) = Some (a, b) \<and> a < length f \<and> a \<le> b \<and>
                     hdrIfRange r = [] \<and> hdrIfMatch r = [] \<and> hdrIfNoneMatch r = [] \<longrightarrow>
                 respond E r =
                   Response 206
                     [(''Content-Type'', contentType E),
                      (''Content-Range'',
                       ''bytes '' @ FormatInt a @ ''-'' @ FormatInt (min b (length f - 1)) @ ''/''
                         @ FormatInt (length f)),
                      (''Accept-Ranges'', ''bytes''),
                      (''Content-Length'', FormatInt (min b (length f - 1) - a + 1))]
                     (if reqMethod r \<noteq> ''HEAD''
                      then take (min b (length f - 1) - a + 1) (drop a f) else []))))"
proof -
  consider (forb) "tampered E r \<or> \<not> refererOk E r"
    | (nf) "\<not> tampered E r" "refererOk E r" "notFoundCond E r"
    | (ok) "\<not> tampered E r" "refererOk E r" "\<not> notFoundCond E r"
    by blast
  then show ?thesis
  proof cases
    case forb
    have "respond E r = closeWithError r 403"
      using handler_forbidden[OF forb] by (simp add: respond_def closeWithError_def)
    then show ?thesis using forb by (auto simp: closeWithError_def)
  next
    case nf
    have "respond E r = Response 404 [] []"
      using handler_not_found[OF nf] by (simp add: respond_def)
    then show ?thesis using nf by auto
  next
    case ok
    from handler_served[OF ok] consider
      (arch) h b where "handler E r = Response 200 h b"
        "getHeader ''Content-Type'' h = Some (contentType E)"
        "\<exists>n. getHeader ''Content-Length'' h = Some (FormatInt n)"
        "getHeader ''Content-Encoding'' h \<in> {None, Some ''gzip'', Some ''deflate''}"
      | (dir) f where "handler E r = ServeContent [(''Content-Type'', contentType E)] r f"
      by blast
    then show ?thesis
    proof cases
      case arch
      have "respond E r = Response 200 h b" using arch(1) by (rule respond_Response)
      with arch ok show ?thesis by auto
    next
      case dir
      have re: "respond E r = serveContent E [(''Content-Type'', contentType E)] r f"
        using dir by (rule respond_ServeContent)
      from serveContent_status[of E "[(''Content-Type'', contentType E)]" r f] obtain c h1 b where
        st: "respond E r = Response c h1 b" "c \<in> {200, 206, 304, 412, 416, 500}"
        unfolding re by blast
      have n403: "\<not> (\<exists>h b. respond E r = Response 403 h b)" using st by auto
      have n404: "\<not> (\<exists>h b. respond E r = Response 404 h b)" using st by auto
      have pl: "hdrRange r = [] \<and> hdrIfMatch r = [] \<and> hdrIfNoneMatch r = [] \<longrightarrow>
                 respond E r =
                   Response 200
                     [(''Content-Type'', contentType E), (''Accept-Ranges'', ''bytes''),
                      (''Content-Length'', FormatInt (length f))]
                     (if reqMethod r \<noteq> ''HEAD'' then f else [])"
        unfolding re using serveContent_plain[of r E "contentType E" f] by blast
      have rg: "\<forall>a b. rangeSpec (hdrRange r) = Some (a, b) \<and> a < length f \<and> a \<le> b \<and>
                     hdrIfRange r = [] \<and> hdrIfMatch r = [] \<and> hdrIfNoneMatch r = [] \<longrightarrow>
                 respond E r =
                   Response 206
                     [(''Content-Type'', contentType E),
                      (''Content-Range'',
                       ''bytes '' @ FormatInt a @ ''-'' @ FormatInt (min b (length f - 1)) @ ''/''
                         @ FormatInt (length f)),
                      (''Accept-Ranges'', ''bytes''),
                      (''Content-Length'', FormatInt (min b (length f - 1) - a + 1))]
                     (if reqMethod r \<noteq> ''HEAD''
                      then take (min b (length f - 1) - a + 1) (drop a f) else [])"
        unfolding re using serveContent_range[of r _ _ f E "contentType E"] by blast
      have d: "\<exists>f. handler E r = ServeContent [(''Content-Type'', contentType E)] r f \<and>
              (\<exists>c h b. respond E r = Response c h b \<and> c \<in> {200, 206, 304, 412, 416, 500}) \<and>
              (hdrRange r = [] \<and> hdrIfMatch r = [] \<and> hdrIfNoneMatch r = [] \<longrightarrow>
                 respond E r =
                   Response 200
                     [(''Content-Type'', contentType E), (''Accept-Ranges'', ''bytes''),
                      (''Content-Length'', FormatInt (length f))]
                     (if reqMethod r \<noteq> ''HEAD'' then f else [])) \<and>
              (\<forall>a b. rangeSpec (hdrRange r) = Some (a, b) \<and> a < length f \<and> a \<le> b \<and>
                     hdrIfRange r = [] \<and> hdrIfMatch r = [] \<and> hdrIfNoneMatch r = [] \<longrightarrow>
                 respond E r =
                   Response 206
                     [(''Content-Type'', contentType E),
                      (''Content-Range'',
                       ''bytes '' @ FormatInt a @ ''-'' @ FormatInt (min b (length f - 1)) @ ''/''
                         @ FormatInt (length f)),
                      (''Accept-Ranges'', ''bytes''),
                      (''Content-Length'', FormatInt (min b (length f - 1) - a + 1))]
                     (if reqMethod r \<noteq> ''HEAD''
                      then take (min b (length f - 1) - a + 1) (drop a f) else []))"
        using dir st pl rg by blast
      from ok n403 n404 d show ?thesis by blast
    qed
  qed
qed

lemma char_of_eq_iff: "char_of (n::nat) = c \<longleftrightarrow> n mod 256 = of_char c"
proof -
  have "char_of n = c \<longleftrightarrow> (of_char (char_of n) :: nat) = of_char c" by (simp only: of_char_eq_iff)
  also have "\<dots> \<longleftrightarrow> n mod 256 = of_char c" by (simp only: of_char_of)
  finally show ?thesis .
qed
lemma putUint32_nat:
  "putUint32 v = [char_of (unat v), char_of (unat v div 256), char_of (unat v div 65536),
                  char_of (unat v div 16777216)]"
proof -
  have "unat (drop_bit 8 v) = unat v div 256" "unat (drop_bit 16 v) = unat v div 65536"
    "unat (drop_bit 24 v) = unat v div 16777216"
    by (simp_all add: drop_bit_eq_div unat_div)
  then show ?thesis by (simp only: putUint32_def)
qed

lemma exampleRequest_hyps:
  "\<not> tampered exampleEnv (exampleRequest q\<lparr>acceptEncoding := ae\<rparr>)"
  "refererOk exampleEnv (exampleRequest q\<lparr>acceptEncoding := ae\<rparr>)"
  "reqMethod (exampleRequest q\<lparr>acceptEncoding := ae\<rparr>) \<noteq> ''HEAD''"
  by (simp_all add: tampered_def refererOk_def exampleEnv_def exampleRequest_def MatchString_def
      anchoredLiteral_def)


theorem deflate_entry_negotiation_witness:
  "exampleArchive ''pics/colormap.pcx'' =
     Some \<lparr>offset = 7, esize = 5, filecrc = 0x04030201, filelen = 9, mtime = 0x5F000001,
           emethod = 8\<rparr>
   \<and> readSection ''PK..bspDEFLA....'' 7 5 = ''DEFLA''
   \<and> parseAcceptEncoding exampleEnv
        (exampleRequest ''/baseq2/Pics/colormap.pcx''\<lparr>acceptEncoding := [''deflate, GZip '']\<rparr>)
       = (True, True)
   \<and> handler exampleEnv
        (exampleRequest ''/baseq2/Pics/colormap.pcx''\<lparr>acceptEncoding := [''deflate, GZip '']\<rparr>)
       = Response 200
           [(''Content-Type'', ''application/x-quake2-data''), (''Content-Length'', ''23''),
            (''Content-Encoding'', ''gzip'')]
           ([CHR 0x1F, CHR 0x8B, CHR 0x08, CHR 0x00, CHR 0x01, CHR 0x00, CHR 0x00, CHR 0x5F,
             CHR 0x00, CHR 0x03] @ ''DEFLA'' @
            [CHR 0x01, CHR 0x02, CHR 0x03, CHR 0x04, CHR 0x09, CHR 0x00, CHR 0x00, CHR 0x00])
   \<and> handler exampleEnv
        (exampleRequest ''/baseq2/Pics/colormap.pcx''\<lparr>acceptEncoding := [''br'', ''Deflate'']\<rparr>)
       = Response 200
           [(''Content-Type'', ''application/x-quake2-data''), (''Content-Length'', ''5''),
            (''Content-Encoding'', ''deflate'')]
           ''DEFLA''
   \<and> handler exampleEnv
        (exampleRequest ''/baseq2/Pics/colormap.pcx''\<lparr>acceptEncoding := []\<rparr>)
       = Response 200
           [(''Content-Type'', ''application/x-quake2-data''), (''Content-Length'', ''9'')]
           ''DEFLADEFLA''"
proof -
  let ?s = "\<lparr>spath = ''/srv/q2/baseq2/pak0.pkz'', files = Some exampleArchive\<rparr>"
  let ?d = "\<lparr>spath = ''/srv/q2/baseq2'', files = None\<rparr>"
  let ?e = "\<lparr>offset = 7, esize = 5, filecrc = 0x04030201, filelen = 9, mtime = 0x5F000001,
           emethod = 8\<rparr> :: PakFileEntry"
  have p: "ToLower (uLower exampleEnv) (Clean ''/baseq2/Pics/colormap.pcx'') = ''/baseq2/pics/colormap.pcx''"
    by code_simp
  have f: "findSearchPath (uLower exampleEnv) (searchPaths exampleEnv)
            (urlPath (exampleRequest ''/baseq2/Pics/colormap.pcx''\<lparr>acceptEncoding := ae\<rparr>))
       = (Some ([] @ ?s # [?d]), ''pics/colormap.pcx'')" for ae
    using p by (simp add: findSearchPath_def exampleEnv_def exampleRequest_def anchoredLiteral_def)
  have ne: "''pics/colormap.pcx'' \<noteq> []" by simp
  have pre: "\<forall>t\<in>set []. \<not> yields exampleEnv ''pics/colormap.pcx'' t" by simp
  have ap: "allowPakFor exampleEnv ''pics/colormap.pcx''"
    by (simp add: allowPakFor_def matchRegexpList_def exampleEnv_def)
  have fs: "files ?s = Some exampleArchive" by simp
  have en: "exampleArchive ''pics/colormap.pcx'' = Some ?e" by (simp add: exampleArchive_def)
  have op: "openFile exampleEnv (spath ?s) = Some ''PK..bspDEFLA....''" by (simp add: exampleEnv_def)
  have me: "emethod ?e \<noteq> 0" by simp
  have rs: "readSection ''PK..bspDEFLA....'' 7 5 = ''DEFLA''" by (simp add: readSection_def)
  have T: "handler exampleEnv (exampleRequest ''/baseq2/Pics/colormap.pcx''\<lparr>acceptEncoding := ae\<rparr>) =
    (let raw = readSection ''PK..bspDEFLA....'' (offset ?e) (unat (esize ?e));
         ct = (''Content-Type'', contentType exampleEnv)
     in if fst (parseAcceptEncoding exampleEnv
                  (exampleRequest ''/baseq2/Pics/colormap.pcx''\<lparr>acceptEncoding := ae\<rparr>)) then
          Response 200
            [ct, (''Content-Length'', FormatInt (unat (esize ?e) + 18)),
             (''Content-Encoding'', ''gzip'')]
            (([CHR 0x1F, CHR 0x8B, CHR 0x08, CHR 0x00] @ putUint32 (mtime ?e) @ [CHR 0x00, CHR 0x03])
             @ raw
             @ (putUint32 (filecrc ?e) @ putUint32 (filelen ?e)))
        else if snd (parseAcceptEncoding exampleEnv
                  (exampleRequest ''/baseq2/Pics/colormap.pcx''\<lparr>acceptEncoding := ae\<rparr>)) then
          Response 200
            [ct, (''Content-Length'', FormatInt (unat (esize ?e))),
             (''Content-Encoding'', ''deflate'')]
            raw
        else
          Response 200 [ct, (''Content-Length'', FormatInt (unat (filelen ?e)))]
            (inflate exampleEnv raw))" for ae
    by (rule deflate_entry_negotiation[OF exampleRequest_hyps(1,2) f ne pre ap fs en op me
      exampleRequest_hyps(3), THEN conjunct1])
  have v: "offset ?e = 7" "unat (esize ?e) = 5" "unat (esize ?e) + 18 = 23" "unat (filelen ?e) = 9"
    "mtime ?e = 0x5F000001" "filecrc ?e = 0x04030201" "filelen ?e = 9" by simp_all
  have a1: "parseAcceptEncoding exampleEnv
        (exampleRequest ''/baseq2/Pics/colormap.pcx''\<lparr>acceptEncoding := [''deflate, GZip '']\<rparr>)
       = (True, True)" by code_simp
  have a2: "parseAcceptEncoding exampleEnv
        (exampleRequest ''/baseq2/Pics/colormap.pcx''\<lparr>acceptEncoding := [''br'', ''Deflate'']\<rparr>)
       = (False, True)" by code_simp
  have a3: "parseAcceptEncoding exampleEnv
        (exampleRequest ''/baseq2/Pics/colormap.pcx''\<lparr>acceptEncoding := []\<rparr>)
       = (False, False)" by code_simp
  have n1: "FormatInt 23 = ''23''" "FormatInt 5 = ''5''" "FormatInt 9 = ''9''" by code_simp+
  have w1: "putUint32 0x5F000001 = [CHR 0x01, CHR 0x00, CHR 0x00, CHR 0x5F]"
    "putUint32 0x04030201 = [CHR 0x01, CHR 0x02, CHR 0x03, CHR 0x04]"
    "putUint32 9 = [CHR 0x09, CHR 0x00, CHR 0x00, CHR 0x00]"
    by (simp_all add: putUint32_nat char_of_eq_iff)
  have ce: "contentType exampleEnv = ''application/x-quake2-data''"
    "inflate exampleEnv ''DEFLA'' = ''DEFLADEFLA''" by (simp_all add: exampleEnv_def)
  have r1: "handler exampleEnv
        (exampleRequest ''/baseq2/Pics/colormap.pcx''\<lparr>acceptEncoding := [''deflate, GZip '']\<rparr>)
       = Response 200
           [(''Content-Type'', ''application/x-quake2-data''), (''Content-Length'', ''23''),
            (''Content-Encoding'', ''gzip'')]
           ([CHR 0x1F, CHR 0x8B, CHR 0x08, CHR 0x00, CHR 0x01, CHR 0x00, CHR 0x00, CHR 0x5F,
             CHR 0x00, CHR 0x03] @ ''DEFLA'' @
            [CHR 0x01, CHR 0x02, CHR 0x03, CHR 0x04, CHR 0x09, CHR 0x00, CHR 0x00, CHR 0x00])"
    unfolding T v a1 Let_def fst_conv snd_conv rs n1 w1 ce by (simp add: n1 w1 rs ce)
  have r2: "handler exampleEnv
        (exampleRequest ''/baseq2/Pics/colormap.pcx''\<lparr>acceptEncoding := [''br'', ''Deflate'']\<rparr>)
       = Response 200
           [(''Content-Type'', ''application/x-quake2-data''), (''Content-Length'', ''5''),
            (''Content-Encoding'', ''deflate'')]
           ''DEFLA''"
    unfolding T v a2 Let_def fst_conv snd_conv rs n1 w1 ce by (simp add: n1 w1 rs ce)
  have r3: "handler exampleEnv
        (exampleRequest ''/baseq2/Pics/colormap.pcx''\<lparr>acceptEncoding := []\<rparr>)
       = Response 200
           [(''Content-Type'', ''application/x-quake2-data''), (''Content-Length'', ''9'')]
           ''DEFLADEFLA''"
    unfolding T v a3 Let_def fst_conv snd_conv rs n1 w1 ce by (simp add: n1 w1 rs ce)
  from en rs a1 r1 r2 r3 show ?thesis by (intro conjI)
qed

theorem gate_rejection_is_not_found_witness:
  "\<not> allowPakFor (exampleEnv\<lparr>pakBlackList := [anchoredLiteral ''private/'']\<rparr>) ''private/keys.txt''
   \<and> \<not> allowDirFor (exampleEnv\<lparr>pakBlackList := [anchoredLiteral ''private/'']\<rparr>) ''private/keys.txt''
   \<and> allowPakFor (exampleEnv\<lparr>pakBlackList := [anchoredLiteral ''private/'']\<rparr>) ''maps/nosuch.bsp''
   \<and> allowDirFor (exampleEnv\<lparr>pakBlackList := [anchoredLiteral ''private/'']\<rparr>) ''maps/nosuch.bsp''
   \<and> handler (exampleEnv\<lparr>pakBlackList := [anchoredLiteral ''private/'']\<rparr>)
        (exampleRequest ''/baseq2/private/keys.txt'') = Response 404 [] []
   \<and> handler (exampleEnv\<lparr>pakBlackList := [anchoredLiteral ''private/'']\<rparr>)
        (exampleRequest ''/baseq2/maps/nosuch.bsp'') = Response 404 [] []"
proof -
  let ?E = "exampleEnv\<lparr>pakBlackList := [anchoredLiteral ''private/'']\<rparr>"
  let ?r1 = "exampleRequest ''/baseq2/private/keys.txt''"
  let ?r2 = "exampleRequest ''/baseq2/maps/nosuch.bsp''"
  let ?srch = "[\<lparr>spath = ''/srv/q2/baseq2/pak0.pkz'', files = Some exampleArchive\<rparr>,
                \<lparr>spath = ''/srv/q2/baseq2'', files = None\<rparr>]"
  have t: "\<not> tampered ?E ?r1" "\<not> tampered ?E ?r2" "refererOk ?E ?r1" "refererOk ?E ?r2"
    by (simp_all add: tampered_def refererOk_def exampleEnv_def exampleRequest_def MatchString_def
      anchoredLiteral_def)
  have p1: "ToLower (uLower ?E) (Clean ''/baseq2/private/keys.txt'') = ''/baseq2/private/keys.txt''"
    by code_simp
  have p2: "ToLower (uLower ?E) (Clean ''/baseq2/maps/nosuch.bsp'') = ''/baseq2/maps/nosuch.bsp''"
    by code_simp
  have f1: "findSearchPath (uLower ?E) (searchPaths ?E) (urlPath ?r1) = (Some ?srch, ''private/keys.txt'')"
    using p1 by (simp add: findSearchPath_def exampleEnv_def exampleRequest_def anchoredLiteral_def)
  have f2: "findSearchPath (uLower ?E) (searchPaths ?E) (urlPath ?r2) = (Some ?srch, ''maps/nosuch.bsp'')"
    using p2 by (simp add: findSearchPath_def exampleEnv_def exampleRequest_def anchoredLiteral_def)
  have g1: "\<not> allowPakFor ?E ''private/keys.txt''" "\<not> allowDirFor ?E ''private/keys.txt''"
    by (simp_all add: allowPakFor_def allowDirFor_def matchRegexpList_def MatchString_def
        exampleEnv_def anchoredLiteral_def)
  have g2: "allowPakFor ?E ''maps/nosuch.bsp''" "allowDirFor ?E ''maps/nosuch.bsp''"
    by (simp_all add: allowPakFor_def allowDirFor_def matchRegexpList_def MatchString_def
        exampleEnv_def anchoredLiteral_def)
  have j: "filepathJoin ?E ''/srv/q2/baseq2'' ''maps/nosuch.bsp'' = ''/srv/q2/baseq2/maps/nosuch.bsp''"
    by code_simp
  have y: "\<forall>t\<in>set ?srch. \<not> yields ?E ''maps/nosuch.bsp'' t"
    using j by (simp add: yields_def exampleArchive_def) (simp add: exampleEnv_def)
  have n1: "''private/keys.txt'' \<noteq> []" and n2: "''maps/nosuch.bsp'' \<noteq> []" by simp_all
  note T = gate_rejection_is_not_found[OF t(1) t(3) f1 n1 g1 t(2) t(4) f2 n2 y]
  have a: "handler ?E ?r1 = Response 404 [] []" by (rule T[THEN conjunct2])
  have b: "handler ?E ?r2 = Response 404 [] []"
    by (rule trans[OF T[THEN conjunct1, symmetric] a])
  from g1 g2 a b show ?thesis by (intro conjI)
qed

theorem handler_status_witness:
  "refererOk exampleEnv (exampleRequest ''/ctf/maps/q2ctf1.bsp'')
   \<and> notFoundCond exampleEnv (exampleRequest ''/ctf/maps/q2ctf1.bsp'')
   \<and> respond exampleEnv (exampleRequest ''/ctf/maps/q2ctf1.bsp'') = Response 404 [] []
   \<and> tampered (exampleEnv\<lparr>separator := CHR 0x5C\<rparr>)
        (exampleRequest (''/baseq2/..'' @ [CHR 0x5C] @ ''server.cfg''))
   \<and> (\<exists>h b. respond (exampleEnv\<lparr>separator := CHR 0x5C\<rparr>)
        (exampleRequest (''/baseq2/..'' @ [CHR 0x5C] @ ''server.cfg'')) = Response 403 h b)
   \<and> handler exampleEnv (exampleRequest ''/baseq2/maps/base1.bsp'')
       = ServeContent [(''Content-Type'', ''application/x-quake2-data'')]
           (exampleRequest ''/baseq2/maps/base1.bsp'') ''IBSP''
   \<and> respond exampleEnv (exampleRequest ''/baseq2/maps/base1.bsp'')
       = Response 200
           [(''Content-Type'', ''application/x-quake2-data''), (''Accept-Ranges'', ''bytes''),
            (''Content-Length'', ''4'')] ''IBSP''"
proof -
  let ?r = "exampleRequest ''/ctf/maps/q2ctf1.bsp''"
  let ?E = "exampleEnv\<lparr>separator := CHR 0x5C\<rparr>"
  let ?q = "exampleRequest (''/baseq2/..'' @ [CHR 0x5C] @ ''server.cfg'')"
  let ?d = "exampleRequest ''/baseq2/maps/base1.bsp''"
  have t: "\<not> tampered exampleEnv ?r" "refererOk exampleEnv ?r"
    by (simp_all add: tampered_def refererOk_def exampleEnv_def exampleRequest_def MatchString_def
      anchoredLiteral_def)
  have p: "ToLower (uLower exampleEnv) (Clean ''/ctf/maps/q2ctf1.bsp'') = ''/ctf/maps/q2ctf1.bsp''"
    by code_simp
  have f: "findSearchPath (uLower exampleEnv) (searchPaths exampleEnv) (urlPath ?r)
      = (None, ''/ctf/maps/q2ctf1.bsp'')"
    using p by (simp add: findSearchPath_def exampleEnv_def exampleRequest_def anchoredLiteral_def)
  have n: "notFoundCond exampleEnv ?r" using f by (simp add: notFoundCond_def)
  have tq: "tampered ?E ?q" by (simp add: tampered_def exampleEnv_def exampleRequest_def)
  note T = handler_status[of exampleEnv ?r]
  from T t n have r: "respond exampleEnv ?r = Response 404 [] []" by blast
  from handler_status[of ?E ?q] tq have q: "\<exists>h b. respond ?E ?q = Response 403 h b" by blast
  have hd: "handler exampleEnv ?d
       = ServeContent [(''Content-Type'', ''application/x-quake2-data'')] ?d ''IBSP''"
    by code_simp
  have td: "\<not> tampered exampleEnv ?d" "refererOk exampleEnv ?d"
    by (simp_all add: tampered_def refererOk_def exampleEnv_def exampleRequest_def MatchString_def
      anchoredLiteral_def)
  have nd: "\<not> notFoundCond exampleEnv ?d"
  proof
    assume "notFoundCond exampleEnv ?d"
    with handler_status[of exampleEnv ?d] td have "respond exampleEnv ?d = Response 404 [] []"
      by blast
    with hd show False by (simp add: respond_def serveContent_def exampleRequest_def)
  qed
  have pl: "hdrRange ?d = [] \<and> hdrIfMatch ?d = [] \<and> hdrIfNoneMatch ?d = []"
    by (simp add: exampleRequest_def)
  have ct: "contentType exampleEnv = ''application/x-quake2-data''" by (simp add: exampleEnv_def)
  have gm: "reqMethod ?d \<noteq> ''HEAD''" by (simp add: exampleRequest_def)
  have fi: "FormatInt (length ''IBSP'') = ''4''" by code_simp
  note D = handler_status[of exampleEnv ?d, THEN conjunct2, THEN conjunct2, THEN conjunct2,
      rule_format, OF conjI[OF td(1) conjI[OF td(2) nd]]]
  from D hd obtain f where
    f: "handler exampleEnv ?d = ServeContent [(''Content-Type'', contentType exampleEnv)] ?d f"
    and pf: "hdrRange ?d = [] \<and> hdrIfMatch ?d = [] \<and> hdrIfNoneMatch ?d = [] \<longrightarrow>
      respond exampleEnv ?d =
        Response 200
          [(''Content-Type'', contentType exampleEnv), (''Accept-Ranges'', ''bytes''),
           (''Content-Length'', FormatInt (length f))]
          (if reqMethod ?d \<noteq> ''HEAD'' then f else [])"
    by auto
  from f hd have ff: "f = ''IBSP''" by simp
  from pf pl have "respond exampleEnv ?d =
      Response 200
        [(''Content-Type'', contentType exampleEnv), (''Accept-Ranges'', ''bytes''),
         (''Content-Length'', FormatInt (length ''IBSP''))]
        (if reqMethod ?d \<noteq> ''HEAD'' then ''IBSP'' else [])"
    unfolding ff by blast
  hence d: "respond exampleEnv ?d
       = Response 200
           [(''Content-Type'', ''application/x-quake2-data''), (''Accept-Ranges'', ''bytes''),
            (''Content-Length'', ''4'')] ''IBSP''"
    unfolding ct fi using gm by simp
  from t(2) n r tq q hd d show ?thesis by (intro conjI)
qed

text \<open>
  Claim C8 as stated fails in its last part for a file of a directory: the request below passes
  the separator and referer tests and is resolved to a file that exists, so it is neither a
  403 nor a 404 of the claim, and it asks for the first two bytes; the response has status 206,
  not 200.
\<close>

theorem range_request_counterexample:
  "\<not> tampered exampleEnv (exampleRequest ''/baseq2/maps/base1.bsp''\<lparr>hdrRange := ''bytes=0-1''\<rparr>)
   \<and> refererOk exampleEnv (exampleRequest ''/baseq2/maps/base1.bsp''\<lparr>hdrRange := ''bytes=0-1''\<rparr>)
   \<and> \<not> notFoundCond exampleEnv (exampleRequest ''/baseq2/maps/base1.bsp''\<lparr>hdrRange := ''bytes=0-1''\<rparr>)
   \<and> handler exampleEnv (exampleRequest ''/baseq2/maps/base1.bsp''\<lparr>hdrRange := ''bytes=0-1''\<rparr>)
       = ServeContent [(''Content-Type'', ''application/x-quake2-data'')]
           (exampleRequest ''/baseq2/maps/base1.bsp''\<lparr>hdrRange := ''bytes=0-1''\<rparr>) ''IBSP''
   \<and> respond exampleEnv (exampleRequest ''/baseq2/maps/base1.bsp''\<lparr>hdrRange := ''bytes=0-1''\<rparr>)
       = Response 206
           [(''Content-Type'', ''application/x-quake2-data''), (''Content-Range'', ''bytes 0-1/4''),
            (''Accept-Ranges'', ''bytes''), (''Content-Length'', ''2'')] ''IB''"
proof -
  let ?r = "exampleRequest ''/baseq2/maps/base1.bsp''\<lparr>hdrRange := ''bytes=0-1''\<rparr>"
  have 1: "\<not> tampered exampleEnv ?r" "refererOk exampleEnv ?r"
    by (simp_all add: tampered_def refererOk_def exampleEnv_def exampleRequest_def MatchString_def
      anchoredLiteral_def)
  have 2: "\<not> notFoundCond exampleEnv ?r" by code_simp
  have 3: "handler exampleEnv ?r
       = ServeContent [(''Content-Type'', ''application/x-quake2-data'')] ?r ''IBSP''"
    by code_simp
  have 4: "serveContent exampleEnv [(''Content-Type'', ''application/x-quake2-data'')] ?r ''IBSP''
       = Response 206
           [(''Content-Type'', ''application/x-quake2-data''), (''Content-Range'', ''bytes 0-1/4''),
            (''Accept-Ranges'', ''bytes''), (''Content-Length'', ''2'')] ''IB''"
    by code_simp
  have 5: "respond exampleEnv ?r
       = Response 206
           [(''Content-Type'', ''application/x-quake2-data''), (''Content-Range'', ''bytes 0-1/4''),
            (''Accept-Ranges'', ''bytes''), (''Content-Length'', ''2'')] ''IB''"
    using 3 4 by (simp add: respond_def)
  from 1 2 3 5 show ?thesis by (intro conjI)
qed

section \<open>Writing an archive and reading it back\<close>

lemma bytes_of_nat32:
  assumes "x < 4294967296"
  shows "x mod 256 + 256 * (x div 256 mod 256) + 65536 * (x div 65536 mod 256)
     + 16777216 * (x div 16777216 mod 256) = (x::nat)"
proof -
  have d1: "x div 65536 = x div 256 div 256" by (simp add: div_mult2_eq)
  have d2: "x div 16777216 = x div 256 div 256 div 256" by (simp add: div_mult2_eq)
  have s: "x div 16777216 < 256" using assms by (simp add: less_mult_imp_div_less)
  define a where "a = x mod 256"
  define b where "b = x div 256 mod 256"
  define c where "c = x div 256 div 256 mod 256"
  define d where "d = x div 256 div 256 div 256"
  have 1: "x = a + 256 * (x div 256)" by (simp add: a_def)
  have 2: "x div 256 = b + 256 * (x div 256 div 256)" by (simp add: b_def)
  have 3: "x div 256 div 256 = c + 256 * d" by (simp add: c_def d_def)
  have 4: "d mod 256 = d" using s d2 by (simp add: d_def)
  have "x = a + 256 * b + 65536 * c + 16777216 * d" using 1 2 3 by linarith
  then show ?thesis unfolding d1 d2 using 4 by (simp add: a_def b_def c_def d_def)
qed

lemma getUint32_putUint32 [simp]: "getUint32 (putUint32 v) = v"
proof -
  have lt: "unat v < 4294967296" using unsigned_less[of v, where 'a=nat] by simp
  have "getUint32 (putUint32 v) =
      word_of_nat (unat v mod 256 + 256 * (unat v div 256 mod 256)
        + 65536 * (unat v div 65536 mod 256) + 16777216 * (unat v div 16777216 mod 256))"
    by (simp only: putUint32_nat getUint32.simps of_char_of)
  also have "\<dots> = word_of_nat (unat v)" by (simp only: bytes_of_nat32[OF lt])
  finally show ?thesis by simp
qed

lemma length_encodeHeader [simp]: "length (encodeHeader h) = 12"
  by (simp add: encodeHeader_def)

lemma decode_encodeHeader [simp]: "decodeHeader (encodeHeader h) = h"
  by (simp add: decodeHeader_def encodeHeader_def)

lemma length_encodeEntry: "length (eName e) = 56 \<Longrightarrow> length (encodeEntry e) = 64"
  by (simp add: encodeEntry_def)

lemma decode_encodeEntry: "length (eName e) = 56 \<Longrightarrow> decodeEntry (encodeEntry e) = e"
  by (simp add: decodeEntry_def encodeEntry_def)

lemma readFull_mid: "readFull (a @ b @ c) (length a) (length b) = Inr b"
  by (simp add: readFull_def)

lemma contents_simps [simp]: "contents [] = []" "contents ((n, c) # es) = c @ contents es"
  by (simp_all add: contents_def)

lemma length_dirEntries [simp]: "length (dirEntries off es) = length es"
  by (induction off es rule: dirEntries.induct) auto

lemma finishEntry_length [simp]: "length (wfiles (finishEntry pak)) = length (wfiles pak)"
  by (simp add: finishEntry_def Let_def)

lemma finishEntry_fields [simp]:
  "ww (finishEntry pak) = ww pak" "woffset (finishEntry pak) = woffset pak"
  "wclosed (finishEntry pak) = wclosed pak" "wisFile (finishEntry pak) = wisFile pak"
  by (simp_all add: finishEntry_def Let_def)

lemma finishEntry_snoc:
  "wfiles (finishEntry (pak\<lparr>wfiles := fs @ [e]\<rparr>))
     = fs @ [e\<lparr>eFilelen := word_of_int (woffset pak) - eFilepos e\<rparr>]"
  by (simp add: finishEntry_def Let_def)

lemma wWrite_end:
  "wpos w = length (wbuf w) \<Longrightarrow> wWrite w p = \<lparr>wbuf = wbuf w @ p, wpos = length (wbuf w) + length p\<rparr>"
  by (simp add: wWrite_def)

lemma writeFiles_ok:
  assumes "\<not> wclosed pak" "wpos (ww pak) = length (wbuf (ww pak))"
    "\<forall>(n, c)\<in>set es. length n \<le> 56"
    "int (length (wfiles pak)) + int (length es) \<le> MaxFiles"
    "woffset pak + int (length (contents es)) \<le> MaxOffset"
  shows "\<exists>pak'. writeFiles pak es = (None, pak') \<and> \<not> wclosed pak' \<and>
     ww pak' = \<lparr>wbuf = wbuf (ww pak) @ contents es,
                wpos = length (wbuf (ww pak)) + length (contents es)\<rparr> \<and>
     woffset pak' = woffset pak + int (length (contents es)) \<and>
     wfiles (finishEntry pak') = wfiles (finishEntry pak) @ dirEntries (woffset pak) es"
  using assms
proof (induction es arbitrary: pak)
  case Nil
  then show ?case by simp
next
  case (Cons nc es)
  obtain n c where nc: "nc = (n, c)" by (cases nc)
  let ?e = "\<lparr>eName = n @ replicate (56 - length n) (CHR 0x00),
             eFilepos = word_of_int (woffset pak), eFilelen = 0\<rparr>"
  let ?pak1 = "(finishEntry pak)\<lparr>wfiles := wfiles (finishEntry pak) @ [?e]\<rparr>"
  have ln: "length n \<le> 56" using Cons.prems(3) nc by simp
  have cnt: "int (length (wfiles pak)) < MaxFiles" using Cons.prems(4) by simp
  have c1: "Create pak n = (None, ?pak1)"
    using Cons.prems(1) ln cnt by (simp add: Create_def Let_def MaxFileName_def)
  let ?pak2 = "?pak1\<lparr>ww := wWrite (ww ?pak1) c, woffset := woffset ?pak1 + int (length c)\<rparr>"
  have off: "woffset pak + int (length c) \<le> MaxOffset" using Cons.prems(5) nc by simp
  have w1: "Write ?pak1 c = ((int (length c), None), ?pak2)"
    using Cons.prems(1) off by (simp add: Write_def)
  have step: "writeFiles pak (nc # es) = writeFiles ?pak2 es"
    using c1 w1 nc by simp
  have ww2: "ww ?pak2 = \<lparr>wbuf = wbuf (ww pak) @ c, wpos = length (wbuf (ww pak)) + length c\<rparr>"
    using Cons.prems(2) by (simp add: wWrite_end)
  have p1: "\<not> wclosed ?pak2" using Cons.prems(1) by simp
  have p2: "wpos (ww ?pak2) = length (wbuf (ww ?pak2))" using ww2 by simp
  have p3: "\<forall>(n, c)\<in>set es. length n \<le> 56" using Cons.prems(3) by simp
  have p4: "int (length (wfiles ?pak2)) + int (length es) \<le> MaxFiles" using Cons.prems(4) by simp
  have p5: "woffset ?pak2 + int (length (contents es)) \<le> MaxOffset"
    using Cons.prems(5) nc by simp
  from Cons.IH[OF p1 p2 p3 p4 p5] obtain pak' where
    r: "writeFiles ?pak2 es = (None, pak')" "\<not> wclosed pak'"
       "ww pak' = \<lparr>wbuf = wbuf (ww ?pak2) @ contents es,
                wpos = length (wbuf (ww ?pak2)) + length (contents es)\<rparr>"
       "woffset pak' = woffset ?pak2 + int (length (contents es))"
       "wfiles (finishEntry pak') = wfiles (finishEntry ?pak2) @ dirEntries (woffset ?pak2) es"
    by blast
  have fe: "wfiles (finishEntry ?pak2) = wfiles (finishEntry pak)
      @ [\<lparr>eName = n @ replicate (56 - length n) (CHR 0x00),
           eFilepos = word_of_int (woffset pak), eFilelen = word_of_int (int (length c))\<rparr>]"
    by (simp add: finishEntry_def Let_def)
  show ?case
    unfolding step using r fe ww2 nc by (intro exI[of _ pak']) simp
qed

lemma uint_woi: "0 \<le> k \<Longrightarrow> k < 4294967296 \<Longrightarrow> uint (word_of_int k :: 32 word) = k"
  by (simp add: uint_word_of_int take_bit_int_eq_self)

lemma unat_woi: "0 \<le> k \<Longrightarrow> k < 4294967296 \<Longrightarrow> unat (word_of_int k :: 32 word) = nat k"
  using uint_woi[of k] by (simp add: unat_eq_nat_uint)

lemma woi_less:
  "0 \<le> a \<Longrightarrow> a < 4294967296 \<Longrightarrow> 0 \<le> b \<Longrightarrow> b < 4294967296 \<Longrightarrow>
   ((word_of_int a :: 32 word) < word_of_int b) = (a < b)"
  by (simp add: word_less_def uint_woi)

lemma writePak_bytes:
  assumes "\<forall>(n, c)\<in>set es. length n \<le> 56" "int (length es) \<le> MaxFiles"
    "headerSize + int (length (contents es)) + entrySize * int (length es) \<le> MaxOffset"
  shows "writePak es = Inr (encodeHeader \<lparr>Ident = pakIdent,
              Dirofs = word_of_int (headerSize + int (length (contents es))),
              Dirlen = word_of_int (entrySize * int (length es))\<rparr>
            @ contents es @ concat (map encodeEntry (dirEntries headerSize es)))"
proof -
  let ?Z = "encodeHeader \<lparr>Ident = 0, Dirofs = 0, Dirlen = 0\<rparr>"
  have ow: "ww OpenWriter = \<lparr>wbuf = ?Z, wpos = 12\<rparr>" "wfiles OpenWriter = []"
    "woffset OpenWriter = headerSize" "\<not> wclosed OpenWriter"
    by (simp_all add: OpenWriter_def NewWriter_def wWrite_def wSeekStart_def)
  have h2: "wpos (ww OpenWriter) = length (wbuf (ww OpenWriter))" using ow(1) by simp
  have h4: "int (length (wfiles OpenWriter)) + int (length es) \<le> MaxFiles" using ow(2) assms(2) by simp
  have h5: "woffset OpenWriter + int (length (contents es)) \<le> MaxOffset"
    using ow(3) assms(3) by (simp add: entrySize_def)
  from writeFiles_ok[OF ow(4) h2 assms(1) h4 h5] obtain pak where
    r: "writeFiles OpenWriter es = (None, pak)" "\<not> wclosed pak"
       "ww pak = \<lparr>wbuf = ?Z @ contents es, wpos = 12 + length (contents es)\<rparr>"
       "woffset pak = headerSize + int (length (contents es))"
       "wfiles (finishEntry pak) = dirEntries headerSize es"
    using ow by (auto simp: finishEntry_def)
  let ?H = "\<lparr>Ident = pakIdent, Dirofs = word_of_int (headerSize + int (length (contents es))),
              Dirlen = word_of_int (entrySize * int (length es))\<rparr>"
  let ?D = "concat (map encodeEntry (dirEntries headerSize es))"
  have w1: "wWrite (ww pak) ?D = \<lparr>wbuf = ?Z @ contents es @ ?D, wpos = 12 + length (contents es) + length ?D\<rparr>"
    using r(3) by (simp add: wWrite_end)
  have w3: "wbuf (wWrite (wSeekStart (wWrite (ww pak) ?D)) (encodeHeader ?H)) = encodeHeader ?H @ contents es @ ?D"
    unfolding w1 by (simp add: wWrite_def wSeekStart_def)
  have "finish pak = (None, (finishEntry pak)\<lparr>ww := wWrite (wSeekStart (wWrite (ww pak) ?D)) (encodeHeader ?H)\<rparr>)"
    using r(4,5) assms(3) by (simp add: finish_def Let_def)
  then have "Close pak = (None, (finishEntry pak)\<lparr>ww := wWrite (wSeekStart (wWrite (ww pak) ?D)) (encodeHeader ?H),
        wclosed := True\<rparr>)"
    using r(2) by (simp add: Close_def)
  then show ?thesis using r(1) w3 by (simp add: writePak_def)
qed

lemma readEntries_encoded:
  "list_all validEntry F \<Longrightarrow>
   readEntries (pre @ concat (map encodeEntry F) @ post) (length pre) (length F) = Inr (map toFile F)"
proof (induction F arbitrary: pre)
  case Nil
  then show ?case by simp
next
  case (Cons e F)
  have v: "length (eName e) = 56" "\<not> eFilelen e > word_of_int MaxOffset"
    "\<not> eFilepos e > word_of_int MaxOffset - eFilelen e"
    using Cons.prems by (simp_all add: validEntry_def)
  have l: "length (encodeEntry e) = 64" using v(1) by (rule length_encodeEntry)
  have rf: "readFull (pre @ concat (map encodeEntry (e # F)) @ post) (length pre) 64 = Inr (encodeEntry e)"
    using readFull_mid[of pre "encodeEntry e" "concat (map encodeEntry F) @ post"] l by simp
  have ih: "readEntries ((pre @ encodeEntry e) @ concat (map encodeEntry F) @ post)
      (length (pre @ encodeEntry e)) (length F) = Inr (map toFile F)"
    using Cons.IH[of "pre @ encodeEntry e"] Cons.prems by simp
  then have ih': "readEntries (pre @ concat (map encodeEntry (e # F)) @ post) (length pre + 64) (length F)
      = Inr (map toFile F)"
    using l by simp
  show ?case
    using rf ih' v decode_encodeEntry[OF v(1)]
    by (simp add: Let_def toFile_def del: append_assoc)
qed

lemma unat_won: "n < 4294967296 \<Longrightarrow> unat (word_of_nat n :: 32 word) = n"
  by (simp add: unat_of_nat)

lemma uint_won: "n < 4294967296 \<Longrightarrow> uint (word_of_nat n :: 32 word) = int n"
  using unat_won[of n] by (simp add: uint_nat del: of_nat_unat)

lemma woi_not_gt_diff:
  assumes "0 \<le> a" "0 \<le> l" "a + l \<le> 2147483647"
  shows "\<not> (word_of_int a :: 32 word) > word_of_int MaxOffset - word_of_int l"
proof -
  have s: "(word_of_int MaxOffset :: 32 word) - word_of_int l = word_of_int (MaxOffset - l)"
    by (simp only: of_int_diff)
  have "((word_of_int (MaxOffset - l) :: 32 word) < word_of_int a) = (MaxOffset - l < a)"
    by (rule woi_less) (use assms in \<open>simp_all add: MaxOffset_def\<close>)
  then show ?thesis unfolding s using assms by (simp only: MaxOffset_def) simp
qed

lemma dirEntries_valid:
  assumes "\<forall>(n, c)\<in>set es. length n \<le> 56" "0 \<le> off" "off + int (length (contents es)) \<le> MaxOffset"
  shows "list_all validEntry (dirEntries off es)"
  using assms
proof (induction off es rule: dirEntries.induct)
  case (1 off)
  then show ?case by simp
next
  case (2 off name content es)
  have b: "0 \<le> int (length content)" "int (length content) \<le> 2147483647"
    "off \<le> 2147483647 - int (length content)"
    using 2(3,4) by (simp_all add: MaxOffset_def)
  have l: "\<not> (word_of_int (int (length content)) :: 32 word) > word_of_int MaxOffset"
    using b by (simp add: MaxOffset_def word_less_def uint_woi uint_won)
  have p: "\<not> (word_of_int off :: 32 word) > word_of_int MaxOffset - word_of_int (int (length content))"
    by (rule woi_not_gt_diff) (use b 2(3) in simp_all)
  have n: "length (name @ replicate (56 - length name) (CHR 0x00)) = 56" using 2(2) by simp
  have rest: "list_all validEntry (dirEntries (off + int (length content)) es)"
    using 2 by (simp add: add.assoc)
  have h: "validEntry \<lparr>eName = name @ replicate (56 - length name) (CHR 0x00),
      eFilepos = word_of_int off, eFilelen = word_of_int (int (length content))\<rparr>"
    using l p n by (simp add: validEntry_def)
  show ?case using h rest by simp
qed

lemma Reader_init_written:
  assumes "\<forall>(n, c)\<in>set es. length n \<le> 56" "int (length es) \<le> MaxFiles"
    "headerSize + int (length (contents es)) + entrySize * int (length es) \<le> MaxOffset"
  shows "Reader_init (encodeHeader \<lparr>Ident = pakIdent,
              Dirofs = word_of_int (headerSize + int (length (contents es))),
              Dirlen = word_of_int (entrySize * int (length es))\<rparr>
            @ contents es @ concat (map encodeEntry (dirEntries headerSize es)))
         = Inr (map toFile (dirEntries headerSize es))"
proof -
  let ?n = "int (length es)"
  let ?t = "int (length (contents es))"
  let ?H = "\<lparr>Ident = pakIdent, Dirofs = word_of_int (headerSize + ?t),
              Dirlen = word_of_int (entrySize * ?n)\<rparr>"
  let ?D = "concat (map encodeEntry (dirEntries headerSize es))"
  let ?bs = "encodeHeader ?H @ contents es @ ?D"
  have n: "0 \<le> ?n" "?n \<le> 4096" using assms(2) by (simp_all add: MaxFiles_def)
  have t: "0 \<le> ?t" "12 + ?t + 64 * ?n \<le> 2147483647"
    using assms(3) by (simp_all add: headerSize_def entrySize_def MaxOffset_def)
  have rf: "readFull ?bs 0 12 = Inr (encodeHeader ?H)"
    using readFull_mid[of "[]" "encodeHeader ?H" "contents es @ ?D"] by simp
  have ul: "uint (word_of_int (entrySize * ?n) :: 32 word) = 64 * ?n"
  proof -
    have "0 \<le> entrySize * ?n" "entrySize * ?n < 4294967296" using n by (simp_all add: entrySize_def)
    from uint_woi[OF this] show ?thesis by (simp only: entrySize_def)
  qed
  have uo: "uint (word_of_int (headerSize + ?t) :: 32 word) = 12 + ?t"
  proof -
    have "0 \<le> headerSize + ?t" "headerSize + ?t < 4294967296" using t n by (simp_all add: headerSize_def)
    from uint_woi[OF this] show ?thesis by (simp only: headerSize_def)
  qed
  have m: "(word_of_int (entrySize * ?n) :: 32 word) mod word_of_int entrySize = 0"
  proof -
    have "uint ((word_of_int (entrySize * ?n) :: 32 word) mod word_of_int entrySize) = 0"
      unfolding uint_mod ul by (simp add: entrySize_def)
    then show ?thesis by (simp add: word_uint_eq_iff)
  qed
  have d: "uint ((word_of_int (entrySize * ?n) :: 32 word) div word_of_int entrySize) = ?n"
    unfolding uint_div ul by (simp add: entrySize_def)
  have o: "\<not> (word_of_int (headerSize + ?t) :: 32 word) > word_of_int MaxOffset - word_of_int (entrySize * ?n)"
    by (rule woi_not_gt_diff) (use t n in \<open>simp_all add: headerSize_def entrySize_def\<close>)
  have "unat (word_of_int (headerSize + ?t) :: 32 word) = nat (headerSize + ?t)"
    by (rule unat_woi) (use t n in \<open>simp_all add: headerSize_def\<close>)
  then have un: "unat (word_of_int (headerSize + ?t) :: 32 word) = length (encodeHeader ?H @ contents es)"
    by (simp add: headerSize_def)
  have v: "list_all validEntry (dirEntries headerSize es)"
    using dirEntries_valid[OF assms(1), of headerSize] t by (simp add: headerSize_def MaxOffset_def)
  have re: "readEntries ?bs (length (encodeHeader ?H @ contents es)) (length es) = Inr (map toFile (dirEntries headerSize es))"
    using readEntries_encoded[OF v, of "encodeHeader ?H @ contents es" "[]"] by simp
  show ?thesis
    unfolding Reader_init_def rf
    using m d o n re un by (simp add: Let_def MaxFiles_def del: append_assoc)
qed

lemma names_written:
  "\<forall>(n, c)\<in>set es. length n \<le> 56 \<and> CHR 0x00 \<notin> set n \<Longrightarrow>
   map Name (map toFile (dirEntries off es)) = map fst es"
proof (induction off es rule: dirEntries.induct)
  case (1 off)
  then show ?case by simp
next
  case (2 off name content es)
  have "takeWhile (\<lambda>c. c \<noteq> CHR 0x00) (name @ replicate (56 - length name) (CHR 0x00)) = name"
  proof -
    have a: "\<And>x. x \<in> set name \<Longrightarrow> x \<noteq> CHR 0x00" using 2(2) by auto
    have b: "takeWhile (\<lambda>c. c \<noteq> CHR 0x00) (replicate (56 - length name) (CHR 0x00)) = []"
      by (cases "56 - length name") simp_all
    show ?thesis using a b by (simp add: takeWhile_append2)
  qed
  then show ?case using 2 by (simp add: toFile_def)
qed

lemma contents_written:
  "0 \<le> int (length pre) \<Longrightarrow> int (length pre) + int (length (contents es)) \<le> MaxOffset \<Longrightarrow>
   map (File_Open (pre @ contents es @ post)) (map toFile (dirEntries (int (length pre)) es)) = map snd es"
proof (induction es arbitrary: pre)
  case Nil
  then show ?case by simp
next
  case (Cons nc es)
  obtain n c where nc: "nc = (n, c)" by (cases nc)
  have b: "int (length pre) < 4294967296" "int (length c) < 4294967296"
    using Cons.prems nc by (simp_all add: MaxOffset_def)
  have hd: "File_Open (pre @ contents (nc # es) @ post)
      (toFile \<lparr>eName = n @ replicate (56 - length n) (CHR 0x00), eFilepos = word_of_int (int (length pre)),
               eFilelen = word_of_int (int (length c))\<rparr>) = c"
    using b nc by (simp add: File_Open_def toFile_def readSection_def unat_won)
  have "int (length (pre @ c)) + int (length (contents es)) \<le> MaxOffset"
    using Cons.prems nc by simp
  from Cons.IH[of "pre @ c", OF _ this]
  have tl: "map (File_Open (pre @ contents (nc # es) @ post))
      (map toFile (dirEntries (int (length pre) + int (length c)) es)) = map snd es"
    using nc by simp
  show ?case using hd tl nc by simp
qed

text \<open>
  Claim C7, with the two conditions the format imposes. For every sequence of (name, content)
  pairs in which each name has at most 56 bytes and no zero byte, of at most 4096 entries, and
  whose header, contents and directory together do not exceed the maximum offset \<open>2\<^sup>3\<^sup>1 - 1\<close>,
  writing them in order (Create, then Write, for each; then Close) succeeds, and reading the
  bytes produced gives the same number of entries, with the same names and byte-identical
  contents in the same order. Contents may be empty and may hold zero bytes.
\<close>

theorem pak_round_trip:
  assumes "\<forall>(n, c)\<in>set es. length n \<le> 56 \<and> CHR 0x00 \<notin> set n"
    "int (length es) \<le> MaxFiles"
    "headerSize + int (length (contents es)) + entrySize * int (length es) \<le> MaxOffset"
  shows "\<exists>bs fs. writePak es = Inr bs \<and> Reader_init bs = Inr fs \<and> length fs = length es \<and>
           map Name fs = map fst es \<and> map (File_Open bs) fs = map snd es"
proof -
  have a1: "\<forall>(n, c)\<in>set es. length n \<le> 56" using assms(1) by auto
  let ?H = "\<lparr>Ident = pakIdent, Dirofs = word_of_int (headerSize + int (length (contents es))),
              Dirlen = word_of_int (entrySize * int (length es))\<rparr>"
  let ?D = "concat (map encodeEntry (dirEntries headerSize es))"
  let ?bs = "encodeHeader ?H @ contents es @ ?D"
  let ?fs = "map toFile (dirEntries headerSize es)"
  have w: "writePak es = Inr ?bs" by (rule writePak_bytes[OF a1 assms(2,3)])
  have r: "Reader_init ?bs = Inr ?fs" by (rule Reader_init_written[OF a1 assms(2,3)])
  have l: "length ?fs = length es" by simp
  have n: "map Name ?fs = map fst es" by (rule names_written[OF assms(1)])
  have "int (length (encodeHeader ?H)) + int (length (contents es)) \<le> MaxOffset"
    using assms(3) by (simp add: headerSize_def entrySize_def)
  from contents_written[OF _ this, of ?D]
  have c: "map (File_Open ?bs) ?fs = map snd es" by (simp add: headerSize_def)
  from w r l n c show ?thesis by blast
qed

theorem pak_round_trip_witness:
  "int (length [(''foo'', ''test''), (''bar'', ''junk'' @ [CHR 0x00] @ ''junk''), (''123qwe'', [])]) \<le> MaxFiles
   \<and> (\<exists>bs fs.
         writePak [(''foo'', ''test''), (''bar'', ''junk'' @ [CHR 0x00] @ ''junk''), (''123qwe'', [])] = Inr bs
         \<and> Reader_init bs = Inr fs
         \<and> map Name fs = [''foo'', ''bar'', ''123qwe'']
         \<and> map (File_Open bs) fs = [''test'', ''junk'' @ [CHR 0x00] @ ''junk'', []])"
proof -
  let ?es = "[(''foo'', ''test''), (''bar'', ''junk'' @ [CHR 0x00] @ ''junk''), (''123qwe'', [])]"
  have h1: "\<forall>(n, c)\<in>set ?es. length n \<le> 56 \<and> CHR 0x00 \<notin> set n" by simp
  have h2: "int (length ?es) \<le> MaxFiles" by (simp add: MaxFiles_def)
  have h3: "headerSize + int (length (contents ?es)) + entrySize * int (length ?es) \<le> MaxOffset"
    by (simp add: headerSize_def entrySize_def MaxOffset_def)
  from pak_round_trip[OF h1 h2 h3] obtain bs fs where
    "writePak ?es = Inr bs" "Reader_init bs = Inr fs" "map Name fs = map fst ?es"
    "map (File_Open bs) fs = map snd ?es" by blast
  then have "\<exists>bs fs. writePak ?es = Inr bs \<and> Reader_init bs = Inr fs
         \<and> map Name fs = [''foo'', ''bar'', ''123qwe'']
         \<and> map (File_Open bs) fs = [''test'', ''junk'' @ [CHR 0x00] @ ''junk'', []]"
    by (intro exI[of _ bs] exI[of _ fs]) simp
  with h2 show ?thesis by (intro conjI)
qed

text \<open>
  Claim C7 as stated fails for a name that holds a zero byte: the name \<^verbatim>\<open>a\0b\<close> has three
  bytes, is written without an error, and is read back as \<^verbatim>\<open>a\<close>.
\<close>

theorem pak_round_trip_zero_byte_counterexample:
  "writePak [(''a'' @ [CHR 0x00] @ ''b'', [])]
     = Inr (''PACK'' @ [CHR 0x0C, CHR 0x00, CHR 0x00, CHR 0x00] @ [CHR 0x40, CHR 0x00, CHR 0x00, CHR 0x00]
            @ (''a'' @ [CHR 0x00] @ ''b'' @ replicate 53 (CHR 0x00))
            @ [CHR 0x0C, CHR 0x00, CHR 0x00, CHR 0x00] @ [CHR 0x00, CHR 0x00, CHR 0x00, CHR 0x00])
   \<and> Reader_init (''PACK'' @ [CHR 0x0C, CHR 0x00, CHR 0x00, CHR 0x00] @ [CHR 0x40, CHR 0x00, CHR 0x00, CHR 0x00]
            @ (''a'' @ [CHR 0x00] @ ''b'' @ replicate 53 (CHR 0x00))
            @ [CHR 0x0C, CHR 0x00, CHR 0x00, CHR 0x00] @ [CHR 0x00, CHR 0x00, CHR 0x00, CHR 0x00])
     = Inr [\<lparr>Name = ''a'', Filepos = 12, Filelen = 0\<rparr>]"
proof -
  let ?es = "[(''a'' @ [CHR 0x00] @ ''b'', [])]"
  have h1: "\<forall>(n, c)\<in>set ?es. length n \<le> 56" by simp
  have h2: "int (length ?es) \<le> MaxFiles" by (simp add: MaxFiles_def)
  have h3: "headerSize + int (length (contents ?es)) + entrySize * int (length ?es) \<le> MaxOffset"
    by (simp add: headerSize_def entrySize_def MaxOffset_def)
  have b: "encodeHeader \<lparr>Ident = pakIdent,
              Dirofs = word_of_int (headerSize + int (length (contents ?es))),
              Dirlen = word_of_int (entrySize * int (length ?es))\<rparr>
            @ contents ?es @ concat (map encodeEntry (dirEntries headerSize ?es))
     = ''PACK'' @ [CHR 0x0C, CHR 0x00, CHR 0x00, CHR 0x00] @ [CHR 0x40, CHR 0x00, CHR 0x00, CHR 0x00]
            @ (''a'' @ [CHR 0x00] @ ''b'' @ replicate 53 (CHR 0x00))
            @ [CHR 0x0C, CHR 0x00, CHR 0x00, CHR 0x00] @ [CHR 0x00, CHR 0x00, CHR 0x00, CHR 0x00]"
    by (simp add: encodeHeader_def encodeEntry_def headerSize_def entrySize_def pakIdent_def
        putUint32_nat char_of_eq_iff)
  have f: "map toFile (dirEntries headerSize ?es) = [\<lparr>Name = ''a'', Filepos = 12, Filelen = 0\<rparr>]"
    by (simp add: toFile_def headerSize_def)
  from writePak_bytes[OF h1 h2 h3] Reader_init_written[OF h1 h2 h3] show ?thesis
    unfolding b f by (intro conjI)
qed

section \<open>The order in which the archives of a directory are scanned\<close>

lemma strLess_irrefl: "\<not> strLess a a"
  by (induction a) simp_all

lemma strLess_asym: "strLess a b \<Longrightarrow> \<not> strLess b a"
proof (induction a b rule: strLess.induct)
  case (4 x xs y ys)
  then show ?case by (simp split: if_splits) (metis less_asym' nat_neq_iff)
qed simp_all

lemma strLess_trans: "strLess a b \<Longrightarrow> strLess b c \<Longrightarrow> strLess a c"
proof (induction a arbitrary: b c)
  case Nil
  then show ?case by (cases b; cases c) simp_all
next
  case (Cons x xs)
  show ?case
  proof (cases b)
    case Nil
    with Cons.prems show ?thesis by simp
  next
    case b: (Cons y ys)
    show ?thesis
    proof (cases c)
      case Nil
      with Cons.prems b show ?thesis by simp
    next
      case c: (Cons z zs)
      from Cons.prems b c have 1: "(of_char x :: nat) < of_char y \<or> (x = y \<and> strLess xs ys)"
        and 2: "(of_char y :: nat) < of_char z \<or> (y = z \<and> strLess ys zs)" by simp_all
      from 1 2 Cons.IH[of ys zs] have "(of_char x :: nat) < of_char z \<or> (x = z \<and> strLess xs zs)"
        by (elim disjE conjE) simp_all
      with c show ?thesis by simp
    qed
  qed
qed

lemma strLess_total: "\<not> strLess a b \<Longrightarrow> \<not> strLess b a \<Longrightarrow> a = b"
proof (induction a b rule: strLess.induct)
  case (4 x xs y ys)
  from 4(2,3) have n: "\<not> (of_char x :: nat) < of_char y" "\<not> (of_char y :: nat) < of_char x"
    by simp_all
  hence "(of_char x :: nat) = of_char y" by linarith
  hence xy: "x = y" by simp
  with 4(2,3) have "\<not> strLess xs ys" "\<not> strLess ys xs" by simp_all
  with 4(1) xy show ?case by simp
qed simp_all

lemma strLess_negtrans: "\<not> strLess a b \<Longrightarrow> \<not> strLess b c \<Longrightarrow> \<not> strLess a c"
proof
  assume ac: "strLess a c"
  assume nab: "\<not> strLess a b" and nbc: "\<not> strLess b c"
  show False
  proof (cases "strLess b a")
    case True
    show False
    proof (cases "strLess c b")
      case True
      from True \<open>strLess b a\<close> have "strLess c a" by (rule strLess_trans)
      with ac show False using strLess_asym by blast
    next
      case False
      with nbc have "b = c" by (rule strLess_total)
      with ac \<open>strLess b a\<close> show False using strLess_asym by blast
    qed
  next
    case False
    with nab have "a = b" by (rule strLess_total)
    with ac nbc show False by simp
  qed
qed

lemma sink_mset: "mset (sink lt x rs) = add_mset x (mset rs)"
  by (induction rs) simp_all

lemma sink_set: "set (sink lt x rs) = insert x (set rs)"
  by (induction rs) auto

lemma foldl_sink_mset: "mset (foldl (\<lambda>rs x. sink lt x rs) acc xs) = mset acc + mset xs"
  by (induction xs arbitrary: acc) (simp_all add: sink_mset)

lemma insertionSort_mset: "mset (insertionSort lt xs) = mset xs"
  by (simp add: insertionSort_def foldl_sink_mset)

lemma sink_sorted:
  assumes tr: "\<And>a b c. a \<in> S \<Longrightarrow> b \<in> S \<Longrightarrow> c \<in> S \<Longrightarrow> R a b \<Longrightarrow> R b c \<Longrightarrow> R a c"
    and lt1: "\<And>a b. a \<in> S \<Longrightarrow> b \<in> S \<Longrightarrow> lt a b \<Longrightarrow> R a b"
    and lt2: "\<And>a b. a \<in> S \<Longrightarrow> b \<in> S \<Longrightarrow> \<not> lt a b \<Longrightarrow> R b a"
  shows "x \<in> S \<Longrightarrow> set rs \<subseteq> S \<Longrightarrow> sorted_wrt (\<lambda>a b. R b a) rs
     \<Longrightarrow> sorted_wrt (\<lambda>a b. R b a) (sink lt x rs)"
proof (induction rs)
  case Nil
  then show ?case by simp
next
  case (Cons y rs)
  have xS: "x \<in> S" and yS: "y \<in> S" and rsS: "set rs \<subseteq> S" using Cons.prems by simp_all
  have srs: "sorted_wrt (\<lambda>a b. R b a) rs" and yrs: "\<forall>z\<in>set rs. R z y"
    using Cons.prems by simp_all
  show ?case
  proof (cases "lt x y")
    case True
    have "R x y" using lt1[OF xS yS True] .
    moreover have "sorted_wrt (\<lambda>a b. R b a) (sink lt x rs)"
      using Cons.IH[OF xS rsS srs] .
    ultimately show ?thesis using True yrs by (simp add: sink_set)
  next
    case False
    have yx: "R y x" using lt2[OF xS yS False] .
    have "\<forall>z\<in>set rs. R z x"
    proof
      fix z assume z: "z \<in> set rs"
      hence zS: "z \<in> S" using rsS by blast
      from z yrs have "R z y" by simp
      thus "R z x" using tr[OF zS yS xS] yx by simp
    qed
    with srs yrs yx False show ?thesis by simp
  qed
qed

lemma foldl_sink_sorted:
  assumes tr: "\<And>a b c. a \<in> S \<Longrightarrow> b \<in> S \<Longrightarrow> c \<in> S \<Longrightarrow> R a b \<Longrightarrow> R b c \<Longrightarrow> R a c"
    and lt1: "\<And>a b. a \<in> S \<Longrightarrow> b \<in> S \<Longrightarrow> lt a b \<Longrightarrow> R a b"
    and lt2: "\<And>a b. a \<in> S \<Longrightarrow> b \<in> S \<Longrightarrow> \<not> lt a b \<Longrightarrow> R b a"
  shows "set xs \<subseteq> S \<Longrightarrow> set acc \<subseteq> S \<Longrightarrow> sorted_wrt (\<lambda>a b. R b a) acc
     \<Longrightarrow> sorted_wrt (\<lambda>a b. R b a) (foldl (\<lambda>rs x. sink lt x rs) acc xs)"
proof (induction xs arbitrary: acc)
  case Nil
  then show ?case by simp
next
  case (Cons x xs)
  have xS: "x \<in> S" and xsS: "set xs \<subseteq> S" using Cons.prems(1) by simp_all
  have 1: "sorted_wrt (\<lambda>a b. R b a) (sink lt x acc)"
    by (rule sink_sorted[where S = S and R = R, OF tr lt1 lt2 xS Cons.prems(2) Cons.prems(3)])
  have 2: "set (sink lt x acc) \<subseteq> S" using Cons.prems(2) xS by (simp add: sink_set)
  show ?case using Cons.IH[OF xsS 2 1] by simp
qed

lemma insertionSort_sorted:
  assumes tr: "\<And>a b c. a \<in> set xs \<Longrightarrow> b \<in> set xs \<Longrightarrow> c \<in> set xs \<Longrightarrow> R a b \<Longrightarrow> R b c \<Longrightarrow> R a c"
    and lt1: "\<And>a b. a \<in> set xs \<Longrightarrow> b \<in> set xs \<Longrightarrow> lt a b \<Longrightarrow> R a b"
    and lt2: "\<And>a b. a \<in> set xs \<Longrightarrow> b \<in> set xs \<Longrightarrow> \<not> lt a b \<Longrightarrow> R b a"
  shows "sorted_wrt R (insertionSort lt xs)"
proof -
  have "sorted_wrt (\<lambda>a b. R b a) (foldl (\<lambda>rs x. sink lt x rs) [] xs)"
    by (rule foldl_sink_sorted[where S = "set xs" and R = R, OF tr lt1 lt2]) simp_all
  thus ?thesis by (simp add: insertionSort_def sorted_wrt_rev)
qed

lemma scanLess_unfold:
  "scanLess E x y =
     (if pakNamed E y \<and> pakNamed E x then
        (case (pakNumber E y, pakNumber E x) of
           (Some v1, Some v2) \<Rightarrow> v1 < v2
         | _ \<Rightarrow> strLess (ToLower (uLower E) y) (ToLower (uLower E) x))
      else if pakNamed E y then True
      else if pakNamed E x then False
      else strLess (ToLower (uLower E) y) (ToLower (uLower E) x))"
  by (simp add: scanLess_def pakNamed_def pakNumber_def Let_def)

lemma scanLess_asym: "scanLess E x y \<Longrightarrow> \<not> scanLess E y x"
  using strLess_asym[of "ToLower (uLower E) y" "ToLower (uLower E) x"]
  by (auto simp: scanLess_unfold split: if_splits option.splits)

lemma baseOrder_trans: "baseOrder E a b \<Longrightarrow> baseOrder E b c \<Longrightarrow> baseOrder E a c"
  using strLess_negtrans[of "ToLower (uLower E) a" "ToLower (uLower E) b" "ToLower (uLower E) c"]
  unfolding baseOrder_def by blast

lemma baseOrder_lt1: "scanLess E a b \<Longrightarrow> baseOrder E a b"
  using strLess_asym[of "ToLower (uLower E) b" "ToLower (uLower E) a"]
  by (auto simp: scanLess_unfold baseOrder_def split: if_splits)

lemma baseOrder_lt2: "\<not> scanLess E a b \<Longrightarrow> baseOrder E b a"
  by (auto simp: scanLess_unfold baseOrder_def split: if_splits)

lemma numberOrder_trans: "numberOrder E a b \<Longrightarrow> numberOrder E b c \<Longrightarrow> numberOrder E a c"
proof -
  assume ab: "numberOrder E a b" and bc: "numberOrder E b c"
  have base: "baseOrder E a c" using ab bc baseOrder_trans unfolding numberOrder_def by blast
  have "the (pakNumber E c) \<le> the (pakNumber E a)" if a: "pakNamed E a" and c: "pakNamed E c"
  proof -
    from ab a have b: "pakNamed E b" by (simp add: numberOrder_def baseOrder_def)
    from ab a b have "the (pakNumber E b) \<le> the (pakNumber E a)" by (simp add: numberOrder_def)
    moreover from bc b c have "the (pakNumber E c) \<le> the (pakNumber E b)"
      by (simp add: numberOrder_def)
    ultimately show ?thesis by simp
  qed
  with base show ?thesis by (simp add: numberOrder_def)
qed

lemma numberOrder_lt1:
  assumes "pakNamed E a \<longrightarrow> pakNumber E a \<noteq> None" "pakNamed E b \<longrightarrow> pakNumber E b \<noteq> None"
    and "scanLess E a b"
  shows "numberOrder E a b"
proof -
  have "the (pakNumber E b) \<le> the (pakNumber E a)" if "pakNamed E a" "pakNamed E b"
    using assms that by (auto simp: scanLess_unfold)
  with baseOrder_lt1[OF assms(3)] show ?thesis by (simp add: numberOrder_def)
qed

lemma numberOrder_lt2:
  assumes "pakNamed E a \<longrightarrow> pakNumber E a \<noteq> None" "pakNamed E b \<longrightarrow> pakNumber E b \<noteq> None"
    and "\<not> scanLess E a b"
  shows "numberOrder E b a"
proof -
  have "the (pakNumber E a) \<le> the (pakNumber E b)" if "pakNamed E a" "pakNamed E b"
    using assms that by (auto simp: scanLess_unfold)
  with baseOrder_lt2[OF assms(3)] show ?thesis by (simp add: numberOrder_def)
qed

lemma nameOrder_trans: "nameOrder E a b \<Longrightarrow> nameOrder E b c \<Longrightarrow> nameOrder E a c"
proof -
  assume ab: "nameOrder E a b" and bc: "nameOrder E b c"
  have base: "baseOrder E a c" using ab bc baseOrder_trans unfolding nameOrder_def by blast
  have "\<not> strLess (ToLower (uLower E) a) (ToLower (uLower E) c)"
    if a: "pakNamed E a" and c: "pakNamed E c"
  proof -
    from ab a have b: "pakNamed E b" by (simp add: nameOrder_def baseOrder_def)
    from ab a b have "\<not> strLess (ToLower (uLower E) a) (ToLower (uLower E) b)"
      by (simp add: nameOrder_def)
    moreover from bc b c have "\<not> strLess (ToLower (uLower E) b) (ToLower (uLower E) c)"
      by (simp add: nameOrder_def)
    ultimately show ?thesis by (rule strLess_negtrans)
  qed
  with base show ?thesis by (simp add: nameOrder_def)
qed

lemma nameOrder_lt1:
  assumes "pakNamed E a \<longrightarrow> pakNumber E a = None" "pakNamed E b \<longrightarrow> pakNumber E b = None"
    and "scanLess E a b"
  shows "nameOrder E a b"
proof -
  have "\<not> strLess (ToLower (uLower E) a) (ToLower (uLower E) b)" if "pakNamed E a" "pakNamed E b"
    using assms that strLess_asym[of "ToLower (uLower E) b" "ToLower (uLower E) a"]
    by (auto simp: scanLess_unfold)
  with baseOrder_lt1[OF assms(3)] show ?thesis by (simp add: nameOrder_def)
qed

lemma nameOrder_lt2:
  assumes "pakNamed E a \<longrightarrow> pakNumber E a = None" "pakNamed E b \<longrightarrow> pakNumber E b = None"
    and "\<not> scanLess E a b"
  shows "nameOrder E b a"
proof -
  have "\<not> strLess (ToLower (uLower E) b) (ToLower (uLower E) a)" if "pakNamed E a" "pakNamed E b"
    using assms that by (auto simp: scanLess_unfold)
  with baseOrder_lt2[OF assms(3)] show ?thesis by (simp add: nameOrder_def)
qed

lemma scanLess_irrefl: "\<not> scanLess E x x"
  using scanLess_asym[of E x x] by blast

text \<open>The comparison of the source, read as the rule for a name \<open>x\<close> that stands before a name \<open>y\<close>.\<close>

lemma scanLess_rules:
  "(\<not> scanLess E y x) =
     ((pakNamed E x \<longrightarrow> pakNamed E y) \<and>
      (pakNamed E x \<and> pakNamed E y \<longrightarrow>
         (case (pakNumber E x, pakNumber E y) of
            (Some vx, Some vy) \<Rightarrow> vy \<le> vx
          | _ \<Rightarrow> \<not> strLess (ToLower (uLower E) x) (ToLower (uLower E) y))) \<and>
      (\<not> pakNamed E x \<and> \<not> pakNamed E y \<longrightarrow>
         \<not> strLess (ToLower (uLower E) x) (ToLower (uLower E) y)))"
  by (auto simp: scanLess_unfold split: option.splits)

text \<open>The insertion sort keeps the promise of the library for a transitive ordering.\<close>

lemma transitiveOrdering_asym:
  "transitiveOrdering S lt \<Longrightarrow> a \<in> S \<Longrightarrow> b \<in> S \<Longrightarrow> lt a b \<Longrightarrow> \<not> lt b a"
  unfolding transitiveOrdering_def by blast

lemma transitiveOrdering_negtrans:
  "transitiveOrdering S lt \<Longrightarrow> a \<in> S \<Longrightarrow> b \<in> S \<Longrightarrow> c \<in> S \<Longrightarrow>
   \<not> lt a b \<Longrightarrow> \<not> lt b c \<Longrightarrow> \<not> lt a c"
  unfolding transitiveOrdering_def by blast

lemma insertionSort_ordered:
  assumes "transitiveOrdering (set xs) lt"
  shows "sorted_wrt (\<lambda>a b. \<not> lt b a) (insertionSort lt xs)"
proof (rule insertionSort_sorted)
  fix a b c
  assume "a \<in> set xs" "b \<in> set xs" "c \<in> set xs" "\<not> lt b a" "\<not> lt c b"
  then show "\<not> lt c a" using transitiveOrdering_negtrans[OF assms, of c b a] by blast
next
  fix a b
  assume "a \<in> set xs" "b \<in> set xs" "lt a b"
  then show "\<not> lt b a" using transitiveOrdering_asym[OF assms] by blast
next
  fix a b
  assume "\<not> lt a b"
  then show "\<not> lt a b" .
qed

lemma scanOrder_sorts:
  assumes "sortContract E" "transitiveOrdering (set (filter (isArchiveName E) names)) (scanLess E)"
  shows "mset (scanOrder E names) = mset (filter (isArchiveName E) names) \<and>
         sorted_wrt (\<lambda>a b. \<not> scanLess E b a) (scanOrder E names)"
proof (cases "length (filter (isArchiveName E) names) \<le> 12")
  case True
  then have "scanOrder E names = insertionSort (scanLess E) (filter (isArchiveName E) names)"
    by (simp add: scanOrder_def sortSlice_def)
  then show ?thesis
    using insertionSort_mset[of "scanLess E" "filter (isArchiveName E) names"]
      insertionSort_ordered[OF assms(2)] by (simp only: simp_thms)
next
  case False
  then have l: "12 < length (filter (isArchiveName E) names)" by simp
  have "scanOrder E names = sortLong E (scanLess E) (filter (isArchiveName E) names)"
    using False by (simp add: scanOrder_def sortSlice_def)
  then show ?thesis using assms l unfolding sortContract_def by (simp only: simp_thms)
qed

text \<open>When every name with the prefix has a number, or none has, the comparison is a transitive ordering.\<close>

lemma numberOrder_conv:
  assumes "pakNamed E a \<longrightarrow> pakNumber E a \<noteq> None" "pakNamed E b \<longrightarrow> pakNumber E b \<noteq> None"
    and "numberOrder E a b"
  shows "\<not> scanLess E b a"
  using assms by (auto simp: scanLess_rules numberOrder_def baseOrder_def)

lemma nameOrder_conv:
  assumes "pakNamed E a \<longrightarrow> pakNumber E a = None" "pakNamed E b \<longrightarrow> pakNumber E b = None"
    and "nameOrder E a b"
  shows "\<not> scanLess E b a"
  using assms by (auto simp: scanLess_rules nameOrder_def baseOrder_def)

lemma negtrans_transitiveOrdering:
  assumes irr: "\<And>a. \<not> lt a a" and asym: "\<And>a b. lt a b \<Longrightarrow> \<not> lt b a"
    and nt: "\<And>a b c. a \<in> S \<Longrightarrow> b \<in> S \<Longrightarrow> c \<in> S \<Longrightarrow> \<not> lt a b \<Longrightarrow> \<not> lt b c \<Longrightarrow> \<not> lt a c"
  shows "transitiveOrdering S lt"
proof -
  have tr: "lt a c" if "a \<in> S" "b \<in> S" "c \<in> S" "lt a b" "lt b c" for a b c
  proof (rule ccontr)
    assume n: "\<not> lt a c"
    have "\<not> lt c b" using asym[OF that(5)] .
    from nt[OF that(1) that(3) that(2) n this] that(4) show False by simp
  qed
  show ?thesis unfolding transitiveOrdering_def using irr tr nt by blast
qed

lemma scanLess_transitive_numbers:
  assumes "\<forall>n\<in>S. pakNamed E n \<longrightarrow> pakNumber E n \<noteq> None"
  shows "transitiveOrdering S (scanLess E)"
proof (rule negtrans_transitiveOrdering)
  show "\<not> scanLess E a a" for a by (rule scanLess_irrefl)
  show "scanLess E a b \<Longrightarrow> \<not> scanLess E b a" for a b by (rule scanLess_asym)
  fix a b c
  assume m: "a \<in> S" "b \<in> S" "c \<in> S" and n: "\<not> scanLess E a b" "\<not> scanLess E b c"
  have pa: "pakNamed E a \<longrightarrow> pakNumber E a \<noteq> None" and pb: "pakNamed E b \<longrightarrow> pakNumber E b \<noteq> None"
    and pc: "pakNamed E c \<longrightarrow> pakNumber E c \<noteq> None"
    using assms m by blast+
  have "numberOrder E b a" by (rule numberOrder_lt2[OF pa pb n(1)])
  moreover have "numberOrder E c b" by (rule numberOrder_lt2[OF pb pc n(2)])
  ultimately have "numberOrder E c a" using numberOrder_trans by blast
  then show "\<not> scanLess E a c" by (rule numberOrder_conv[OF pc pa])
qed

lemma scanLess_transitive_names:
  assumes "\<forall>n\<in>S. pakNamed E n \<longrightarrow> pakNumber E n = None"
  shows "transitiveOrdering S (scanLess E)"
proof (rule negtrans_transitiveOrdering)
  show "\<not> scanLess E a a" for a by (rule scanLess_irrefl)
  show "scanLess E a b \<Longrightarrow> \<not> scanLess E b a" for a b by (rule scanLess_asym)
  fix a b c
  assume m: "a \<in> S" "b \<in> S" "c \<in> S" and n: "\<not> scanLess E a b" "\<not> scanLess E b c"
  have pa: "pakNamed E a \<longrightarrow> pakNumber E a = None" and pb: "pakNamed E b \<longrightarrow> pakNumber E b = None"
    and pc: "pakNamed E c \<longrightarrow> pakNumber E c = None"
    using assms m by blast+
  have "nameOrder E b a" by (rule nameOrder_lt2[OF pa pb n(1)])
  moreover have "nameOrder E c b" by (rule nameOrder_lt2[OF pb pc n(2)])
  ultimately have "nameOrder E c a" using nameOrder_trans by blast
  then show "\<not> scanLess E a c" by (rule nameOrder_conv[OF pc pa])
qed

text \<open>
  Claim C3, with the direction of the order as the code has it. For every listing of a
  directory, whenever the comparison of the source is a transitive ordering of the names ending
  in \<^verbatim>\<open>.pak\<close> or \<^verbatim>\<open>.pkz\<close> (case-insensitive), as \<^verbatim>\<open>sort.Slice\<close> requires, the archives are
  scanned, and so tried, in an order that is a rearrangement of these names in which, of any
  two names, the earlier and the later stand as follows: a name whose lower-case form begins
  with \<^verbatim>\<open>pak\<close> is followed only by such names, so that every name without the prefix stands
  before every name with it; between two names with the prefix the larger number stands first
  when the first run of digits of both parses, and otherwise the lexicographically larger
  lower-case form stands first; between two names without the prefix the lexicographically
  larger lower-case form stands first. The comparison is a transitive ordering when every
  name with the prefix has a number that parses, and when none has. The order is the reverse
  of the ascending order by prefix, number and name. For a listing with more than 12 archives
  this rests on \<^verbatim>\<open>sort.Slice\<close> keeping its promise.
\<close>

theorem scan_order_descending:
  assumes "sortContract E"
  shows "(transitiveOrdering (set (filter (isArchiveName E) names)) (scanLess E) \<longrightarrow>
          mset (scanOrder E names) = mset (filter (isArchiveName E) names) \<and>
          (\<forall>i j. i < j \<and> j < length (scanOrder E names) \<longrightarrow>
             (pakNamed E (scanOrder E names ! i) \<longrightarrow> pakNamed E (scanOrder E names ! j)) \<and>
             (pakNamed E (scanOrder E names ! i) \<and> pakNamed E (scanOrder E names ! j) \<longrightarrow>
                (case (pakNumber E (scanOrder E names ! i), pakNumber E (scanOrder E names ! j)) of
                   (Some vi, Some vj) \<Rightarrow> vj \<le> vi
                 | _ \<Rightarrow> \<not> strLess (ToLower (uLower E) (scanOrder E names ! i))
                                  (ToLower (uLower E) (scanOrder E names ! j)))) \<and>
             (\<not> pakNamed E (scanOrder E names ! i) \<and> \<not> pakNamed E (scanOrder E names ! j) \<longrightarrow>
                \<not> strLess (ToLower (uLower E) (scanOrder E names ! i))
                           (ToLower (uLower E) (scanOrder E names ! j))))) \<and>
         ((\<forall>n\<in>set names. isArchiveName E n \<and> pakNamed E n \<longrightarrow> pakNumber E n \<noteq> None) \<or>
          (\<forall>n\<in>set names. isArchiveName E n \<and> pakNamed E n \<longrightarrow> pakNumber E n = None) \<longrightarrow>
          transitiveOrdering (set (filter (isArchiveName E) names)) (scanLess E))"
proof -
  let ?xs = "filter (isArchiveName E) names"
  let ?out = "scanOrder E names"
  have A: "mset ?out = mset ?xs \<and>
          (\<forall>i j. i < j \<and> j < length ?out \<longrightarrow>
             (pakNamed E (?out ! i) \<longrightarrow> pakNamed E (?out ! j)) \<and>
             (pakNamed E (?out ! i) \<and> pakNamed E (?out ! j) \<longrightarrow>
                (case (pakNumber E (?out ! i), pakNumber E (?out ! j)) of
                   (Some vi, Some vj) \<Rightarrow> vj \<le> vi
                 | _ \<Rightarrow> \<not> strLess (ToLower (uLower E) (?out ! i)) (ToLower (uLower E) (?out ! j)))) \<and>
             (\<not> pakNamed E (?out ! i) \<and> \<not> pakNamed E (?out ! j) \<longrightarrow>
                \<not> strLess (ToLower (uLower E) (?out ! i)) (ToLower (uLower E) (?out ! j))))"
    if t: "transitiveOrdering (set ?xs) (scanLess E)"
  proof -
    from scanOrder_sorts[OF assms t] have p: "mset ?out = mset ?xs"
      and s: "sorted_wrt (\<lambda>a b. \<not> scanLess E b a) ?out" by blast+
    have "\<not> scanLess E (?out ! j) (?out ! i)" if "i < j" "j < length ?out" for i j
      using s that by (simp add: sorted_wrt_iff_nth_less)
    then show ?thesis using p unfolding scanLess_rules by blast
  qed
  have B: "transitiveOrdering (set ?xs) (scanLess E)"
    if "(\<forall>n\<in>set names. isArchiveName E n \<and> pakNamed E n \<longrightarrow> pakNumber E n \<noteq> None) \<or>
        (\<forall>n\<in>set names. isArchiveName E n \<and> pakNamed E n \<longrightarrow> pakNumber E n = None)"
    using that
  proof
    assume "\<forall>n\<in>set names. isArchiveName E n \<and> pakNamed E n \<longrightarrow> pakNumber E n \<noteq> None"
    then have "\<forall>n\<in>set ?xs. pakNamed E n \<longrightarrow> pakNumber E n \<noteq> None" by simp
    then show ?thesis by (rule scanLess_transitive_numbers)
  next
    assume "\<forall>n\<in>set names. isArchiveName E n \<and> pakNamed E n \<longrightarrow> pakNumber E n = None"
    then have "\<forall>n\<in>set ?xs. pakNamed E n \<longrightarrow> pakNumber E n = None" by simp
    then show ?thesis by (rule scanLess_transitive_names)
  qed
  from A B show ?thesis by blast
qed

text \<open>The insertion sort in the place of the library's sort of long slices keeps the promise.\<close>

lemma sortContract_insertionSort: "sortContract (E\<lparr>sortLong := insertionSort\<rparr>)"
  unfolding sortContract_def using insertionSort_mset insertionSort_ordered by auto

text \<open>A listing with fourteen archives and a directory.\<close>

lemma example_listing:
  "scanOrder (exampleEnv\<lparr>sortLong := insertionSort\<rparr>)
     [''pak0.pak'', ''maps'', ''pak2.pak'', ''custom.pak'', ''pak1.pak'', ''pak3.pak'', ''pak4.pak'',
      ''pak5.pak'', ''pak6.pak'', ''pak7.pak'', ''pak8.pak'', ''pak9.pak'', ''PAK10.PKZ'',
      ''pak11.pak'', ''zaero.pak'']
   = [''zaero.pak'', ''custom.pak'', ''pak11.pak'', ''PAK10.PKZ'', ''pak9.pak'', ''pak8.pak'',
      ''pak7.pak'', ''pak6.pak'', ''pak5.pak'', ''pak4.pak'', ''pak3.pak'', ''pak2.pak'',
      ''pak1.pak'', ''pak0.pak'']"
  by code_simp

lemma example_listing_numbers:
  "\<forall>n\<in>set [''pak0.pak'', ''maps'', ''pak2.pak'', ''custom.pak'', ''pak1.pak'', ''pak3.pak'', ''pak4.pak'',
      ''pak5.pak'', ''pak6.pak'', ''pak7.pak'', ''pak8.pak'', ''pak9.pak'', ''PAK10.PKZ'',
      ''pak11.pak'', ''zaero.pak''].
     isArchiveName (exampleEnv\<lparr>sortLong := insertionSort\<rparr>) n \<and>
     pakNamed (exampleEnv\<lparr>sortLong := insertionSort\<rparr>) n \<longrightarrow>
     pakNumber (exampleEnv\<lparr>sortLong := insertionSort\<rparr>) n \<noteq> None"
  by code_simp

lemma example_listing_keys:
  "pakNamed (exampleEnv\<lparr>sortLong := insertionSort\<rparr>) ''PAK10.PKZ'' \<and>
   pakNamed (exampleEnv\<lparr>sortLong := insertionSort\<rparr>) ''pak9.pak'' \<and>
   pakNumber (exampleEnv\<lparr>sortLong := insertionSort\<rparr>) ''PAK10.PKZ'' = Some 10 \<and>
   pakNumber (exampleEnv\<lparr>sortLong := insertionSort\<rparr>) ''pak9.pak'' = Some 9 \<and>
   \<not> pakNamed (exampleEnv\<lparr>sortLong := insertionSort\<rparr>) ''custom.pak''"
  by code_simp

theorem scan_order_descending_witness:
  "sortContract (exampleEnv\<lparr>sortLong := insertionSort\<rparr>) \<and>
   transitiveOrdering
     (set (filter (isArchiveName (exampleEnv\<lparr>sortLong := insertionSort\<rparr>))
        [''pak0.pak'', ''maps'', ''pak2.pak'', ''custom.pak'', ''pak1.pak'', ''pak3.pak'', ''pak4.pak'',
         ''pak5.pak'', ''pak6.pak'', ''pak7.pak'', ''pak8.pak'', ''pak9.pak'', ''PAK10.PKZ'',
         ''pak11.pak'', ''zaero.pak'']))
     (scanLess (exampleEnv\<lparr>sortLong := insertionSort\<rparr>)) \<and>
   scanOrder (exampleEnv\<lparr>sortLong := insertionSort\<rparr>)
     [''pak0.pak'', ''maps'', ''pak2.pak'', ''custom.pak'', ''pak1.pak'', ''pak3.pak'', ''pak4.pak'',
      ''pak5.pak'', ''pak6.pak'', ''pak7.pak'', ''pak8.pak'', ''pak9.pak'', ''PAK10.PKZ'',
      ''pak11.pak'', ''zaero.pak'']
   = [''zaero.pak'', ''custom.pak'', ''pak11.pak'', ''PAK10.PKZ'', ''pak9.pak'', ''pak8.pak'',
      ''pak7.pak'', ''pak6.pak'', ''pak5.pak'', ''pak4.pak'', ''pak3.pak'', ''pak2.pak'',
      ''pak1.pak'', ''pak0.pak''] \<and>
   the (pakNumber (exampleEnv\<lparr>sortLong := insertionSort\<rparr>) ''pak9.pak'')
     \<le> the (pakNumber (exampleEnv\<lparr>sortLong := insertionSort\<rparr>) ''PAK10.PKZ'')"
proof -
  let ?E = "exampleEnv\<lparr>sortLong := insertionSort\<rparr>"
  let ?ns = "[''pak0.pak'', ''maps'', ''pak2.pak'', ''custom.pak'', ''pak1.pak'', ''pak3.pak'', ''pak4.pak'',
      ''pak5.pak'', ''pak6.pak'', ''pak7.pak'', ''pak8.pak'', ''pak9.pak'', ''PAK10.PKZ'',
      ''pak11.pak'', ''zaero.pak'']"
  have c: "sortContract ?E" by (rule sortContract_insertionSort)
  note T = scan_order_descending[OF c, of ?ns]
  have t: "transitiveOrdering (set (filter (isArchiveName ?E) ?ns)) (scanLess ?E)"
    using T[THEN conjunct2] example_listing_numbers by blast
  from T[THEN conjunct1] t have
    r: "\<forall>i j. i < j \<and> j < length (scanOrder ?E ?ns) \<longrightarrow>
       (pakNamed ?E (scanOrder ?E ?ns ! i) \<and> pakNamed ?E (scanOrder ?E ?ns ! j) \<longrightarrow>
          (case (pakNumber ?E (scanOrder ?E ?ns ! i), pakNumber ?E (scanOrder ?E ?ns ! j)) of
             (Some vi, Some vj) \<Rightarrow> vj \<le> vi
           | _ \<Rightarrow> \<not> strLess (ToLower (uLower ?E) (scanOrder ?E ?ns ! i))
                            (ToLower (uLower ?E) (scanOrder ?E ?ns ! j))))"
    by blast
  have "(3::nat) < 4 \<and> 4 < length (scanOrder ?E ?ns)" by (simp add: example_listing)
  with r have "pakNamed ?E (scanOrder ?E ?ns ! 3) \<and> pakNamed ?E (scanOrder ?E ?ns ! 4) \<longrightarrow>
          (case (pakNumber ?E (scanOrder ?E ?ns ! 3), pakNumber ?E (scanOrder ?E ?ns ! 4)) of
             (Some vi, Some vj) \<Rightarrow> vj \<le> vi
           | _ \<Rightarrow> \<not> strLess (ToLower (uLower ?E) (scanOrder ?E ?ns ! 3))
                            (ToLower (uLower ?E) (scanOrder ?E ?ns ! 4)))"
    by blast
  then have n: "the (pakNumber ?E ''pak9.pak'') \<le> the (pakNumber ?E ''PAK10.PKZ'')"
    by (simp add: example_listing example_listing_keys)
  from c t example_listing n show ?thesis by (intro conjI)
qed

text \<open>
  Claim C3 as stated fails on its own example: the names \<^verbatim>\<open>pak0.pak\<close>, \<^verbatim>\<open>pak2.pak\<close> and
  \<^verbatim>\<open>custom.pak\<close> are scanned in the order \<^verbatim>\<open>custom.pak\<close>, \<^verbatim>\<open>pak2.pak\<close>, \<^verbatim>\<open>pak0.pak\<close>. And in
  either direction no order can follow its rules for the three names \<^verbatim>\<open>pak10.pak\<close>,
  \<^verbatim>\<open>pak2.pak\<close> and \<^verbatim>\<open>pak19999999999999999999.pak\<close>, whose number does not fit 64 bits so that
  it does not parse: by number the first is to stand before the second, by name the second
  before the third and the third before the first. They are scanned in the order given, the
  first before the third.
\<close>

theorem scan_order_ascending_counterexample:
  "scanOrder exampleEnv [''pak0.pak'', ''pak2.pak'', ''custom.pak''] =
     [''custom.pak'', ''pak2.pak'', ''pak0.pak''] \<and>
   scanOrder exampleEnv [''pak0.pak'', ''pak2.pak'', ''custom.pak''] \<noteq>
     [''pak0.pak'', ''pak2.pak'', ''custom.pak''] \<and>
   pakNumber exampleEnv ''pak10.pak'' = Some 10 \<and> pakNumber exampleEnv ''pak2.pak'' = Some 2 \<and>
   pakNumber exampleEnv ''pak19999999999999999999.pak'' = None \<and>
   scanLess exampleEnv ''pak10.pak'' ''pak2.pak'' \<and>
   scanLess exampleEnv ''pak2.pak'' ''pak19999999999999999999.pak'' \<and>
   scanLess exampleEnv ''pak19999999999999999999.pak'' ''pak10.pak'' \<and>
   scanOrder exampleEnv [''pak10.pak'', ''pak2.pak'', ''pak19999999999999999999.pak''] =
     [''pak10.pak'', ''pak2.pak'', ''pak19999999999999999999.pak'']"
  by code_simp

section \<open>Which files the reader and the scanner reject\<close>

lemma word32_sum_exceeds:
  fixes p l :: "32 word"
  shows "(l > 2147483647 \<or> p > 2147483647 - l) = (2147483647 < unat p + unat l)"
proof (cases "l \<le> 2147483647")
  case True
  hence le: "unat l \<le> 2147483647" by (simp add: word_le_nat_alt)
  have "unat (2147483647 - l) = 2147483647 - unat l"
    using True by (simp add: unat_sub)
  hence "(p > 2147483647 - l) = (2147483647 - unat l < unat p)"
    by (simp add: word_less_nat_alt)
  moreover have "\<not> l > 2147483647" using True by simp
  ultimately show ?thesis using le by auto
next
  case False
  hence "2147483647 < unat l" by (simp add: word_le_nat_alt)
  with False show ?thesis by auto
qed

lemma word32_mod64: "((w :: 32 word) mod 64 \<noteq> 0) = (unat w mod 64 \<noteq> 0)"
proof -
  have "unat (w mod 64) = unat w mod 64" by (simp add: unat_mod)
  thus ?thesis by (metis unat_eq_0)
qed

lemma word32_div64: "uint ((w :: 32 word) div 64) = int (unat w div 64)"
proof -
  have "unat (w div 64) = unat w div unat (64 :: 32 word)" by (rule unat_div)
  also have "unat (64 :: 32 word) = 64" by simp
  finally have u: "unat (w div 64) = unat w div 64" .
  show ?thesis by (simp only: uint_nat u)
qed

lemma readFull_ok: "pos + n \<le> length bs \<Longrightarrow> readFull bs pos n = Inr (take n (drop pos bs))"
  by (auto simp: readFull_def Let_def)

lemma readFull_fail_cases:
  "\<not> pos + n \<le> length bs \<Longrightarrow> 0 < n \<Longrightarrow>
   readFull bs pos n = Inl EOF \<or> readFull bs pos n = Inl ErrUnexpectedEOF"
  by (auto simp: readFull_def Let_def)

lemma readEntries_format:
  "(\<exists>e. readEntries bs pos n = Inl e \<and> isFormatError e) =
   (\<exists>i<n. pos + 64 * i + 64 \<le> length bs \<and>
      2147483647 < unat (eFilepos (entryAt bs (pos + 64 * i))) + unat (eFilelen (entryAt bs (pos + 64 * i))))"
proof (induction n arbitrary: pos)
  case 0
  show ?case by simp
next
  case (Suc n)
  let ?bad = "\<lambda>q. 2147483647 < unat (eFilepos (entryAt bs q)) + unat (eFilelen (entryAt bs q))"
  show ?case
  proof (cases "pos + 64 \<le> length bs")
    case False
    from readFull_fail_cases[OF False] have "\<not> (\<exists>e. readEntries bs pos (Suc n) = Inl e \<and> isFormatError e)"
      by (auto simp: isFormatError_def)
    moreover have "\<not> (\<exists>i<Suc n. pos + 64 * i + 64 \<le> length bs \<and> ?bad (pos + 64 * i))"
      using False by auto
    ultimately show ?thesis by blast
  next
    case True
    note rf = readFull_ok[OF True]
    show ?thesis
    proof (cases "?bad pos")
      case bad: True
      hence w: "eFilelen (entryAt bs pos) > 2147483647 \<or>
          eFilepos (entryAt bs pos) > 2147483647 - eFilelen (entryAt bs pos)"
        using word32_sum_exceeds[of "eFilelen (entryAt bs pos)" "eFilepos (entryAt bs pos)"] by blast
      have "\<exists>e. readEntries bs pos (Suc n) = Inl e \<and> isFormatError e"
        using w by (auto simp: rf entryAt_def Let_def MaxOffset_def isFormatError_def)
      moreover have "\<exists>i<Suc n. pos + 64 * i + 64 \<le> length bs \<and> ?bad (pos + 64 * i)"
        using True bad by (intro exI[of _ 0]) simp
      ultimately show ?thesis by blast
    next
      case good: False
      hence w: "\<not> (eFilelen (entryAt bs pos) > 2147483647 \<or>
          eFilepos (entryAt bs pos) > 2147483647 - eFilelen (entryAt bs pos))"
        using word32_sum_exceeds[of "eFilelen (entryAt bs pos)" "eFilepos (entryAt bs pos)"] by blast
      have 1: "(\<exists>e. readEntries bs pos (Suc n) = Inl e \<and> isFormatError e) =
          (\<exists>e. readEntries bs (pos + 64) n = Inl e \<and> isFormatError e)"
        using w by (auto simp: rf entryAt_def Let_def MaxOffset_def split: sum.splits)
      have 2: "(\<exists>i<Suc n. pos + 64 * i + 64 \<le> length bs \<and> ?bad (pos + 64 * i)) =
          (\<exists>i<n. pos + 64 + 64 * i + 64 \<le> length bs \<and> ?bad (pos + 64 + 64 * i))"
      proof
        assume "\<exists>i<Suc n. pos + 64 * i + 64 \<le> length bs \<and> ?bad (pos + 64 * i)"
        then obtain i where i: "i < Suc n" "pos + 64 * i + 64 \<le> length bs" "?bad (pos + 64 * i)"
          by blast
        with good have "i \<noteq> 0" by (cases i) auto
        then obtain k where k: "i = Suc k" by (cases i) auto
        have e: "pos + 64 * i = pos + 64 + 64 * k" using k by simp
        from i k show "\<exists>i<n. pos + 64 + 64 * i + 64 \<le> length bs \<and> ?bad (pos + 64 + 64 * i)"
          unfolding e by (intro exI[of _ k]) simp
      next
        assume "\<exists>i<n. pos + 64 + 64 * i + 64 \<le> length bs \<and> ?bad (pos + 64 + 64 * i)"
        then obtain k where k: "k < n" "pos + 64 + 64 * k + 64 \<le> length bs" "?bad (pos + 64 + 64 * k)"
          by blast
        have e: "pos + 64 * Suc k = pos + 64 + 64 * k" by simp
        from k show "\<exists>i<Suc n. pos + 64 * i + 64 \<le> length bs \<and> ?bad (pos + 64 * i)"
          by (intro exI[of _ "Suc k"]) (simp only: e, simp)
      qed
      show ?thesis unfolding 1 2 by (rule Suc.IH)
    qed
  qed
qed

lemma readEntries_ok:
  "readEntries bs pos n = Inr fs \<Longrightarrow>
   fs = map (\<lambda>i. toFile (entryAt bs (pos + 64 * i))) [0..<n] \<and> (\<forall>i<n. pos + 64 * i + 64 \<le> length bs)"
proof (induction n arbitrary: pos fs)
  case 0
  then show ?case by simp
next
  case (Suc n)
  have True: "pos + 64 \<le> length bs"
  proof (rule ccontr)
    assume "\<not> pos + 64 \<le> length bs"
    from readFull_fail_cases[OF this] Suc.prems show False by auto
  qed
  note rf = readFull_ok[OF True]
  from Suc.prems obtain fs' where fs': "readEntries bs (pos + 64) n = Inr fs'"
    and fs: "fs = toFile (entryAt bs pos) # fs'"
    by (auto simp: rf entryAt_def toFile_def Let_def split: if_splits sum.splits)
  from Suc.IH[OF fs'] have ih: "fs' = map (\<lambda>i. toFile (entryAt bs (pos + 64 + 64 * i))) [0..<n]"
    and ihp: "\<forall>i<n. pos + 64 + 64 * i + 64 \<le> length bs" by simp_all
  have m: "map (\<lambda>i. toFile (entryAt bs (pos + 64 * i))) [0..<Suc n] =
      toFile (entryAt bs pos) # map (\<lambda>i. toFile (entryAt bs (pos + 64 + 64 * i))) [0..<n]"
    by (simp add: map_upt_Suc add.assoc del: upt_Suc)
  have p: "\<forall>i<Suc n. pos + 64 * i + 64 \<le> length bs"
  proof (intro allI impI)
    fix i assume "i < Suc n"
    show "pos + 64 * i + 64 \<le> length bs"
    proof (cases i)
      case 0
      with True show ?thesis by simp
    next
      case (Suc k)
      with \<open>i < Suc n\<close> ihp have "pos + 64 + 64 * k + 64 \<le> length bs" by simp
      with Suc show ?thesis by simp
    qed
  qed
  from fs ih m p show ?case by simp
qed

lemma scanEntries_fail:
  "isl (scanEntries lowU bs pos n m) =
   (\<exists>i<n. \<not> pos + 64 * i + 64 \<le> length bs \<or> 2147483647 < unat (eFilelen (entryAt bs (pos + 64 * i))))"
proof (induction n arbitrary: pos m)
  case 0
  show ?case by simp
next
  case (Suc n)
  let ?bad = "\<lambda>q. \<not> q + 64 \<le> length bs \<or> 2147483647 < unat (eFilelen (entryAt bs q))"
  have split: "(\<exists>i<Suc n. ?bad (pos + 64 * i)) = (?bad pos \<or> (\<exists>i<n. ?bad (pos + 64 + 64 * i)))"
  proof
    assume "\<exists>i<Suc n. ?bad (pos + 64 * i)"
    then obtain i where i: "i < Suc n" "?bad (pos + 64 * i)" by blast
    show "?bad pos \<or> (\<exists>i<n. ?bad (pos + 64 + 64 * i))"
    proof (cases i)
      case 0
      with i show ?thesis by simp
    next
      case (Suc k)
      hence e: "pos + 64 * i = pos + 64 + 64 * k" by simp
      from i Suc have "k < n" by simp
      moreover from i(2) have "?bad (pos + 64 + 64 * k)" unfolding e .
      ultimately show ?thesis by blast
    qed
  next
    assume "?bad pos \<or> (\<exists>i<n. ?bad (pos + 64 + 64 * i))"
    thus "\<exists>i<Suc n. ?bad (pos + 64 * i)"
    proof
      assume "?bad pos"
      thus ?thesis by (intro exI[of _ 0]) simp
    next
      assume "\<exists>i<n. ?bad (pos + 64 + 64 * i)"
      then obtain k where k: "k < n" "?bad (pos + 64 + 64 * k)" by blast
      have e: "pos + 64 * Suc k = pos + 64 + 64 * k" by simp
      from k show ?thesis by (intro exI[of _ "Suc k"]) (simp only: e, simp)
    qed
  qed
  show ?case
  proof (cases "pos + 64 \<le> length bs")
    case False
    from readFull_fail_cases[OF False] have "isl (scanEntries lowU bs pos (Suc n) m)" by auto
    with False show ?thesis unfolding split by simp
  next
    case True
    note rf = readFull_ok[OF True]
    show ?thesis
    proof (cases "2147483647 < unat (eFilelen (entryAt bs pos))")
      case bad: True
      hence "eFilelen (entryAt bs pos) > 2147483647" by (simp add: word_less_nat_alt)
      hence "isl (scanEntries lowU bs pos (Suc n) m)" by (simp add: rf entryAt_def Let_def)
      with bad show ?thesis unfolding split by simp
    next
      case good: False
      hence "\<not> eFilelen (entryAt bs pos) > 2147483647" by (simp add: word_less_nat_alt)
      hence "isl (scanEntries lowU bs pos (Suc n) m) =
          (\<exists>i<n. ?bad (pos + 64 + 64 * i))"
        by (simp add: rf entryAt_def Let_def Suc.IH)
      with good True show ?thesis unfolding split by simp
    qed
  qed
qed

lemma Reader_init_unfold:
  assumes "12 \<le> length bs"
  shows "Reader_init bs =
     (if Ident (fileHeader bs) \<noteq> pakIdent then Inl errBadIdent
      else if unat (Dirlen (fileHeader bs)) mod 64 \<noteq> 0 then Inl errBadDirLen
      else if 4096 < entryCount bs then Inl errTooManyFiles
      else if Dirofs (fileHeader bs) > 2147483647 - Dirlen (fileHeader bs) then Inl errBadDirOfs
      else readEntries bs (unat (Dirofs (fileHeader bs))) (entryCount bs))"
proof -
  have rf: "readFull bs 0 12 = Inr (take 12 bs)" using readFull_ok[of 0 12 bs] assms by simp
  have m: "(Dirlen (fileHeader bs) mod 64 \<noteq> 0) = (unat (Dirlen (fileHeader bs)) mod 64 \<noteq> 0)"
    by (rule word32_mod64)
  have d: "uint (Dirlen (fileHeader bs) div 64) = int (entryCount bs)"
    by (simp only: word32_div64 entryCount_def)
  show ?thesis
    unfolding Reader_init_def rf sum.case Let_def fileHeader_def[symmetric]
    by (simp add: entrySize_def MaxFiles_def MaxOffset_def m d)
qed

lemma scanpak_unfold:
  assumes "12 \<le> length bs" "openFile E name = Some bs"
  shows "isl (scanpak E name) =
     (Ident (fileHeader bs) \<noteq> pakIdent \<or>
      isl (scanEntries (uLower E) bs (unat (Dirofs (fileHeader bs))) (entryCount bs) Map.empty))"
proof -
  have rf: "readFull bs 0 12 = Inr (take 12 bs)" using readFull_ok[of 0 12 bs] assms by simp
  have "unat (Dirlen (fileHeader bs) div 64) = unat (Dirlen (fileHeader bs)) div unat (64 :: 32 word)"
    by (rule unat_div)
  hence d: "unat (Dirlen (fileHeader bs) div 64) = entryCount bs" by (simp add: entryCount_def)
  show ?thesis
    unfolding scanpak_def assms(2) option.case rf sum.case Let_def fileHeader_def[symmetric] d
    by (simp split: sum.splits)
qed

lemma dirlen_small:
  assumes "unat (w :: 32 word) mod 64 = 0" "\<not> 4096 < unat w div 64"
  shows "\<not> w > 2147483647"
proof -
  have "unat w = 64 * (unat w div 64) + unat w mod 64" by simp
  with assms have "unat w \<le> 262144" by linarith
  thus ?thesis by (simp add: word_less_nat_alt)
qed

text \<open>
  Claim C1, for the reader of the package and for the scanner of the server, which are two
  different functions. For every file of at least 12 bytes: \<^verbatim>\<open>Reader.init\<close> fails with one of
  its format errors exactly when the ident differs from \<^verbatim>\<open>PACK\<close>, or the directory length is
  not a multiple of 64, or the entry count exceeds 4096, or the directory offset plus the
  directory length exceeds \<open>2\<^sup>3\<^sup>1 - 1\<close>, or some directory entry lying within the file has a
  file position plus file length exceeding \<open>2\<^sup>3\<^sup>1 - 1\<close>; when it succeeds, every announced
  entry lies within the file and is returned, in order. \<^verbatim>\<open>scanpak\<close> applied to the same file
  fails exactly when the ident differs, or some announced entry does not lie within the file,
  or some entry's file length alone exceeds \<open>2\<^sup>3\<^sup>1 - 1\<close>.
\<close>

theorem pak_rejection:
  assumes "12 \<le> length bs"
  shows "((\<exists>e. Reader_init bs = Inl e \<and> isFormatError e) =
           (Ident (fileHeader bs) \<noteq> pakIdent \<or>
            unat (Dirlen (fileHeader bs)) mod 64 \<noteq> 0 \<or>
            4096 < entryCount bs \<or>
            2147483647 < unat (Dirofs (fileHeader bs)) + unat (Dirlen (fileHeader bs)) \<or>
            (\<exists>i<entryCount bs. entryPresent bs i \<and>
               2147483647 < unat (eFilepos (fileEntry bs i)) + unat (eFilelen (fileEntry bs i))))) \<and>
         (\<forall>fs. Reader_init bs = Inr fs \<longrightarrow>
            fs = map (\<lambda>i. toFile (fileEntry bs i)) [0..<entryCount bs] \<and>
            (\<forall>i<entryCount bs. entryPresent bs i)) \<and>
         (\<forall>E name. openFile E name = Some bs \<longrightarrow>
            isl (scanpak E name) =
              (Ident (fileHeader bs) \<noteq> pakIdent \<or>
               (\<exists>i<entryCount bs. \<not> entryPresent bs i \<or>
                  2147483647 < unat (eFilelen (fileEntry bs i)))))"
proof -
  let ?h = "fileHeader bs"
  let ?n = "entryCount bs"
  let ?entries = "\<exists>i<?n. entryPresent bs i \<and>
      2147483647 < unat (eFilepos (fileEntry bs i)) + unat (eFilelen (fileEntry bs i))"
  note U = Reader_init_unfold[OF assms]
  have RE: "(\<exists>e. readEntries bs (unat (Dirofs ?h)) ?n = Inl e \<and> isFormatError e) = ?entries"
    unfolding entryPresent_def fileEntry_def by (rule readEntries_format)
  have A: "(\<exists>e. Reader_init bs = Inl e \<and> isFormatError e) =
           (Ident ?h \<noteq> pakIdent \<or> unat (Dirlen ?h) mod 64 \<noteq> 0 \<or> 4096 < ?n \<or>
            2147483647 < unat (Dirofs ?h) + unat (Dirlen ?h) \<or> ?entries)"
  proof (cases "Ident ?h \<noteq> pakIdent \<or> unat (Dirlen ?h) mod 64 \<noteq> 0 \<or> 4096 < ?n")
    case True
    hence "\<exists>e. Reader_init bs = Inl e \<and> isFormatError e"
      unfolding U by (auto simp: isFormatError_def)
    with True show ?thesis by blast
  next
    case False
    hence f: "Ident ?h = pakIdent" "unat (Dirlen ?h) mod 64 = 0" "\<not> 4096 < ?n" by simp_all
    have small: "\<not> Dirlen ?h > 2147483647"
      using dirlen_small[of "Dirlen ?h"] f by (simp add: entryCount_def)
    have ofs: "(Dirofs ?h > 2147483647 - Dirlen ?h) =
        (2147483647 < unat (Dirofs ?h) + unat (Dirlen ?h))"
      using word32_sum_exceeds[of "Dirlen ?h" "Dirofs ?h"] small by blast
    show ?thesis
    proof (cases "Dirofs ?h > 2147483647 - Dirlen ?h")
      case True
      hence "\<exists>e. Reader_init bs = Inl e \<and> isFormatError e"
        unfolding U using f by (simp add: isFormatError_def)
      with True ofs show ?thesis by blast
    next
      case nofs: False
      have "Reader_init bs = readEntries bs (unat (Dirofs ?h)) ?n"
        unfolding U using f nofs by simp
      with RE f nofs ofs show ?thesis by simp
    qed
  qed
  have B: "fs = map (\<lambda>i. toFile (fileEntry bs i)) [0..<?n] \<and> (\<forall>i<?n. entryPresent bs i)"
    if ok: "Reader_init bs = Inr fs" for fs
  proof -
    from ok have "readEntries bs (unat (Dirofs ?h)) ?n = Inr fs"
      unfolding U by (simp split: if_splits)
    from readEntries_ok[OF this] show ?thesis
      unfolding entryPresent_def fileEntry_def .
  qed
  have C: "isl (scanpak E name) =
      (Ident ?h \<noteq> pakIdent \<or>
       (\<exists>i<?n. \<not> entryPresent bs i \<or> 2147483647 < unat (eFilelen (fileEntry bs i))))"
    if op: "openFile E name = Some bs" for E name
    unfolding scanpak_unfold[OF assms op] scanEntries_fail entryPresent_def fileEntry_def ..
  from A B C show ?thesis by blast
qed

text \<open>The reader and the scanner on the archive with an entry beyond the limit.\<close>

lemma beyondArchive_length: "length beyondArchive = 76"
  by (simp add: beyondArchive_def)

lemma beyondArchive_header:
  "fileHeader beyondArchive = \<lparr>Ident = pakIdent, Dirofs = 12, Dirlen = 64\<rparr>"
  by (simp add: fileHeader_def decodeHeader_def beyondArchive_def pakIdent_def)

lemma beyondArchive_count: "entryCount beyondArchive = 1"
  by (simp add: entryCount_def beyondArchive_header)

lemma beyondArchive_entry:
  "eFilepos (entryAt beyondArchive 12) = 4294967295 \<and> eFilelen (entryAt beyondArchive 12) = 1 \<and>
   takeWhile (\<lambda>c. c \<noteq> CHR 0x00) (eName (entryAt beyondArchive 12)) = ''a''"
  by (simp add: entryAt_def decodeEntry_def beyondArchive_def)

lemma beyondArchive_Reader: "Reader_init beyondArchive = Inl errBadFilePos"
proof -
  have rf: "readFull beyondArchive 12 64 = Inr (take 64 (drop 12 beyondArchive))"
    by (rule readFull_ok) (simp add: beyondArchive_length)
  have "readEntries beyondArchive 12 (Suc 0) = Inl errBadFilePos"
    by (simp add: rf entryAt_def[symmetric] beyondArchive_entry MaxOffset_def Let_def)
  thus ?thesis
    by (simp add: Reader_init_unfold beyondArchive_length beyondArchive_header
        beyondArchive_count)
qed

lemma beyondArchive_scanpak:
  "\<not> isl (scanpak (exampleEnv\<lparr>openFile := [''/srv/q2/baseq2/pak1.pak'' \<mapsto> beyondArchive]\<rparr>)
            ''/srv/q2/baseq2/pak1.pak'')"
proof -
  have rf: "readFull beyondArchive 12 64 = Inr (take 64 (drop 12 beyondArchive))"
    by (rule readFull_ok) (simp add: beyondArchive_length)
  have "\<not> isl (scanEntries lowU beyondArchive 12 (Suc 0) Map.empty)" for lowU
    by (simp add: rf entryAt_def[symmetric] beyondArchive_entry Let_def)
  thus ?thesis
    by (simp add: scanpak_unfold[where bs = beyondArchive] beyondArchive_length
        beyondArchive_header beyondArchive_count)
qed

lemma normalizeName_a: "normalizeName (map lowerByte) ''a'' = ''a''"
  by code_simp

lemma beyondArchive_scanned:
  "map_option offset
     (the (files (projr (scanpak (exampleEnv\<lparr>openFile := [''/srv/q2/baseq2/pak1.pak'' \<mapsto> beyondArchive]\<rparr>)
            ''/srv/q2/baseq2/pak1.pak''))) ''a'') = Some 4294967295"
proof -
  have rf0: "readFull beyondArchive 0 12 = Inr (take 12 beyondArchive)"
    using readFull_ok[of 0 12 beyondArchive] by (simp add: beyondArchive_length)
  have rf: "readFull beyondArchive 12 64 = Inr (take 64 (drop 12 beyondArchive))"
    by (rule readFull_ok) (simp add: beyondArchive_length)
  have u: "unat (4294967295 :: 32 word) = 4294967295" by simp
  have se: "scanEntries (map lowerByte) beyondArchive 12 (Suc 0) Map.empty =
      Inr [''a'' \<mapsto> \<lparr>offset = 4294967295, esize = 1, filecrc = 0, filelen = 0, mtime = 0,
                      emethod = 0\<rparr>]"
    by (simp add: rf entryAt_def[symmetric] beyondArchive_entry Let_def normalizeName_a u)
  have d: "unat (Dirlen (fileHeader beyondArchive) div 64) = Suc 0"
    by (simp add: beyondArchive_header)
  show ?thesis
    unfolding scanpak_def
    by (simp add: exampleEnv_def rf0 fileHeader_def[symmetric] beyondArchive_header Let_def se
        del: scanEntries.simps)
qed

theorem pak_rejection_witness:
  "12 \<le> length beyondArchive \<and>
   isl (Reader_init beyondArchive) \<and> isFormatError (projl (Reader_init beyondArchive)) \<and>
   Ident (fileHeader beyondArchive) = pakIdent \<and> entryCount beyondArchive = 1 \<and>
   entryPresent beyondArchive 0 \<and>
   unat (eFilepos (fileEntry beyondArchive 0)) + unat (eFilelen (fileEntry beyondArchive 0))
     = 4294967296 \<and>
   \<not> isl (scanpak (exampleEnv\<lparr>openFile := [''/srv/q2/baseq2/pak1.pak'' \<mapsto> beyondArchive]\<rparr>)
            ''/srv/q2/baseq2/pak1.pak'')"
proof -
  let ?E = "exampleEnv\<lparr>openFile := [''/srv/q2/baseq2/pak1.pak'' \<mapsto> beyondArchive]\<rparr>"
  have len: "12 \<le> length beyondArchive" by (simp add: beyondArchive_length)
  note T = pak_rejection[OF len]
  have p: "entryPresent beyondArchive 0"
    by (simp add: entryPresent_def beyondArchive_header beyondArchive_length)
  have s: "unat (eFilepos (fileEntry beyondArchive 0)) + unat (eFilelen (fileEntry beyondArchive 0))
      = 4294967296"
    by (simp add: fileEntry_def beyondArchive_header beyondArchive_entry)
  have l: "unat (eFilelen (fileEntry beyondArchive 0)) = 1"
    by (simp add: fileEntry_def beyondArchive_header beyondArchive_entry)
  have "\<exists>i<entryCount beyondArchive. entryPresent beyondArchive i \<and>
      2147483647 < unat (eFilepos (fileEntry beyondArchive i)) + unat (eFilelen (fileEntry beyondArchive i))"
    using p s by (intro exI[of _ 0]) (simp add: beyondArchive_count)
  with T[THEN conjunct1] obtain e where e: "Reader_init beyondArchive = Inl e" "isFormatError e"
    by blast
  have o: "openFile ?E ''/srv/q2/baseq2/pak1.pak'' = Some beyondArchive" by simp
  have "\<not> (Ident (fileHeader beyondArchive) \<noteq> pakIdent \<or>
      (\<exists>i<entryCount beyondArchive. \<not> entryPresent beyondArchive i \<or>
         2147483647 < unat (eFilelen (fileEntry beyondArchive i))))"
    using p l by (simp add: beyondArchive_count beyondArchive_header)
  with T[THEN conjunct2, THEN conjunct2, rule_format, OF o]
  have sc: "\<not> isl (scanpak ?E ''/srv/q2/baseq2/pak1.pak'')" by blast
  from len e p s sc show ?thesis by (simp add: beyondArchive_header beyondArchive_count)
qed

text \<open>
  Claim C1 as stated fails for the scanner: the archive whose only entry has the file position
  \<open>2\<^sup>3\<^sup>2 - 1\<close> and the file length 1 is rejected by \<^verbatim>\<open>Reader.init\<close> and accepted by
  \<^verbatim>\<open>scanpak\<close>, which records the entry at that offset. It also fails for the reader on an
  input shorter than a header: the four bytes \<^verbatim>\<open>XXXX\<close> differ from the ident, and the error is
  \<^verbatim>\<open>io.ErrUnexpectedEOF\<close>, none of the format errors.
\<close>

theorem scanpak_accepts_counterexample:
  "Reader_init beyondArchive = Inl errBadFilePos \<and>
   \<not> isl (scanpak (exampleEnv\<lparr>openFile := [''/srv/q2/baseq2/pak1.pak'' \<mapsto> beyondArchive]\<rparr>)
            ''/srv/q2/baseq2/pak1.pak'') \<and>
   map_option offset
     (the (files (projr (scanpak (exampleEnv\<lparr>openFile := [''/srv/q2/baseq2/pak1.pak'' \<mapsto> beyondArchive]\<rparr>)
            ''/srv/q2/baseq2/pak1.pak''))) ''a'') = Some 4294967295 \<and>
   Reader_init ''XXXX'' = Inl (IOError ErrUnexpectedEOF) \<and>
   \<not> isFormatError (IOError ErrUnexpectedEOF)"
proof -
  have "Reader_init ''XXXX'' = Inl (IOError ErrUnexpectedEOF)"
    by (simp add: Reader_init_def readFull_def)
  moreover have "\<not> isFormatError (IOError ErrUnexpectedEOF)" by (simp add: isFormatError_def)
  ultimately show ?thesis
    using beyondArchive_Reader beyondArchive_scanpak beyondArchive_scanned by simp
qed


section \<open>The lock around a reload\<close>

lemma initial_inv: "reloadInv cfgs (initial t0)"
  by (simp add: reloadInv_def initial_def)

lemma step_inv:
  assumes inv: "reloadInv cfgs s" and st: "step cfgs s l = Some s1"
  shows "reloadInv cfgs s1"
proof -
  from st have ne: "\<not> exited s" by (auto simp: step_def split: if_splits)
  from inv have i1: "mLocked s = (writer s \<noteq> WIdle)"
    and i2: "mLocked s \<longrightarrow> mReaders s = {}"
    and i3: "published s \<noteq> []"
    and i4: "writer s = WIdle \<or> writer s = WLocked \<longrightarrow> gSearchPaths s = last (published s)"
    and i5: "\<forall>i. writer s = WScanning i \<longrightarrow> i \<le> length cfgs \<and> length (gSearchPaths s) = i"
    and i6: "\<forall>(g, t)\<in>set (observed s). g < length (published s) \<and> t = published s ! g"
    and i7: "\<forall>t\<in>set (tl (published s)). length t = length cfgs"
    by (simp_all add: reloadInv_def)
  show ?thesis
  proof (cases l)
    case WLock
    with st ne have "s1 = s\<lparr>mLocked := True, writer := WLocked\<rparr>" "writer s = WIdle"
      "mReaders s = {}"
      by (auto simp: step_def split: if_splits)
    with i3 i4 i6 i7 show ?thesis by (simp add: reloadInv_def)
  next
    case WReset
    with st ne have "s1 = s\<lparr>gSearchPaths := [], gDirCache := Map.empty, writer := WScanning 0\<rparr>"
      "writer s = WLocked"
      by (auto simp: step_def split: if_splits)
    with i1 i2 i3 i6 i7 show ?thesis by (simp add: reloadInv_def)
  next
    case (WScan E)
    with st ne obtain i where w: "writer s = WScanning i" and lt: "i < length cfgs"
      by (auto simp: step_def split: if_splits wpc.splits)
    show ?thesis
    proof (cases "scanRoute E (gDirCache s) (cfgs ! i)")
      case None
      with st ne WScan w lt have "s1 = s\<lparr>exited := True\<rparr>" by (simp add: step_def)
      with inv show ?thesis by (simp add: reloadInv_def)
    next
      case (Some rc)
      obtain r c where rc: "rc = (r, c)" by (cases rc)
      with st ne WScan w lt Some
      have "s1 = s\<lparr>gSearchPaths := gSearchPaths s @ [r], gDirCache := c,
                     writer := WScanning (Suc i)\<rparr>"
        by (simp add: step_def)
      with i1 i2 i3 i5 i6 i7 w lt show ?thesis by (simp add: reloadInv_def)
    qed
  next
    case WUnlock
    with st ne have w: "writer s = WScanning (length cfgs)"
      and s1: "s1 = s\<lparr>mLocked := False, writer := WIdle,
                       published := published s @ [gSearchPaths s]\<rparr>"
      by (auto simp: step_def split: if_splits wpc.splits)
    from i5 w have len: "length (gSearchPaths s) = length cfgs" by simp
    have o: "\<forall>(g, t)\<in>set (observed s).
        g < length (published s @ [gSearchPaths s]) \<and> t = (published s @ [gSearchPaths s]) ! g"
      using i6 by (auto simp: nth_append)
    have t: "\<forall>t\<in>set (tl (published s @ [gSearchPaths s])). length t = length cfgs"
      using i7 i3 len by (cases "published s") auto
    from s1 o t show ?thesis by (simp add: reloadInv_def)
  next
    case (RLock r)
    with st ne have "s1 = s\<lparr>mReaders := insert r (mReaders s)\<rparr>" "\<not> mLocked s"
      by (auto simp: step_def split: if_splits)
    with i1 i3 i4 i5 i6 i7 show ?thesis by (simp add: reloadInv_def)
  next
    case (RRead r)
    with st ne have s1: "s1 = s\<lparr>observed := observed s @ [(length (published s) - 1, gSearchPaths s)]\<rparr>"
      and r: "r \<in> mReaders s"
      by (auto simp: step_def split: if_splits)
    from r i2 have "\<not> mLocked s" by auto
    with i1 i4 have "gSearchPaths s = last (published s)" by simp
    with i3 have "gSearchPaths s = published s ! (length (published s) - 1)"
      by (simp add: last_conv_nth)
    with i1 i2 i3 i4 i5 i6 i7 s1 show ?thesis by (simp add: reloadInv_def)
  next
    case (RUnlock r)
    with st ne have "s1 = s\<lparr>mReaders := mReaders s - {r}\<rparr>" "r \<in> mReaders s"
      by (auto simp: step_def split: if_splits)
    with i1 i2 i3 i4 i5 i6 i7 show ?thesis by (auto simp: reloadInv_def)
  qed
qed

lemma run_inv: "reloadInv cfgs s \<Longrightarrow> run cfgs s sched = Some s1 \<Longrightarrow> reloadInv cfgs s1"
proof (induction sched arbitrary: s)
  case Nil
  then show ?case by simp
next
  case (Cons l ls)
  from Cons.prems(2) obtain s2 where s2: "step cfgs s l = Some s2" and r: "run cfgs s2 ls = Some s1"
    by (auto split: option.splits)
  from step_inv[OF Cons.prems(1) s2] r show ?case by (rule Cons.IH)
qed

lemma step_hd: "step cfgs s l = Some s1 \<Longrightarrow> published s \<noteq> [] \<Longrightarrow> hd (published s1) = hd (published s)"
  by (cases l) (auto simp: step_def split: if_splits wpc.splits option.splits)

lemma run_hd:
  "reloadInv cfgs s \<Longrightarrow> run cfgs s sched = Some s1 \<Longrightarrow> hd (published s1) = hd (published s)"
proof (induction sched arbitrary: s)
  case Nil
  then show ?case by simp
next
  case (Cons l ls)
  from Cons.prems(2) obtain s2 where s2: "step cfgs s l = Some s2" and r: "run cfgs s2 ls = Some s1"
    by (auto split: option.splits)
  have ne: "published s \<noteq> []" using Cons.prems(1) by (simp add: reloadInv_def)
  from Cons.IH[OF step_inv[OF Cons.prems(1) s2] r] step_hd[OF s2 ne] show ?case by simp
qed

text \<open>A reload of the example configuration, step by step.\<close>

lemma example_archives:
  "scanOrder exampleEnv [''pak0.pkz'', ''maps'', ''server.cfg''] = [''pak0.pkz''] \<and>
   HasSuffix (ToLower (uLower exampleEnv) ''pak0.pkz'') ''.pkz'' \<and>
   filepathJoin exampleEnv ''/srv/q2/baseq2'' ''pak0.pkz'' = ''/srv/q2/baseq2/pak0.pkz''"
  by code_simp

lemma example_scandir:
  "\<exists>m. scandir exampleEnv Map.empty ''/srv/q2/baseq2'' =
     Some ([\<lparr>spath = ''/srv/q2/baseq2/pak0.pkz'', files = Some m\<rparr>,
            \<lparr>spath = ''/srv/q2/baseq2'', files = None\<rparr>],
           [''/srv/q2/baseq2'' \<mapsto>
              [\<lparr>spath = ''/srv/q2/baseq2/pak0.pkz'', files = Some m\<rparr>,
               \<lparr>spath = ''/srv/q2/baseq2'', files = None\<rparr>]])"
proof -
  have z: "\<exists>m. scanzip exampleEnv ''/srv/q2/baseq2/pak0.pkz'' =
      Inr \<lparr>spath = ''/srv/q2/baseq2/pak0.pkz'', files = Some m\<rparr>"
    by (simp add: scanzip_def exampleEnv_def del: zipEntries.simps)
  then obtain m where m: "scanzip exampleEnv ''/srv/q2/baseq2/pak0.pkz'' =
      Inr \<lparr>spath = ''/srv/q2/baseq2/pak0.pkz'', files = Some m\<rparr>" ..
  have a: "scanAll exampleEnv ''/srv/q2/baseq2'' [''pak0.pkz''] =
      [\<lparr>spath = ''/srv/q2/baseq2/pak0.pkz'', files = Some m\<rparr>]"
    by (simp add: example_archives m)
  have r: "readDir exampleEnv ''/srv/q2/baseq2'' = Some [''pak0.pkz'', ''maps'', ''server.cfg'']"
    "dirWhiteList exampleEnv \<noteq> []"
    by (simp_all add: exampleEnv_def)
  show ?thesis
    by (rule exI[of _ m]) (simp add: scandir_def r example_archives a Let_def del: scanAll.simps)
qed

lemma example_scanRoute:
  "\<exists>r c. scanRoute exampleEnv Map.empty (exampleConfig ! 0) = Some (r, c) \<and>
     map spath (search r) = [''/srv/q2/baseq2/pak0.pkz'', ''/srv/q2/baseq2''] \<and>
     c ''/srv/q2/baseq2'' = Some (search r)"
proof -
  from example_scandir obtain m where
    "scandir exampleEnv Map.empty ''/srv/q2/baseq2'' =
       Some ([\<lparr>spath = ''/srv/q2/baseq2/pak0.pkz'', files = Some m\<rparr>,
              \<lparr>spath = ''/srv/q2/baseq2'', files = None\<rparr>],
             [''/srv/q2/baseq2'' \<mapsto>
                [\<lparr>spath = ''/srv/q2/baseq2/pak0.pkz'', files = Some m\<rparr>,
                 \<lparr>spath = ''/srv/q2/baseq2'', files = None\<rparr>]])" ..
  hence d: "scanDirs exampleEnv Map.empty [''/srv/q2/baseq2''] =
       Some ([\<lparr>spath = ''/srv/q2/baseq2/pak0.pkz'', files = Some m\<rparr>,
              \<lparr>spath = ''/srv/q2/baseq2'', files = None\<rparr>],
             [''/srv/q2/baseq2'' \<mapsto>
                [\<lparr>spath = ''/srv/q2/baseq2/pak0.pkz'', files = Some m\<rparr>,
                 \<lparr>spath = ''/srv/q2/baseq2'', files = None\<rparr>]])"
    by simp
  have c: "compileRe exampleEnv ''^/baseq2/'' = Some (anchoredLiteral ''/baseq2/'')"
    by (simp add: exampleEnv_def)
  show ?thesis
    by (simp add: scanRoute_def exampleConfig_def d c del: scanDirs.simps)
qed

lemma duringScan_run:
  "run exampleConfig (initial (searchPaths exampleEnv)) [WLock, WReset, WScan exampleEnv]
     = Some duringScan \<and>
   mLocked duringScan \<and> writer duringScan = WScanning 1 \<and> \<not> exited duringScan \<and>
   mReaders duringScan = {} \<and>
   map (\<lambda>r. map spath (search r)) (gSearchPaths duringScan)
     = [[''/srv/q2/baseq2/pak0.pkz'', ''/srv/q2/baseq2'']]"
proof -
  from example_scanRoute obtain r c where
    rc: "scanRoute exampleEnv Map.empty (exampleConfig ! 0) = Some (r, c)"
    and sp: "map spath (search r) = [''/srv/q2/baseq2/pak0.pkz'', ''/srv/q2/baseq2'']"
    and c: "c ''/srv/q2/baseq2'' = Some (search r)"
    by (elim exE conjE)
  have len: "length exampleConfig = 2" by (simp add: exampleConfig_def)
  have run: "run exampleConfig (initial (searchPaths exampleEnv)) [WLock, WReset, WScan exampleEnv]
      = Some (initial (searchPaths exampleEnv)
                \<lparr>gSearchPaths := [r], gDirCache := c, mLocked := True, writer := WScanning 1\<rparr>)"
    by (simp add: step_def initial_def rc len)
  show ?thesis unfolding duringScan_def run by (simp add: initial_def sp)
qed

lemma example_scanRoute_cached:
  assumes "c ''/srv/q2/baseq2'' = Some sp"
  shows "scanRoute exampleEnv c (exampleConfig ! 1) =
     Some (\<lparr>rmatch = anchoredLiteral ''/'', search = sp\<rparr>, c)"
proof -
  have "scandir exampleEnv c ''/srv/q2/baseq2'' = Some (sp, c)"
    using assms by (simp add: scandir_def)
  hence d: "scanDirs exampleEnv c [''/srv/q2/baseq2''] = Some (sp, c)" by simp
  have r: "compileRe exampleEnv ''^/'' = Some (anchoredLiteral ''/'')"
    by (simp add: exampleEnv_def)
  show ?thesis by (simp add: scanRoute_def exampleConfig_def d r del: scanDirs.simps)
qed

lemma afterReload_run:
  "run exampleConfig (initial (searchPaths exampleEnv))
     [RLock 0, RRead 0, RUnlock 0, WLock, WReset, WScan exampleEnv, WScan exampleEnv,
      WUnlock, RLock 1, RRead 1] = Some afterReload \<and>
   writer afterReload = WIdle \<and> \<not> mLocked afterReload \<and>
   length (observed afterReload) = 2 \<and> length (published afterReload) = 2 \<and>
   fst (observed afterReload ! 0) = 0 \<and> fst (observed afterReload ! 1) = 1"
proof -
  from example_scanRoute obtain r c where
    rc: "scanRoute exampleEnv Map.empty (exampleConfig ! 0) = Some (r, c)"
    and c: "c ''/srv/q2/baseq2'' = Some (search r)"
    by (elim exE conjE)
  note rc2 = example_scanRoute_cached[where c = c and sp = "search r", OF c, unfolded One_nat_def]
  have len: "length exampleConfig = 2" by (simp add: exampleConfig_def)
  let ?t0 = "searchPaths exampleEnv"
  let ?t1 = "[r, \<lparr>rmatch = anchoredLiteral ''/'', search = search r\<rparr>]"
  have run: "run exampleConfig (initial ?t0)
     [RLock 0, RRead 0, RUnlock 0, WLock, WReset, WScan exampleEnv, WScan exampleEnv,
      WUnlock, RLock 1, RRead 1]
      = Some (initial ?t0
                \<lparr>gSearchPaths := ?t1, gDirCache := c, mReaders := {1},
                  published := [?t0, ?t1], observed := [(0, ?t0), (1, ?t1)]\<rparr>)"
    by (simp add: step_def initial_def rc rc2 len)
  show ?thesis unfolding afterReload_def run by (simp add: initial_def)
qed


text \<open>
  Claim C5, with the lock where the code takes it. In every state that the goroutines can
  reach from the start of the servers, under any schedule: while \<^verbatim>\<open>scanSearchPaths\<close> is
  between its \<^verbatim>\<open>Lock\<close> and its \<^verbatim>\<open>Unlock\<close>, that is during the whole scan of the file system, the
  write lock is held and no lookup holds the read lock; every lookup ranged over a table that
  stood in \<^verbatim>\<open>searchPaths\<close> while the write lock was free, the table of the start or the table a
  reload left at its \<^verbatim>\<open>Unlock\<close>; each table left by a reload has one route for each entry of
  the configuration; and whenever the write lock is free \<^verbatim>\<open>searchPaths\<close> holds the last of
  these tables.
\<close>

theorem reload_under_lock:
  assumes "run cfgs (initial t0) sched = Some s"
  shows "(writer s \<noteq> WIdle \<longrightarrow> mLocked s \<and> mReaders s = {}) \<and>
         (\<forall>(g, t)\<in>set (observed s). g < length (published s) \<and> t = published s ! g) \<and>
         hd (published s) = t0 \<and>
         (\<forall>t\<in>set (tl (published s)). length t = length cfgs) \<and>
         (\<not> mLocked s \<longrightarrow> gSearchPaths s = last (published s))"
proof -
  have inv: "reloadInv cfgs s" using initial_inv assms by (rule run_inv)
  have "hd (published s) = hd (published (initial t0))" using initial_inv assms by (rule run_hd)
  hence hd: "hd (published s) = t0" by (simp add: initial_def)
  from inv hd show ?thesis unfolding reloadInv_def by blast
qed

theorem reload_under_lock_witness:
  "run exampleConfig (initial (searchPaths exampleEnv))
     [RLock 0, RRead 0, RUnlock 0, WLock, WReset, WScan exampleEnv, WScan exampleEnv,
      WUnlock, RLock 1, RRead 1] = Some afterReload \<and>
   length (observed afterReload) = 2 \<and> length (published afterReload) = 2 \<and>
   hd (published afterReload) = searchPaths exampleEnv \<and>
   gSearchPaths afterReload = last (published afterReload) \<and>
   observed afterReload ! 0 = (0, published afterReload ! 0) \<and>
   observed afterReload ! 1 = (1, published afterReload ! 1) \<and>
   length (published afterReload ! 1) = length exampleConfig"
proof -
  note R = afterReload_run
  note T = reload_under_lock[OF R[THEN conjunct1]]
  have hd: "hd (published afterReload) = searchPaths exampleEnv"
    using T by (elim conjE)
  have la: "gSearchPaths afterReload = last (published afterReload)"
    using T R by simp
  have ob: "\<forall>(g, t)\<in>set (observed afterReload).
      g < length (published afterReload) \<and> t = published afterReload ! g"
    using T by (elim conjE)
  have "observed afterReload ! 0 \<in> set (observed afterReload)"
    "observed afterReload ! 1 \<in> set (observed afterReload)"
    using R by simp_all
  with ob have "snd (observed afterReload ! 0) = published afterReload ! fst (observed afterReload ! 0)"
    "snd (observed afterReload ! 1) = published afterReload ! fst (observed afterReload ! 1)"
    by (auto simp: case_prod_beta)
  with R have o: "observed afterReload ! 0 = (0, published afterReload ! 0)"
    "observed afterReload ! 1 = (1, published afterReload ! 1)"
    by (simp_all add: prod_eq_iff)
  have "\<forall>t\<in>set (tl (published afterReload)). length t = length exampleConfig"
    using T by (elim conjE)
  moreover have "published afterReload ! 1 \<in> set (tl (published afterReload))"
    using R by (cases "published afterReload") auto
  ultimately have c: "length (published afterReload ! 1) = length exampleConfig" by blast
  from R hd la o c show ?thesis by simp
qed

text \<open>
  Claim C5 as stated fails in its first part: after \<^verbatim>\<open>Lock\<close>, the two assignments and one turn
  of the loop the write lock is held, \<^verbatim>\<open>searchPaths\<close> holds one of the two routes, the scan of
  the second entry is the next step, and a lookup cannot take the read lock.
\<close>

theorem reload_scans_under_lock_counterexample:
  "run exampleConfig (initial (searchPaths exampleEnv)) [WLock, WReset, WScan exampleEnv]
     = Some duringScan \<and>
   mLocked duringScan \<and> writer duringScan = WScanning 1 \<and> length exampleConfig = 2 \<and>
   map (\<lambda>r. map spath (search r)) (gSearchPaths duringScan)
     = [[''/srv/q2/baseq2/pak0.pkz'', ''/srv/q2/baseq2'']] \<and>
   step exampleConfig duringScan (RLock 0) = None \<and>
   step exampleConfig duringScan (WScan exampleEnv) \<noteq> None"
proof -
  note D = duringScan_run
  have len: "length exampleConfig = 2" by (simp add: exampleConfig_def)
  have r: "step exampleConfig duringScan (RLock 0) = None"
    using D by (simp add: step_def)
  have w: "step exampleConfig duringScan (WScan exampleEnv) \<noteq> None"
    using D len by (simp add: step_def split: option.splits)
  from D len r w show ?thesis by simp
qed


end
